(* ===== verification/SL_Prelude.thy ===== *)
theory SL_Prelude
  imports Main "HOL-Library.Word" "HOL-Library.AList"
begin

text \<open>
  Shared vocabulary of the development: the types that name bytes and JavaScript strings, the
  simp collections the components fill, the generic list lemmas, and the two interfaces that
  several components implement (a chunk-insensitive stream consumer and an event machine
  with an invariant).
\<close>

unbundle bit_operations_syntax

section \<open>Types\<close>

text \<open>
  A byte of a Node.js \<open>Buffer\<close> is an 8-bit word.  A JavaScript string is the list of its
  UTF-16 code units, which is what \<open>charCodeAt\<close>, \<open>length\<close> and \<open>slice\<close> see.  \<open>js\<close> turns an
  ASCII literal into one.
\<close>

type_synonym byte = "8 word"
type_synonym jstr = "nat list"

definition js :: "string \<Rightarrow> jstr" where
  "js s = map of_char s"

lemma js_eq [simp]: "js a = js b \<longleftrightarrow> a = b"
proof -
  have "inj (of_char :: char \<Rightarrow> nat)" by (simp add: inj_on_def)
  then show ?thesis unfolding js_def by (rule inj_map_eq_map)
qed

definition byte_of :: "nat \<Rightarrow> byte" where
  "byte_of n = word_of_nat n"

section \<open>Collections of rewrite rules\<close>

named_theorems byte_range \<open>bit tests on a byte as comparisons of its value\<close>
named_theorems ws_frame \<open>what an operation of the connection leaves unchanged\<close>
named_theorems inv_step \<open>operations keep the invariant of their component\<close>

section \<open>Exhaustive reasoning over one byte\<close>

lemma byte_all:
  assumes "list_all P [0..255]" and "n < 256"
  shows "P (int n)"
proof -
  from assms(2) have "int n \<in> set [0..255]" by simp
  with assms(1) show ?thesis
    unfolding list_all_iff by (rule bspec)
qed

lemma unat_byte [simp]: "unat (b :: byte) < 256"
  using unsigned_less [of b, where 'a = nat] by simp

lemma unat_byte_of [simp]: "n < 256 \<Longrightarrow> unat (byte_of n) = n"
  by (simp add: byte_of_def unat_of_nat)

lemma byte_of_unat [simp]: "byte_of (unat b) = b"
  by (simp add: byte_of_def)

text \<open>
  The bit tests the code makes on a byte, as comparisons of its value.  Each is checked on all
  256 values.
\<close>

lemma and_ranges_int:
  fixes n :: nat
  assumes "n < 256"
  shows "int n AND 0x80 = 0 \<longleftrightarrow> int n < 0x80"
    and "int n AND 0xE0 = 0xC0 \<longleftrightarrow> 0xC0 \<le> int n \<and> int n < 0xE0"
    and "int n AND 0xF0 = 0xE0 \<longleftrightarrow> 0xE0 \<le> int n \<and> int n < 0xF0"
    and "int n AND 0xF8 = 0xF0 \<longleftrightarrow> 0xF0 \<le> int n \<and> int n < 0xF8"
    and "int n AND 0xC0 = 0x80 \<longleftrightarrow> 0x80 \<le> int n \<and> int n < 0xC0"
  by (rule byte_all [OF _ assms], code_simp)+

lemma nat_and_eq: "(n :: nat) AND m = k \<longleftrightarrow> int n AND int m = int k"
  by (simp only: of_nat_and_eq [symmetric] of_nat_eq_iff)

lemma byte_and_ranges [byte_range]:
  fixes b :: byte
  shows "b AND 0x80 = 0 \<longleftrightarrow> unat b < 0x80"
    and "b AND 0xE0 = 0xC0 \<longleftrightarrow> 0xC0 \<le> unat b \<and> unat b < 0xE0"
    and "b AND 0xF0 = 0xE0 \<longleftrightarrow> 0xE0 \<le> unat b \<and> unat b < 0xF0"
    and "b AND 0xF8 = 0xF0 \<longleftrightarrow> 0xF0 \<le> unat b \<and> unat b < 0xF8"
    and "b AND 0xC0 = 0x80 \<longleftrightarrow> 0x80 \<le> unat b \<and> unat b < 0xC0"
proof -
  have "\<exists>n. n < 256 \<and> unat b = n" by simp
  then obtain n where n: "n < 256" "unat b = n" by blast
  show "b AND 0x80 = 0 \<longleftrightarrow> unat b < 0x80"
    "b AND 0xE0 = 0xC0 \<longleftrightarrow> 0xC0 \<le> unat b \<and> unat b < 0xE0"
    "b AND 0xF0 = 0xE0 \<longleftrightarrow> 0xE0 \<le> unat b \<and> unat b < 0xF0"
    "b AND 0xF8 = 0xF0 \<longleftrightarrow> 0xF0 \<le> unat b \<and> unat b < 0xF8"
    "b AND 0xC0 = 0x80 \<longleftrightarrow> 0x80 \<le> unat b \<and> unat b < 0xC0"
    using and_ranges_int [OF n(1)]
    by (simp_all add: word_unat_eq_iff unsigned_and_eq n(2) nat_and_eq)
qed

lemma unat_and_mask: "unat ((w :: 'a::len word) AND mask n) = unat w mod 2 ^ n"
proof -
  have "unat (w AND mask n) = unat (take_bit n w)" by (simp only: take_bit_eq_mask)
  also have "\<dots> = take_bit n (unat w)" by (rule unsigned_take_bit_eq)
  also have "\<dots> = unat w mod 2 ^ n" by (rule take_bit_eq_mod)
  finally show ?thesis .
qed

lemma byte_low_bits [byte_range]:
  fixes b :: byte
  shows "unat (b AND 0x0F) = unat b mod 0x10"
    and "unat (b AND 0x07) = unat b mod 0x08"
    and "unat (b AND 0x3F) = unat b mod 0x40"
    and "unat (b AND 0x1F) = unat b mod 0x20"
    and "unat (b AND 0x7F) = unat b mod 0x80"
  using unat_and_mask [of b 4] unat_and_mask [of b 3] unat_and_mask [of b 6]
    unat_and_mask [of b 5] unat_and_mask [of b 7]
  by (simp_all add: mask_eq_exp_minus_1)

section \<open>Lists\<close>

lemma take_while_full: "(\<forall>x\<in>set xs. P x) \<Longrightarrow> takeWhile P xs = xs"
  by (induction xs) auto

lemma fold_concat_map: "fold (\<lambda>xs s. fold f xs s) xss s = fold f (concat xss) s"
  by (induction xss arbitrary: s) auto

section \<open>String methods of the runtime\<close>

text \<open>
  \<open>split(sep)\<close> with a one-character separator, \<open>trim\<close> and \<open>toLowerCase\<close> on strings whose characters
  are below U+0100 (HTTP header values are Latin-1), and \<open>indexOf\<close> of one character.
\<close>

fun split_on :: "'a \<Rightarrow> 'a list \<Rightarrow> 'a list list" where
  "split_on c [] = [[]]"
| "split_on c (x # xs) =
     (if x = c then [] # split_on c xs
      else (case split_on c xs of [] \<Rightarrow> [[x]] | p # ps \<Rightarrow> (x # p) # ps))"

definition js_space :: "char \<Rightarrow> bool" where
  "js_space c = (let n = (of_char c :: nat) in (9 \<le> n \<and> n \<le> 13) \<or> n = 32 \<or> n = 160)"

definition trim :: "string \<Rightarrow> string" where
  "trim s = rev (dropWhile js_space (rev (dropWhile js_space s)))"

definition lower_char :: "char \<Rightarrow> char" where
  "lower_char c =
     (let n = (of_char c :: nat) in
      if (65 \<le> n \<and> n \<le> 90) \<or> (192 \<le> n \<and> n \<le> 222 \<and> n \<noteq> 215) then char_of (n + 32) else c)"

definition toLowerCase :: "string \<Rightarrow> string" where
  "toLowerCase s = map lower_char s"

fun index_of :: "'a \<Rightarrow> 'a list \<Rightarrow> nat option" where
  "index_of c [] = None"
| "index_of c (x # xs) = (if x = c then Some 0 else map_option Suc (index_of c xs))"

fun join_with :: "'a list \<Rightarrow> 'a list list \<Rightarrow> 'a list" where
  "join_with sep [] = []"
| "join_with sep [x] = x"
| "join_with sep (x # y # ys) = x @ sep @ join_with sep (y # ys)"

text \<open>\<open>String(n)\<close> of a natural number.\<close>

fun decimal :: "nat \<Rightarrow> jstr" where
  "decimal n = (if n < 10 then [48 + n] else decimal (n div 10) @ [48 + n mod 10])"

declare decimal.simps [simp del]

definition decimal_int :: "int \<Rightarrow> jstr" where
  "decimal_int i = (if i < 0 then js ''-'' @ decimal (nat (- i)) else decimal (nat i))"

lemma split_on_nonempty [simp]: "split_on c xs \<noteq> []"
  by (induction xs) (auto split: list.splits)

lemma split_on_no_sep: "p \<in> set (split_on c xs) \<Longrightarrow> c \<notin> set p"
  by (induction xs arbitrary: p) (auto split: list.splits if_splits)

lemma split_on_id: "c \<notin> set xs \<Longrightarrow> split_on c xs = [xs]"
  by (induction xs) auto

lemma split_on_append: "c \<notin> set xs \<Longrightarrow> split_on c (xs @ c # ys) = xs # split_on c ys"
  by (induction xs) auto

lemma join_with_Cons: "xss \<noteq> [] \<Longrightarrow> join_with sep (x # xss) = x @ sep @ join_with sep xss"
  by (cases xss) auto

lemma join_with_Cons_head: "join_with sep ((x # p) # ps) = x # join_with sep (p # ps)"
  by (cases ps) auto

lemma join_split: "join_with [c] (split_on c xs) = xs"
  by (induction xs) (auto simp: join_with_Cons join_with_Cons_head split: list.splits)

lemma split_join:
  "xss \<noteq> [] \<Longrightarrow> \<forall>xs\<in>set xss. c \<notin> set xs \<Longrightarrow> split_on c (join_with [c] xss) = xss"
proof (induction xss)
  case (Cons x xss)
  then show ?case
    by (cases "xss = []") (auto simp: join_with_Cons split_on_id split_on_append)
qed simp

lemma index_of_Some: "index_of c xs = Some i \<Longrightarrow> i < length xs \<and> xs ! i = c \<and> c \<notin> set (take i xs)"
  by (induction xs arbitrary: i) (auto split: if_splits)

lemma index_of_None: "index_of c xs = None \<longleftrightarrow> c \<notin> set xs"
  by (induction xs) auto

lemma index_of_append: "c \<notin> set xs \<Longrightarrow> index_of c (xs @ c # ys) = Some (length xs)"
  by (induction xs) auto

lemma decimal_digits: "set (decimal n) \<subseteq> {48..57}"
  by (induction n rule: decimal.induct) (subst decimal.simps, auto)

lemma decimal_nonempty [simp]: "decimal n \<noteq> []"
  by (subst decimal.simps) simp

text \<open>The number a string of decimal digits writes.\<close>

definition digits_value :: "jstr \<Rightarrow> nat" where
  "digits_value s = foldl (\<lambda>n c. 10 * n + (c - 48)) 0 s"

lemma digits_value_decimal [simp]: "digits_value (decimal n) = n"
proof (induction n rule: decimal.induct)
  case (1 n)
  then show ?case by (cases "n < 10") (simp_all add: decimal.simps [of n] digits_value_def)
qed

lemma decimal_inj [simp]: "decimal m = decimal n \<longleftrightarrow> m = n"
  by (metis digits_value_decimal)

lemma decimal_int_inj [simp]: "decimal_int i = decimal_int j \<longleftrightarrow> i = j"
proof -
  have "decimal n \<noteq> js ''-'' @ s" for n s using decimal_digits [of n] by (auto simp: js_def)
  from this [of "nat i"] this [of "nat j"] show ?thesis by (auto simp: decimal_int_def dest: sym)
qed

lemma decimal_int_chars: "set (decimal_int i) \<subseteq> {45} \<union> {48..57}"
  using decimal_digits [of "nat i"] decimal_digits [of "nat (- i)"] by (auto simp: decimal_int_def js_def)

text \<open>A map in insertion order: setting a new key appends it.\<close>

lemma alist_update_new: "k \<notin> fst ` set obj \<Longrightarrow> AList.update k v obj = obj @ [(k, v)]"
  by (induction obj) auto

section \<open>Interfaces\<close>

text \<open>
  A stream consumer reads bytes in chunks of any size.  Its promise is that cutting the input
  somewhere else makes no difference; \<open>None\<close> is the rejection of the input, after which the
  consumer is not used again.
\<close>

locale stream_consumer =
  fixes push :: "'s \<Rightarrow> 'b list \<Rightarrow> 's option"
  assumes push_Nil: "push s [] = Some s"
    and push_append: "push s (xs @ ys) = Option.bind (push s xs) (\<lambda>t. push t ys)"
begin

primrec push_chunks :: "'s \<Rightarrow> 'b list list \<Rightarrow> 's option" where
  "push_chunks s [] = Some s"
| "push_chunks s (c # cs) = Option.bind (push s c) (\<lambda>t. push_chunks t cs)"

lemma push_chunks_concat: "push_chunks s cs = push s (concat cs)"
proof (induction cs arbitrary: s)
  case Nil
  then show ?case by (simp add: push_Nil)
next
  case (Cons c cs)
  then show ?case by (cases "push s c") (simp_all add: push_append)
qed

lemma chunking_irrelevant:
  "concat cs = concat ds \<Longrightarrow> push_chunks s cs = push_chunks s ds"
  by (simp add: push_chunks_concat)

lemma push_prefix: "push s (xs @ ys) \<noteq> None \<Longrightarrow> push s xs \<noteq> None"
  by (cases "push s xs") (simp_all add: push_append)

end

text \<open>
  An event machine with an invariant: whatever sequence of events arrives, a run that starts in
  a state of the invariant stays in it, and every output a step makes from such a state is safe.
  \<open>outs\<close> reads the outputs a state has accumulated.
\<close>

locale safe_machine =
  fixes step :: "'e \<Rightarrow> 's \<Rightarrow> 's"
    and inv :: "'s \<Rightarrow> bool"
    and outs :: "'s \<Rightarrow> 'o list"
    and safe :: "'s \<Rightarrow> 'o \<Rightarrow> bool"
  assumes step_inv: "inv s \<Longrightarrow> inv (step e s)"
    and step_outs: "inv s \<Longrightarrow> \<exists>new. outs (step e s) = outs s @ new \<and> (\<forall>x\<in>set new. safe s x)"
    and safe_frame: "safe (step e s) x \<longleftrightarrow> safe s x"
begin

lemma run_inv: "inv s \<Longrightarrow> inv (fold step es s)"
  by (induction es arbitrary: s) (auto intro: step_inv)

lemma run_safe_frame: "safe (fold step es s) x \<longleftrightarrow> safe s x"
  by (induction es arbitrary: s) (auto simp: safe_frame)

lemma run_outs:
  "inv s \<Longrightarrow> \<exists>new. outs (fold step es s) = outs s @ new \<and> (\<forall>x\<in>set new. safe s x)"
proof (induction es arbitrary: s)
  case Nil
  then show ?case by simp
next
  case (Cons e es)
  from Cons.prems obtain new where
    new: "outs (step e s) = outs s @ new" "\<forall>x\<in>set new. safe s x"
    using step_outs by blast
  from Cons.prems have "inv (step e s)" by (rule step_inv)
  then obtain more where
    more: "outs (fold step es (step e s)) = outs (step e s) @ more"
      "\<forall>x\<in>set more. safe (step e s) x"
    using Cons.IH by blast
  from new more show ?case by (auto simp: safe_frame)
qed

lemma run_outs_safe:
  "inv s \<Longrightarrow> \<forall>x\<in>set (outs s). safe s x \<Longrightarrow> x \<in> set (outs (fold step es s)) \<Longrightarrow> safe s x"
  using run_outs [of s es] by auto

end

text \<open>
  A simulation: an implementation and a specification that answer every event alike, whatever
  representation the implementation keeps.  \<open>outputs\<close> is the list of answers to a list of events.
\<close>

fun outputs :: "('e \<Rightarrow> 's \<Rightarrow> 'o \<times> 's) \<Rightarrow> 'e list \<Rightarrow> 's \<Rightarrow> 'o list" where
  "outputs step [] s = []"
| "outputs step (e # es) s = fst (step e s) # outputs step es (snd (step e s))"

locale simulation =
  fixes impl :: "'e \<Rightarrow> 'c \<Rightarrow> 'o \<times> 'c"
    and spec :: "'e \<Rightarrow> 'a \<Rightarrow> 'o \<times> 'a"
    and rel :: "'c \<Rightarrow> 'a \<Rightarrow> bool"
  assumes sim_output: "rel c a \<Longrightarrow> fst (impl e c) = fst (spec e a)"
    and sim_state: "rel c a \<Longrightarrow> rel (snd (impl e c)) (snd (spec e a))"
begin

lemma sim_outputs: "rel c a \<Longrightarrow> outputs impl es c = outputs spec es a"
  by (induction es arbitrary: c a) (auto simp: sim_output sim_state)

lemma sim_run: "rel c a \<Longrightarrow> rel (fold (\<lambda>e s. snd (impl e s)) es c) (fold (\<lambda>e s. snd (spec e s)) es a)"
  by (induction es arbitrary: c a) (auto simp: sim_state)

end

end
