(* ===== verification/Ws_Utf8.thy ===== *)
theory Ws_Utf8
  imports SL_Prelude
begin

text \<open>
  UTF-8 as the WebSocket package uses it: \<open>Buffer.from(s, 'utf8')\<close> and the fatal
  \<open>TextDecoder\<close> of the JavaScript runtime, and the package's own streaming
  \<open>Utf8Validator\<close> (packages/websocket/src/websocket.ts).  The main result is the exact
  language of the validator.
\<close>

section \<open>The runtime's encoder\<close>

text \<open>
  A string is read as code points: a high surrogate followed by a low one is one supplementary
  code point, any other surrogate is encoded as U+FFFD.
\<close>

abbreviation is_high :: "nat \<Rightarrow> bool" where
  "is_high u \<equiv> 0xD800 \<le> u \<and> u \<le> 0xDBFF"

abbreviation is_low :: "nat \<Rightarrow> bool" where
  "is_low u \<equiv> 0xDC00 \<le> u \<and> u \<le> 0xDFFF"

abbreviation surrogate :: "nat \<Rightarrow> bool" where
  "surrogate u \<equiv> 0xD800 \<le> u \<and> u \<le> 0xDFFF"

fun code_points :: "jstr \<Rightarrow> nat list" where
  "code_points [] = []"
| "code_points [u] = [if surrogate u then 0xFFFD else u]"
| "code_points (u # v # us) =
     (if is_high u \<and> is_low v
      then (0x10000 + (u - 0xD800) * 0x400 + (v - 0xDC00)) # code_points us
      else (if surrogate u then 0xFFFD else u) # code_points (v # us))"

definition cont_byte :: "nat \<Rightarrow> byte" where
  "cont_byte n = byte_of (0x80 + n mod 0x40)"

definition utf8_encode_cp :: "nat \<Rightarrow> byte list" where
  "utf8_encode_cp c =
     (if c < 0x80 then [byte_of c]
      else if c < 0x800 then [byte_of (0xC0 + c div 0x40), cont_byte c]
      else if c < 0x10000
      then [byte_of (0xE0 + c div 0x1000), cont_byte (c div 0x40), cont_byte c]
      else [byte_of (0xF0 + c div 0x40000), cont_byte (c div 0x1000),
            cont_byte (c div 0x40), cont_byte c])"

definition buffer_from_utf8 :: "jstr \<Rightarrow> byte list" where
  "buffer_from_utf8 s = concat (map utf8_encode_cp (code_points s))"

section \<open>The streaming validator\<close>

record utf8_validator =
  uv_state :: nat
  uv_codepoint :: "32 word"
  uv_minNext :: byte

definition new_Utf8Validator :: utf8_validator where
  "new_Utf8Validator = \<lparr>uv_state = 0, uv_codepoint = 0, uv_minNext = 0\<rparr>"

text \<open>The body of the loop of \<open>push\<close>; \<open>None\<close> is \<open>return false\<close>.\<close>

definition utf8_byte :: "utf8_validator \<Rightarrow> byte \<Rightarrow> utf8_validator option" where
  "utf8_byte v b =
     (if uv_state v = 0 then
        (if b AND 0x80 = 0 then Some v
         else if b AND 0xE0 = 0xC0 then
           (if b < 0xC2 then None
            else Some (v\<lparr>uv_codepoint := ucast (b AND 0x1F), uv_state := 1, uv_minNext := 0x80\<rparr>))
         else if b AND 0xF0 = 0xE0 then
           Some (v\<lparr>uv_codepoint := ucast (b AND 0x0F), uv_state := 2,
                    uv_minNext := (if b = 0xE0 then 0xA0 else 0x80)\<rparr>)
         else if b AND 0xF8 = 0xF0 then
           (if b > 0xF4 then None
            else Some (v\<lparr>uv_codepoint := ucast (b AND 0x07), uv_state := 3,
                          uv_minNext := (if b = 0xF0 then 0x90 else 0x80)\<rparr>))
         else None)
      else
        (if b < uv_minNext v \<or> b > 0xBF then None
         else if uv_state v = 2 \<and> uv_codepoint v = 0xD \<and> b \<ge> 0xA0 then None
         else Some (v\<lparr>uv_codepoint := push_bit 6 (uv_codepoint v) OR ucast (b AND 0x3F),
                       uv_state := uv_state v - 1, uv_minNext := 0x80\<rparr>)))"

text \<open>\<open>push\<close> keeps the state at the rejected byte, as the object does.\<close>

fun Utf8Validator_push :: "utf8_validator \<Rightarrow> byte list \<Rightarrow> bool \<times> utf8_validator" where
  "Utf8Validator_push v [] = (True, v)"
| "Utf8Validator_push v (b # bs) =
     (case utf8_byte v b of None \<Rightarrow> (False, v) | Some v' \<Rightarrow> Utf8Validator_push v' bs)"

definition Utf8Validator_done :: "utf8_validator \<Rightarrow> bool" where
  "Utf8Validator_done v = (uv_state v = 0)"

text \<open>What the connection asks of a complete text message.\<close>

definition validate_text :: "utf8_validator \<Rightarrow> byte list \<Rightarrow> bool" where
  "validate_text v data =
     (case Utf8Validator_push v data of (ok, v') \<Rightarrow> ok \<and> Utf8Validator_done v')"

section \<open>The validator as a stream consumer\<close>

definition utf8_feed :: "utf8_validator \<Rightarrow> byte list \<Rightarrow> utf8_validator option" where
  "utf8_feed v bs = (case Utf8Validator_push v bs of (ok, v') \<Rightarrow> if ok then Some v' else None)"

lemma utf8_feed_simps [simp]:
  "utf8_feed v [] = Some v"
  "utf8_feed v (b # bs) = Option.bind (utf8_byte v b) (\<lambda>w. utf8_feed w bs)"
  by (auto simp: utf8_feed_def split: option.splits)

interpretation utf8: stream_consumer utf8_feed
proof unfold_locales
  show "utf8_feed s [] = Some s" for s by simp
  show "utf8_feed s (xs @ ys) = Option.bind (utf8_feed s xs) (\<lambda>t. utf8_feed t ys)" for s xs ys
    by (induction xs arbitrary: s) (auto split: bind_splits)
qed

lemma validate_text_feed:
  "validate_text v bs \<longleftrightarrow> (\<exists>w. utf8_feed v bs = Some w \<and> uv_state w = 0)"
  by (auto simp: validate_text_def utf8_feed_def Utf8Validator_done_def split: prod.splits)

section \<open>The language of the validator\<close>

abbreviation is_cont :: "byte \<Rightarrow> bool" where
  "is_cont b \<equiv> 0x80 \<le> unat b \<and> unat b < 0xC0"

fun utf8_char :: "byte list \<Rightarrow> bool" where
  "utf8_char [a] \<longleftrightarrow> unat a < 0x80"
| "utf8_char [a, b] \<longleftrightarrow> 0xC2 \<le> unat a \<and> unat a < 0xE0 \<and> is_cont b"
| "utf8_char [a, b, c] \<longleftrightarrow> 0xE0 \<le> unat a \<and> unat a < 0xF0 \<and> is_cont b \<and> is_cont c \<and>
     (unat a = 0xE0 \<longrightarrow> 0xA0 \<le> unat b) \<and> (unat a = 0xED \<longrightarrow> unat b < 0xA0)"
| "utf8_char [a, b, c, d] \<longleftrightarrow> 0xF0 \<le> unat a \<and> unat a \<le> 0xF4 \<and> is_cont b \<and> is_cont c \<and>
     is_cont d \<and> (unat a = 0xF0 \<longrightarrow> 0x90 \<le> unat b)"
| "utf8_char _ \<longleftrightarrow> False"

lemma byte_eq_numeral:
  "(b :: byte) = 0xE0 \<longleftrightarrow> unat b = 0xE0" "b = 0xF0 \<longleftrightarrow> unat b = 0xF0"
  by (simp_all add: word_unat_eq_iff)

lemma utf8_byte_lead:
  assumes "uv_state v = 0"
  shows "utf8_byte v b =
    (if unat b < 0x80 then Some v
     else if unat b < 0xC2 then None
     else if unat b < 0xE0
     then Some (v\<lparr>uv_codepoint := ucast (b AND 0x1F), uv_state := 1, uv_minNext := 0x80\<rparr>)
     else if unat b < 0xF0
     then Some (v\<lparr>uv_codepoint := ucast (b AND 0x0F), uv_state := 2,
                   uv_minNext := (if unat b = 0xE0 then 0xA0 else 0x80)\<rparr>)
     else if unat b \<le> 0xF4
     then Some (v\<lparr>uv_codepoint := ucast (b AND 0x07), uv_state := 3,
                   uv_minNext := (if unat b = 0xF0 then 0x90 else 0x80)\<rparr>)
     else None)"
  using assms
  by (auto simp: utf8_byte_def byte_range word_less_nat_alt byte_eq_numeral [of b])

lemma utf8_byte_cont:
  assumes "uv_state v = Suc k"
  shows "utf8_byte v b =
    (if unat b < unat (uv_minNext v) \<or> 0xC0 \<le> unat b \<or>
        (k = 1 \<and> uv_codepoint v = 0xD \<and> 0xA0 \<le> unat b) then None
     else Some (v\<lparr>uv_codepoint := push_bit 6 (uv_codepoint v) OR ucast (b AND 0x3F),
                   uv_state := k, uv_minNext := 0x80\<rparr>))"
  using assms
  by (auto simp: utf8_byte_def word_less_nat_alt word_le_nat_alt)

lemma validate_text_simps [simp]:
  "validate_text v [] \<longleftrightarrow> uv_state v = 0"
  "validate_text v (b # bs) \<longleftrightarrow>
     (case utf8_byte v b of None \<Rightarrow> False | Some w \<Rightarrow> validate_text w bs)"
  by (auto simp: validate_text_feed split: option.splits)

lemma validate_text_state0:
  "uv_state v = 0 \<Longrightarrow> uv_state w = 0 \<Longrightarrow> validate_text v bs = validate_text w bs"
proof (induction bs)
  case (Cons b bs)
  show ?case
  proof (cases "unat b < 0x80")
    case True
    with Cons show ?thesis by (simp add: utf8_byte_lead)
  next
    case False
    with Cons.prems have "utf8_byte v b = utf8_byte w b"
      by (simp add: utf8_byte_lead)
    then show ?thesis by simp
  qed
qed simp

lemma unat_shift_in:
  fixes w :: "32 word" and b :: byte
  assumes "unat w < 2 ^ 20"
  shows "unat (push_bit 6 w OR ucast (b AND 0x3F)) = unat w * 64 + unat b mod 64"
proof -
  let ?z = "ucast (b AND 0x3F) :: 32 word"
  have z: "unat ?z = unat b mod 64"
    by (simp add: unsigned_ucast_eq byte_range take_bit_eq_mod)
  have "unat ?z < 64" by (simp add: z)
  moreover have "unat (take_bit 6 ?z) = unat ?z mod 2 ^ 6"
    by (simp only: take_bit_eq_mask unat_and_mask)
  ultimately have "?z = take_bit 6 ?z"
    by (simp add: word_unat_eq_iff)
  moreover have "push_bit 6 w AND take_bit 6 y = 0" for y :: "32 word"
    by (rule bit_eqI) (auto simp: bit_simps)
  ultimately have "push_bit 6 w AND ?z = 0" by metis
  then have or: "push_bit 6 w OR ?z = push_bit 6 w + ?z"
    by (simp only: disjunctive_add_eq_or)
  have mult: "push_bit 6 w = w * 64"
    by (simp add: push_bit_eq_mult)
  show ?thesis
    unfolding or unfolding mult using assms z by (simp add: unat_word_ariths)
qed

lemma validate_text_new:
  assumes "uv_state v = 0"
  shows "validate_text v bs = validate_text new_Utf8Validator bs"
  by (rule validate_text_state0) (simp_all add: assms new_Utf8Validator_def)

lemma validate_cont1:
  assumes "uv_state v = 1" "uv_minNext v = 0x80"
  shows "validate_text v bs \<longleftrightarrow>
    (\<exists>b rest. bs = b # rest \<and> is_cont b \<and> validate_text new_Utf8Validator rest)"
proof (cases bs)
  case (Cons b rest)
  have "utf8_byte v b = (if is_cont b
      then Some (v\<lparr>uv_codepoint := push_bit 6 (uv_codepoint v) OR ucast (b AND 0x3F),
                   uv_state := 0, uv_minNext := 0x80\<rparr>) else None)"
    using assms by (auto simp: utf8_byte_cont [where k = 0])
  with Cons show ?thesis
    by (auto simp: validate_text_new split: if_splits)
qed (use assms in simp)

lemma validate_cont2:
  assumes "uv_state v = 2" "unat (uv_minNext v) \<ge> 0x80"
  shows "validate_text v bs \<longleftrightarrow>
    (\<exists>b c rest. bs = b # c # rest \<and> unat (uv_minNext v) \<le> unat b \<and> is_cont b \<and> is_cont c \<and>
       (uv_codepoint v = 0xD \<longrightarrow> unat b < 0xA0) \<and> validate_text new_Utf8Validator rest)"
proof (cases bs)
  case (Cons b rest)
  let ?w = "v\<lparr>uv_codepoint := push_bit 6 (uv_codepoint v) OR ucast (b AND 0x3F),
                   uv_state := 1, uv_minNext := 0x80\<rparr>"
  let ?ok = "unat (uv_minNext v) \<le> unat b \<and> is_cont b \<and> (uv_codepoint v = 0xD \<longrightarrow> unat b < 0xA0)"
  have "utf8_byte v b = (if ?ok then Some ?w else None)"
    using assms by (auto simp: utf8_byte_cont [where k = 1])
  moreover have "validate_text ?w rest \<longleftrightarrow>
      (\<exists>c rest'. rest = c # rest' \<and> is_cont c \<and> validate_text new_Utf8Validator rest')"
    by (rule validate_cont1) simp_all
  ultimately show ?thesis
    using Cons by (auto split: if_splits)
qed (use assms in simp)

lemma validate_cont3:
  assumes "uv_state v = 3" "unat (uv_minNext v) \<ge> 0x80" "unat (uv_codepoint v) < 8"
    and nz: "unat (uv_codepoint v) = 0 \<longrightarrow> unat (uv_minNext v) \<ge> 0x90"
  shows "validate_text v bs \<longleftrightarrow>
    (\<exists>b c d rest. bs = b # c # d # rest \<and> unat (uv_minNext v) \<le> unat b \<and> is_cont b \<and>
       is_cont c \<and> is_cont d \<and> validate_text new_Utf8Validator rest)"
proof (cases bs)
  case (Cons b rest)
  let ?cp = "push_bit 6 (uv_codepoint v) OR ucast (b AND 0x3F) :: 32 word"
  let ?w = "v\<lparr>uv_codepoint := ?cp, uv_state := 2, uv_minNext := 0x80\<rparr>"
  let ?ok = "unat (uv_minNext v) \<le> unat b \<and> is_cont b"
  have step: "utf8_byte v b = (if ?ok then Some ?w else None)"
    using assms by (auto simp: utf8_byte_cont [where k = 2])
  have cp: "?cp \<noteq> 0xD" if ?ok
  proof
    assume "?cp = 0xD"
    then have "unat ?cp = 13" by simp
    then have "unat (uv_codepoint v) * 64 + unat b mod 64 = 13"
      using assms(3) by (simp add: unat_shift_in)
    moreover from this have "unat (uv_codepoint v) = 0" by linarith
    ultimately have "unat b mod 64 = 13" "144 \<le> unat b" "unat b < 192"
      using that nz by auto
    moreover have "unat b = 64 * (unat b div 64) + unat b mod 64" by simp
    ultimately show False by (cases "unat b div 64 \<le> 2") linarith+
  qed
  have "validate_text ?w rest \<longleftrightarrow>
      (\<exists>c d rest'. rest = c # d # rest' \<and> is_cont c \<and> is_cont d \<and>
        (?cp = 0xD \<longrightarrow> unat c < 0xA0) \<and> validate_text new_Utf8Validator rest')"
    by (subst validate_cont2) auto
  with step cp Cons show ?thesis
    by (auto split: if_splits)
qed (use assms in simp)

text \<open>What may follow each lead byte.\<close>

lemma new_state0: "uv_state new_Utf8Validator = 0"
  by (simp add: new_Utf8Validator_def)

lemmas lead = utf8_byte_lead [OF new_state0]

lemma ucast_eq_13: "(ucast (a AND 0x0F) :: 32 word) = 0xD \<longleftrightarrow> unat (a :: byte) mod 16 = 13"
  by (simp add: word_unat_eq_iff unsigned_ucast_eq take_bit_eq_mod byte_range)

lemma validate_lead2:
  assumes "0xC2 \<le> unat a" "unat a < 0xE0"
  shows "validate_text new_Utf8Validator (a # bs) \<longleftrightarrow>
    (\<exists>b rest. bs = b # rest \<and> is_cont b \<and> validate_text new_Utf8Validator rest)"
  using assms by (simp add: lead validate_cont1)

lemma validate_lead3:
  assumes "0xE0 \<le> unat a" "unat a < 0xF0"
  shows "validate_text new_Utf8Validator (a # bs) \<longleftrightarrow>
    (\<exists>b c rest. bs = b # c # rest \<and> utf8_char [a, b, c] \<and> validate_text new_Utf8Validator rest)"
proof -
  from assms have "unat a mod 16 = 13 \<longleftrightarrow> unat a = 0xED" by presburger
  with assms show ?thesis
    by (auto simp: lead validate_cont2 ucast_eq_13)
qed

lemma validate_lead4:
  assumes "0xF0 \<le> unat a" "unat a \<le> 0xF4"
  shows "validate_text new_Utf8Validator (a # bs) \<longleftrightarrow>
    (\<exists>b c d rest. bs = b # c # d # rest \<and> utf8_char [a, b, c, d] \<and>
       validate_text new_Utf8Validator rest)"
proof -
  have cp: "unat (ucast (a AND 0x07) :: 32 word) = unat a mod 8"
    by (simp add: unsigned_ucast_eq take_bit_eq_mod byte_range)
  from assms have "unat a mod 8 = 0 \<longleftrightarrow> unat a = 0xF0" by presburger
  with assms show ?thesis
    by (auto simp: lead validate_cont3 cp)
qed

lemma utf8_char_lead:
  "utf8_char (a # xs) \<longleftrightarrow>
     (unat a < 0x80 \<and> xs = []) \<or>
     (0xC2 \<le> unat a \<and> unat a < 0xE0 \<and> (\<exists>b. xs = [b] \<and> is_cont b)) \<or>
     (0xE0 \<le> unat a \<and> unat a < 0xF0 \<and> (\<exists>b c. xs = [b, c] \<and> utf8_char (a # xs))) \<or>
     (0xF0 \<le> unat a \<and> unat a \<le> 0xF4 \<and> (\<exists>b c d. xs = [b, c, d] \<and> utf8_char (a # xs)))"
  by (cases "a # xs" rule: utf8_char.cases) auto

lemma validate_text_Cons:
  "validate_text new_Utf8Validator (a # bs) \<longleftrightarrow>
     (\<exists>xs rest. bs = xs @ rest \<and> utf8_char (a # xs) \<and> validate_text new_Utf8Validator rest)"
proof -
  consider "unat a < 0x80" | "0x80 \<le> unat a" "unat a < 0xC2" | "0xC2 \<le> unat a" "unat a < 0xE0"
    | "0xE0 \<le> unat a" "unat a < 0xF0" | "0xF0 \<le> unat a" "unat a \<le> 0xF4" | "0xF4 < unat a"
    by linarith
  then show ?thesis
  proof cases
    case 1
    then show ?thesis by (subst utf8_char_lead) (simp add: lead)
  next
    case 2
    then show ?thesis by (subst utf8_char_lead) (simp add: lead)
  next
    case 3
    then have "utf8_char (a # xs) \<longleftrightarrow> (\<exists>b. xs = [b] \<and> is_cont b)" for xs
      by (subst utf8_char_lead) auto
    moreover have "validate_text new_Utf8Validator (a # bs) \<longleftrightarrow>
        (\<exists>b rest. bs = [b] @ rest \<and> is_cont b \<and> validate_text new_Utf8Validator rest)"
      using 3 by (simp add: validate_lead2 del: validate_text_simps)
    ultimately show ?thesis by blast
  next
    case 4
    then have "utf8_char (a # xs) \<longleftrightarrow> (\<exists>b c. xs = [b, c] \<and> utf8_char [a, b, c])" for xs
      by (subst utf8_char_lead) auto
    moreover have "validate_text new_Utf8Validator (a # bs) \<longleftrightarrow>
        (\<exists>b c rest. bs = [b, c] @ rest \<and> utf8_char [a, b, c] \<and> validate_text new_Utf8Validator rest)"
      using 4 by (simp add: validate_lead3 del: validate_text_simps)
    ultimately show ?thesis by blast
  next
    case 5
    then have "utf8_char (a # xs) \<longleftrightarrow> (\<exists>b c d. xs = [b, c, d] \<and> utf8_char [a, b, c, d])" for xs
      by (subst utf8_char_lead) auto
    moreover have "validate_text new_Utf8Validator (a # bs) \<longleftrightarrow>
        (\<exists>b c d rest. bs = [b, c, d] @ rest \<and> utf8_char [a, b, c, d] \<and>
           validate_text new_Utf8Validator rest)"
      using 5 by (simp add: validate_lead4 del: validate_text_simps)
    ultimately show ?thesis by blast
  next
    case 6
    then show ?thesis by (subst utf8_char_lead) (simp add: lead)
  qed
qed

lemma validate_text_chars:
  "validate_text new_Utf8Validator bs \<longleftrightarrow> (\<exists>xss. bs = concat xss \<and> (\<forall>xs\<in>set xss. utf8_char xs))"
proof (induction "length bs" arbitrary: bs rule: less_induct)
  case less
  show ?case
  proof (cases bs)
    case Nil
    then show ?thesis by (auto simp: new_state0 intro: exI [of _ "[]"])
  next
    case (Cons a bs')
    have IH: "validate_text new_Utf8Validator rest \<longleftrightarrow>
        (\<exists>xss. rest = concat xss \<and> (\<forall>xs\<in>set xss. utf8_char xs))" if "bs' = xs @ rest" for xs rest
      using that Cons by (intro less) simp
    have "validate_text new_Utf8Validator bs \<longleftrightarrow>
        (\<exists>xs rest. bs' = xs @ rest \<and> utf8_char (a # xs) \<and> validate_text new_Utf8Validator rest)"
      unfolding Cons by (rule validate_text_Cons)
    also have "\<dots> \<longleftrightarrow> (\<exists>xs xss. bs' = xs @ concat xss \<and> utf8_char (a # xs) \<and>
        (\<forall>ys\<in>set xss. utf8_char ys))"
      using IH by blast
    also have "\<dots> \<longleftrightarrow> (\<exists>xss. bs = concat xss \<and> (\<forall>xs\<in>set xss. utf8_char xs))"
    proof
      assume "\<exists>xs xss. bs' = xs @ concat xss \<and> utf8_char (a # xs) \<and> (\<forall>ys\<in>set xss. utf8_char ys)"
      then obtain xs xss where "bs' = xs @ concat xss" "utf8_char (a # xs)"
        "\<forall>ys\<in>set xss. utf8_char ys" by blast
      with Cons show "\<exists>xss. bs = concat xss \<and> (\<forall>xs\<in>set xss. utf8_char xs)"
        by (intro exI [of _ "(a # xs) # xss"]) simp
    next
      assume "\<exists>xss. bs = concat xss \<and> (\<forall>xs\<in>set xss. utf8_char xs)"
      then obtain xss where xss: "a # bs' = concat xss" "\<forall>xs\<in>set xss. utf8_char xs"
        using Cons by auto
      then obtain ys yss where "xss = ys # yss" by (cases xss) auto
      with xss obtain zs where "ys = a # zs" "bs' = zs @ concat yss"
        by (cases ys) (auto simp:)
      with xss \<open>xss = ys # yss\<close>
      show "\<exists>xs xss. bs' = xs @ concat xss \<and> utf8_char (a # xs) \<and> (\<forall>ys\<in>set xss. utf8_char ys)"
        by auto
    qed
    finally show ?thesis .
  qed
qed

section \<open>Sequences and code points\<close>

lemma unat_cont_byte [simp]: "unat (cont_byte n) = 0x80 + n mod 0x40"
  by (simp add: cont_byte_def)

lemma cont_byte_of:
  "unat b = 0x80 + n mod 0x40 \<Longrightarrow> cont_byte n = b" "unat b = 0x80 + n mod 0x40 \<Longrightarrow> b = cont_byte n"
  by (simp_all add: word_unat_eq_iff)

lemma utf8_char_encode:
  assumes "c < 0x140000" "\<not> surrogate c"
  shows "utf8_char (utf8_encode_cp c)"
proof -
  consider "c < 0x80" | "0x80 \<le> c" "c < 0x800" | "0x800 \<le> c" "c < 0x10000" | "0x10000 \<le> c"
    by linarith
  then show ?thesis
  proof cases
    case 1
    then show ?thesis by (simp add: utf8_encode_cp_def)
  next
    case 2
    then have "2 \<le> c div 0x40 \<and> c div 0x40 < 0x20" by linarith
    with 2 show ?thesis by (simp add: utf8_encode_cp_def)
  next
    case 3
    define d where "d = c div 0x40"
    have d: "c div 0x1000 = d div 0x40" by (simp add: d_def div_mult2_eq [symmetric])
    have r: "0x20 \<le> d" "d < 0x400" "d < 0x360 \<or> 0x380 \<le> d"
      using 3 assms(2) unfolding d_def by linarith+
    have dm: "d = 0x40 * (d div 0x40) + d mod 0x40" by simp
    have "d div 0x40 = 0 \<Longrightarrow> 0x20 \<le> d mod 0x40" using r dm by linarith
    moreover have "d div 0x40 = 0xD \<Longrightarrow> d mod 0x40 < 0x20" using r dm by linarith
    moreover have "d div 0x40 < 0x10" using r dm by linarith
    ultimately
    show ?thesis using 3 by (simp add: utf8_encode_cp_def d flip: d_def)
  next
    case 4
    define d where "d = c div 0x1000"
    have d: "c div 0x40000 = d div 0x40" by (simp add: d_def div_mult2_eq [symmetric])
    have r: "0x10 \<le> d" "d < 0x140"
      using 4 assms(1) unfolding d_def by linarith+
    have dm: "d = 0x40 * (d div 0x40) + d mod 0x40" by simp
    have "d div 0x40 = 0 \<Longrightarrow> 0x10 \<le> d mod 0x40" using r dm by linarith
    moreover have "d div 0x40 \<le> 4" using r dm by linarith
    ultimately show ?thesis using 4 by (simp add: utf8_encode_cp_def d flip: d_def)
  qed
qed

lemma digits64:
  fixes x y :: nat
  assumes "y < 0x40"
  shows "(x * 0x40 + y) div 0x40 = x" "(x * 0x40 + y) mod 0x40 = y"
  using assms by simp_all

lemma encode2:
  assumes "y < 0x40" "c = x * 0x40 + y" "0x80 \<le> c" "c < 0x800"
  shows "utf8_encode_cp c = [byte_of (0xC0 + x), byte_of (0x80 + y)]"
proof -
  have "c div 0x40 = x" "c mod 0x40 = y"
    unfolding assms(2) using assms(1) by (rule digits64)+
  with assms(3,4) show ?thesis by (simp add: utf8_encode_cp_def cont_byte_def)
qed

lemma encode3:
  assumes "y < 0x40" "z < 0x40" "d = x * 0x40 + y" "c = d * 0x40 + z" "0x800 \<le> c" "c < 0x10000"
  shows "utf8_encode_cp c = [byte_of (0xE0 + x), byte_of (0x80 + y), byte_of (0x80 + z)]"
proof -
  have d: "d div 0x40 = x" "d mod 0x40 = y"
    unfolding assms(3) using assms(1) by (rule digits64)+
  have c: "c div 0x40 = d" "c mod 0x40 = z"
    unfolding assms(4) using assms(2) by (rule digits64)+
  have "c div 0x1000 = c div 0x40 div 0x40" by (simp add: div_mult2_eq [symmetric])
  with c d assms(5,6) show ?thesis by (simp add: utf8_encode_cp_def cont_byte_def)
qed

lemma encode4:
  assumes "x < 0x40" "y < 0x40" "z < 0x40" "e = w * 0x40 + x" "d = e * 0x40 + y" "c = d * 0x40 + z"
    "0x10000 \<le> c"
  shows "utf8_encode_cp c =
    [byte_of (0xF0 + w), byte_of (0x80 + x), byte_of (0x80 + y), byte_of (0x80 + z)]"
proof -
  have e: "e div 0x40 = w" "e mod 0x40 = x"
    unfolding assms(4) using assms(1) by (rule digits64)+
  have d: "d div 0x40 = e" "d mod 0x40 = y"
    unfolding assms(5) using assms(2) by (rule digits64)+
  have c: "c div 0x40 = d" "c mod 0x40 = z"
    unfolding assms(6) using assms(3) by (rule digits64)+
  have "c div 0x1000 = c div 0x40 div 0x40" "c div 0x40000 = c div 0x40 div 0x40 div 0x40"
    by (simp_all add: div_mult2_eq [symmetric])
  with c d e assms(7) show ?thesis by (simp add: utf8_encode_cp_def cont_byte_def)
qed

lemma utf8_char_decode:
  assumes "utf8_char xs"
  shows "\<exists>c. c < 0x140000 \<and> \<not> surrogate c \<and> xs = utf8_encode_cp c"
proof -
  from assms consider
    (1) a where "xs = [a]" "unat a < 0x80"
  | (2) a b where "xs = [a, b]" "0xC2 \<le> unat a" "unat a < 0xE0" "is_cont b"
  | (3) a b c where "xs = [a, b, c]" "0xE0 \<le> unat a" "unat a < 0xF0" "is_cont b" "is_cont c"
      "unat a = 0xE0 \<longrightarrow> 0xA0 \<le> unat b" "unat a = 0xED \<longrightarrow> unat b < 0xA0"
  | (4) a b c d where "xs = [a, b, c, d]" "0xF0 \<le> unat a" "unat a \<le> 0xF4" "is_cont b"
      "is_cont c" "is_cont d" "unat a = 0xF0 \<longrightarrow> 0x90 \<le> unat b"
    by (cases xs rule: utf8_char.cases) auto
  then show ?thesis
  proof cases
    case 1
    then show ?thesis by (intro exI [of _ "unat a"]) (simp add: utf8_encode_cp_def)
  next
    case 2
    then obtain x y where xy: "unat a = 0xC0 + x" "unat b = 0x80 + y"
      using le_Suc_ex [of "0xC0" "unat a"] le_Suc_ex [of "0x80" "unat b"] by auto
    define c where "c = x * 0x40 + y"
    from 2 xy have r: "y < 0x40" "2 \<le> x" "x < 0x20" by auto
    then have "0x80 \<le> c" "c < 0x800" unfolding c_def by linarith+
    moreover from this have "utf8_encode_cp c = [a, b]"
      using r by (simp add: encode2 [OF _ c_def] flip: xy)
    ultimately show ?thesis using 2 by (intro exI [of _ c]) simp
  next
    case 3
    then obtain x y z where xyz: "unat a = 0xE0 + x" "unat b = 0x80 + y" "unat c = 0x80 + z"
      using le_Suc_ex [of "0xE0" "unat a"] le_Suc_ex [of "0x80" "unat b"]
        le_Suc_ex [of "0x80" "unat c"] by auto
    define d where "d = x * 0x40 + y"
    define u where "u = d * 0x40 + z"
    from 3 xyz have r: "y < 0x40" "z < 0x40" "x < 0x10" "x = 0 \<longrightarrow> 0x20 \<le> y" "x = 0xD \<longrightarrow> y < 0x20"
      by auto
    then have "d < 0x360 \<or> 0x380 \<le> d" unfolding d_def
      by (cases x "0xD :: nat" rule: linorder_cases) auto
    moreover from r have "0x20 \<le> d" "d < 0x400" unfolding d_def by linarith+
    ultimately have u: "0x800 \<le> u \<and> u < 0x10000 \<and> \<not> surrogate u"
      unfolding u_def using r(2) by auto
    then have "utf8_encode_cp u = [a, b, c]"
      using r by (simp add: encode3 [OF _ _ d_def u_def] flip: xyz)
    with u 3 show ?thesis by (intro exI [of _ u]) simp
  next
    case 4
    then obtain w x y z where wxyz: "unat a = 0xF0 + w" "unat b = 0x80 + x" "unat c = 0x80 + y"
      "unat d = 0x80 + z"
      using le_Suc_ex [of "0xF0" "unat a"] le_Suc_ex [of "0x80" "unat b"]
        le_Suc_ex [of "0x80" "unat c"] le_Suc_ex [of "0x80" "unat d"] by auto
    define e where "e = w * 0x40 + x"
    define f where "f = e * 0x40 + y"
    define u where "u = f * 0x40 + z"
    from 4 wxyz have r: "x < 0x40" "y < 0x40" "z < 0x40" "w < 5" "w = 0 \<longrightarrow> 0x10 \<le> x"
      by auto
    then have "0x10 \<le> e" "e < 0x140" unfolding e_def by linarith+
    with r(2) have "0x400 \<le> f" "f < 0x5000" unfolding f_def by linarith+
    with r(3) have u: "0x10000 \<le> u" "u < 0x140000" unfolding u_def by linarith+
    then have "utf8_encode_cp u = [a, b, c, d]"
      using r by (simp add: encode4 [OF _ _ _ e_def f_def u_def] flip: wxyz)
    with u 4 show ?thesis by (intro exI [of _ u]) simp
  qed
qed

text \<open>The validator accepts exactly the encodings of code points below 0x140000.\<close>

lemma validate_text_iff:
  "validate_text new_Utf8Validator bs \<longleftrightarrow>
     (\<exists>cs. (\<forall>c\<in>set cs. c < 0x140000 \<and> \<not> surrogate c) \<and> bs = concat (map utf8_encode_cp cs))"
  (is "_ \<longleftrightarrow> (\<exists>cs. ?ok cs \<and> _)")
proof
  assume "validate_text new_Utf8Validator bs"
  then obtain xss where xss: "bs = concat xss" "\<forall>xs\<in>set xss. utf8_char xs"
    by (auto simp: validate_text_chars)
  then have "\<forall>xs\<in>set xss. \<exists>c. c < 0x140000 \<and> \<not> surrogate c \<and> xs = utf8_encode_cp c"
    using utf8_char_decode by blast
  then obtain dec where dec: "\<forall>xs\<in>set xss. dec xs < 0x140000 \<and> \<not> surrogate (dec xs) \<and>
      xs = utf8_encode_cp (dec xs)" by metis
  then have "map (utf8_encode_cp \<circ> dec) xss = xss" by (simp add: map_idI)
  then have "bs = concat (map utf8_encode_cp (map dec xss))"
    using xss(1) by simp
  moreover have "?ok (map dec xss)" using dec by auto
  ultimately show "\<exists>cs. ?ok cs \<and> bs = concat (map utf8_encode_cp cs)" by blast
next
  assume "\<exists>cs. ?ok cs \<and> bs = concat (map utf8_encode_cp cs)"
  then obtain cs where "?ok cs" "bs = concat (map utf8_encode_cp cs)" by blast
  then show "validate_text new_Utf8Validator bs"
    using utf8_char_encode unfolding validate_text_chars
    by (intro exI [of _ "map utf8_encode_cp cs"]) auto
qed

section \<open>The runtime's decoder\<close>

text \<open>
  \<open>new TextDecoder('utf-8', { fatal: true }).decode(bytes)\<close> rejects every ill-formed sequence
  (code points above U+10FFFF included), drops one leading byte order mark and returns UTF-16.
\<close>

fun utf8_decode :: "byte list \<Rightarrow> nat list option" where
  "utf8_decode [] = Some []"
| "utf8_decode (a # bs) =
     (if unat a < 0x80 then map_option ((#) (unat a)) (utf8_decode bs)
      else if 0xC2 \<le> unat a \<and> unat a < 0xE0 then
        (case bs of
           b # rest \<Rightarrow>
             if utf8_char [a, b]
             then map_option ((#) ((unat a - 0xC0) * 0x40 + (unat b - 0x80))) (utf8_decode rest)
             else None
         | _ \<Rightarrow> None)
      else if 0xE0 \<le> unat a \<and> unat a < 0xF0 then
        (case bs of
           b # c # rest \<Rightarrow>
             if utf8_char [a, b, c]
             then map_option ((#) (((unat a - 0xE0) * 0x40 + (unat b - 0x80)) * 0x40 +
                                   (unat c - 0x80))) (utf8_decode rest)
             else None
         | _ \<Rightarrow> None)
      else
        (case bs of
           b # c # d # rest \<Rightarrow>
             if utf8_char [a, b, c, d] \<and> (unat a = 0xF4 \<longrightarrow> unat b < 0x90)
             then map_option ((#) ((((unat a - 0xF0) * 0x40 + (unat b - 0x80)) * 0x40 +
                                    (unat c - 0x80)) * 0x40 + (unat d - 0x80))) (utf8_decode rest)
             else None
         | _ \<Rightarrow> None))"

definition utf16_of_cp :: "nat \<Rightarrow> jstr" where
  "utf16_of_cp c =
     (if c < 0x10000 then [c]
      else [0xD800 + (c - 0x10000) div 0x400, 0xDC00 + (c - 0x10000) mod 0x400])"

definition TextDecoder_decode :: "byte list \<Rightarrow> jstr option" where
  "TextDecoder_decode bs =
     map_option
       (\<lambda>cs. concat (map utf16_of_cp (case cs of c # cs' \<Rightarrow> if c = 0xFEFF then cs' else cs | [] \<Rightarrow> [])))
       (utf8_decode bs)"

section \<open>Round trips of the runtime's codecs\<close>

abbreviation scalar :: "nat \<Rightarrow> bool" where
  "scalar c \<equiv> c < 0x110000 \<and> \<not> surrogate c"

lemma digits_split64: "(n :: nat) = n div 0x40 * 0x40 + n mod 0x40"
  by simp

lemma utf8_decode_encode:
  assumes "scalar c"
  shows "utf8_decode (utf8_encode_cp c @ rest) = map_option ((#) c) (utf8_decode rest)"
proof -
  have char: "utf8_char (utf8_encode_cp c)" using assms by (intro utf8_char_encode) auto
  consider "c < 0x80" | "0x80 \<le> c" "c < 0x800" | "0x800 \<le> c" "c < 0x10000" | "0x10000 \<le> c"
    by linarith
  then show ?thesis
  proof cases
    case 1
    then show ?thesis by (simp add: utf8_encode_cp_def)
  next
    case 2
    define x y where "x = c div 0x40" and "y = c mod 0x40"
    have c: "c = x * 0x40 + y" and y: "y < 0x40" by (simp_all add: x_def y_def)
    have "2 \<le> x" "x < 0x20" using 2 y unfolding c by linarith+
    then show ?thesis
      using y char unfolding encode2 [OF y c 2] by (simp add: c)
  next
    case 3
    define d z where "d = c div 0x40" and "z = c mod 0x40"
    define x y where "x = d div 0x40" and "y = d mod 0x40"
    have c: "c = d * 0x40 + z" and z: "z < 0x40" by (simp_all add: d_def z_def)
    have d: "d = x * 0x40 + y" and y: "y < 0x40" by (simp_all add: x_def y_def)
    have "d < 0x400" using 3 z unfolding c by linarith
    then have "x < 0x10" using y unfolding d by linarith
    then show ?thesis
      using y z char unfolding encode3 [OF y z d c 3] by (simp add: c d)
  next
    case 4
    define f z where "f = c div 0x40" and "z = c mod 0x40"
    define e y where "e = f div 0x40" and "y = f mod 0x40"
    define w x where "w = e div 0x40" and "x = e mod 0x40"
    have c: "c = f * 0x40 + z" and z: "z < 0x40" by (simp_all add: f_def z_def)
    have f: "f = e * 0x40 + y" and y: "y < 0x40" by (simp_all add: e_def y_def)
    have e: "e = w * 0x40 + x" and x: "x < 0x40" by (simp_all add: w_def x_def)
    have "f < 0x4400" using assms unfolding c by linarith
    then have "e < 0x110" unfolding f by linarith
    then have "w < 5" "w = 4 \<longrightarrow> x < 0x10" using x unfolding e by auto
    then show ?thesis
      using x y z char unfolding encode4 [OF x y z e f c 4] by (simp add: c f e)
  qed
qed

lemma utf8_decode_concat:
  "\<forall>c\<in>set cs. scalar c \<Longrightarrow> utf8_decode (concat (map utf8_encode_cp cs)) = Some cs"
  by (induction cs) (simp_all add: utf8_decode_encode)

lemma code_points_scalar:
  "\<forall>u\<in>set s. u < 0x10000 \<Longrightarrow> \<forall>c\<in>set (code_points s). scalar c"
proof (induction s rule: code_points.induct)
  case (3 u v us)
  have pair: "scalar (0x10000 + (u - 0xD800) * 0x400 + (v - 0xDC00))" if "is_high u" "is_low v"
    using that by auto
  show ?case
  proof (cases "is_high u \<and> is_low v")
    case True
    with 3 pair show ?thesis by simp
  next
    case False
    then have "code_points (u # v # us) = (if surrogate u then 0xFFFD else u) # code_points (v # us)"
      by (simp only: code_points.simps if_False)
    moreover have "u < 0x10000" using 3(3) by simp
    ultimately show ?thesis using 3(2) [OF False] 3(3) by simp
  qed
qed auto

text \<open>Whatever a program sends as text, the peer's validator accepts.\<close>

lemma buffer_from_utf8_valid:
  assumes "\<forall>u\<in>set s. u < 0x10000"
  shows "validate_text new_Utf8Validator (buffer_from_utf8 s)"
  using code_points_scalar [OF assms]
  unfolding validate_text_iff buffer_from_utf8_def
  by (intro exI [of _ "code_points s"] conjI ballI) fastforce+

text \<open>A string is well formed when its surrogates are paired.\<close>

fun well_formed :: "jstr \<Rightarrow> bool" where
  "well_formed [] \<longleftrightarrow> True"
| "well_formed [u] \<longleftrightarrow> u < 0x10000 \<and> \<not> surrogate u"
| "well_formed (u # v # us) \<longleftrightarrow>
     (if is_high u \<and> is_low v then well_formed us
      else u < 0x10000 \<and> \<not> surrogate u \<and> well_formed (v # us))"

lemma well_formed_units: "well_formed s \<Longrightarrow> \<forall>u\<in>set s. u < 0x10000"
  by (induction s rule: well_formed.induct) (auto split: if_splits)

lemma utf16_surrogates:
  assumes "is_high u" "is_low v"
  shows "utf16_of_cp (0x10000 + (u - 0xD800) * 0x400 + (v - 0xDC00)) = [u, v]"
proof -
  obtain x y where xy: "u = 0xD800 + x" "v = 0xDC00 + y"
    using assms le_Suc_ex by blast
  with assms have "y < 0x400" by simp
  then have "(x * 0x400 + y) div 0x400 = x" "(x * 0x400 + y) mod 0x400 = y" by simp_all
  with xy show ?thesis by (simp add: utf16_of_cp_def)
qed

lemma utf16_code_points: "well_formed s \<Longrightarrow> concat (map utf16_of_cp (code_points s)) = s"
proof (induction s rule: code_points.induct)
  case (3 u v us)
  show ?case
  proof (cases "is_high u \<and> is_low v")
    case True
    with 3 show ?thesis using utf16_surrogates [of u v] by simp
  next
    case False
    then have "code_points (u # v # us) = (if surrogate u then 0xFFFD else u) # code_points (v # us)"
      by (simp only: code_points.simps if_False)
    moreover have "u < 0x10000" "\<not> surrogate u" "well_formed (v # us)"
      using 3(3) False unfolding well_formed.simps(3) by presburger+
    ultimately show ?thesis using 3(2) [OF False] by (simp add: utf16_of_cp_def)
  qed
qed (auto simp: utf16_of_cp_def)

lemma TextDecoder_roundtrip:
  assumes "well_formed s" "take 1 s \<noteq> [0xFEFF]"
  shows "TextDecoder_decode (buffer_from_utf8 s) = Some s"
proof -
  have "utf8_decode (buffer_from_utf8 s) = Some (code_points s)"
    unfolding buffer_from_utf8_def
    by (rule utf8_decode_concat) (rule code_points_scalar [OF well_formed_units [OF assms(1)]])
  moreover have "take 1 (code_points s) \<noteq> [0xFEFF]"
    using assms by (cases s rule: code_points.cases) auto
  ultimately show ?thesis
    using utf16_code_points [OF assms(1)]
    by (auto simp: TextDecoder_decode_def split: list.splits)
qed

end
