(* ===== verification/Ws_Frames.thy ===== *)
theory Ws_Frames
  imports Ws_Utf8
begin

text \<open>
  The free functions of packages/websocket/src/websocket.ts: close codes, close payloads and
  their truncation, and the diagnostic walk over a frame stream that names an oversized frame.
\<close>

section \<open>Opcodes and limits\<close>

abbreviation (input) OP_CONT :: nat where "OP_CONT \<equiv> 0x0"
abbreviation (input) OP_TEXT :: nat where "OP_TEXT \<equiv> 0x1"
abbreviation (input) OP_BIN :: nat where "OP_BIN \<equiv> 0x2"
abbreviation (input) OP_CLOSE :: nat where "OP_CLOSE \<equiv> 0x8"
abbreviation (input) OP_PING :: nat where "OP_PING \<equiv> 0x9"
abbreviation (input) OP_PONG :: nat where "OP_PONG \<equiv> 0xA"
abbreviation (input) RSV1 :: nat where "RSV1 \<equiv> 0x40"

definition DEFAULT_MAX_PAYLOAD_BYTES :: nat where
  "DEFAULT_MAX_PAYLOAD_BYTES = 100 * 1024 * 1024"

definition MAX_CLOSE_REASON_BYTES :: nat where
  "MAX_CLOSE_REASON_BYTES = 123"

definition DIAG_BUFFER_LIMIT :: nat where
  "DIAG_BUFFER_LIMIT = 64 * 1024"

section \<open>Big-endian integers in a buffer\<close>

definition writeUInt16BE :: "nat \<Rightarrow> byte list" where
  "writeUInt16BE n = [byte_of (n div 0x100 mod 0x100), byte_of (n mod 0x100)]"

definition readUInt16BE :: "byte list \<Rightarrow> nat \<Rightarrow> nat" where
  "readUInt16BE bs i = unat (bs ! i) * 0x100 + unat (bs ! (i + 1))"

definition readUInt32BE :: "byte list \<Rightarrow> nat \<Rightarrow> nat" where
  "readUInt32BE bs i =
     unat (bs ! i) * 0x1000000 + unat (bs ! (i + 1)) * 0x10000 +
     unat (bs ! (i + 2)) * 0x100 + unat (bs ! (i + 3))"

section \<open>Close codes and close payloads\<close>

definition isValidCloseCode :: "nat \<Rightarrow> bool" where
  "isValidCloseCode code =
     (if code = 1000 \<or> code = 1001 \<or> code = 1002 \<or> code = 1003 \<or> code = 1007 \<or>
         code = 1008 \<or> code = 1009 \<or> code = 1010 \<or> code = 1011 then True
      else if code \<ge> 3000 \<and> code \<le> 4999 then True
      else False)"

text \<open>The loop that backs off to a code-point boundary; \<open>e\<close> is the variable \<open>end\<close>.\<close>

fun back_off :: "byte list \<Rightarrow> nat \<Rightarrow> nat" where
  "back_off encoded 0 = 0"
| "back_off encoded (Suc e) =
     (if encoded ! Suc e AND 0xC0 = 0x80 then back_off encoded e else Suc e)"

definition truncateCloseReason :: "jstr option \<Rightarrow> byte list" where
  "truncateCloseReason reason =
     (case reason of
        None \<Rightarrow> []
      | Some r \<Rightarrow>
          if r = [] then []
          else
            let encoded = buffer_from_utf8 r in
            if length encoded \<le> MAX_CLOSE_REASON_BYTES then encoded
            else take (back_off encoded MAX_CLOSE_REASON_BYTES) encoded)"

datatype ws_error =
    ReasonWithoutCode        \<comment> \<open>Cannot send close reason without a code\<close>
  | NotOpen                  \<comment> \<open>WebSocket is not open\<close>
  | InvalidCloseCode nat     \<comment> \<open>RangeError: Invalid close code\<close>
  | CloseReasonTooLong       \<comment> \<open>RangeError: Close reason must be at most 123 bytes\<close>
  | ControlPayloadTooLong    \<comment> \<open>Ping/Pong payload must be at most 125 bytes\<close>
  | UnsupportedData          \<comment> \<open>TypeError: Unsupported data type for send()\<close>
  | BuildFrameThrew          \<comment> \<open>an exception of the native addon\<close>
  | DiagnosticUnderflow      \<comment> \<open>TypeError: reading \<open>length\<close> of a missing diagnostic chunk\<close>

text \<open>
  The value that reaches \<open>code\<close> at run time is a number, or the \<open>code\<close> string of a zlib error
  (\<open>_handleFrame\<close> passes \<open>e.code || 1007\<close> on).  Those strings are error names such as
  \<open>Z_DATA_ERROR\<close>, never numerals, so \<open>code & 0xffff\<close> is \<open>NaN & 0xffff\<close>, which is 0.
\<close>

datatype close_code = CodeNum nat | CodeName jstr

fun code_and_0xffff :: "close_code \<Rightarrow> nat" where
  "code_and_0xffff (CodeNum n) = n AND 0xFFFF"
| "code_and_0xffff (CodeName s) = 0"

definition encodeClosePayload :: "close_code option \<Rightarrow> jstr option \<Rightarrow> ws_error + byte list" where
  "encodeClosePayload code reason =
     (let reasonBuf = truncateCloseReason reason in
      case code of
        None \<Rightarrow> if length reasonBuf > 0 then Inl ReasonWithoutCode else Inr []
      | Some c \<Rightarrow> Inr (writeUInt16BE (code_and_0xffff c) @ reasonBuf))"

section \<open>The diagnostic walk\<close>

definition opcodeLabel :: "nat \<Rightarrow> jstr" where
  "opcodeLabel opcode =
     (if opcode = OP_TEXT then js ''text''
      else if opcode = OP_BIN then js ''binary''
      else js ''opcode '' @ decimal opcode)"

record FrameHeaderInfo =
  fh_opcode :: nat
  fh_payloadBytes :: nat

text \<open>
  The two byte reads and the length field of one header: \<open>None\<close> is the \<open>return null\<close> of an
  incomplete or unrepresentable header, otherwise payload and header length (mask included).
\<close>

definition scan_header :: "byte list \<Rightarrow> nat \<Rightarrow> (nat \<times> nat) option" where
  "scan_header bytes offset =
     (let second = bytes ! (offset + 1);
          masked = (second AND 0x80 \<noteq> 0);
          shortLength = unat (second AND 0x7F);
          maskBytes = (if masked then 4 else 0)
      in
        if shortLength = 126 then
          (if offset + 4 > length bytes then None
           else Some (readUInt16BE bytes (offset + 2), 4 + maskBytes))
        else if shortLength = 127 then
          (if offset + 10 > length bytes then None
           else
             let high = readUInt32BE bytes (offset + 2); low = readUInt32BE bytes (offset + 6) in
             if high > 0x1FFFFF then None
             else Some (high * 2 ^ 32 + low, 10 + maskBytes))
        else Some (shortLength, 2 + maskBytes))"

lemma scan_header_pos: "scan_header bytes offset = Some (p, h) \<Longrightarrow> 2 \<le> h"
  by (auto simp: scan_header_def Let_def split: if_splits)

function scanOversizedFrame_from :: "byte list \<Rightarrow> nat \<Rightarrow> nat \<Rightarrow> FrameHeaderInfo option" where
  "scanOversizedFrame_from bytes maxPayload offset =
     (if offset + 2 \<le> length bytes then
        let opcode = unat (bytes ! offset AND 0x0F) in
        case scan_header bytes offset of
          None \<Rightarrow> None
        | Some (payloadBytes, headerBytes) \<Rightarrow>
            if payloadBytes > maxPayload then
              (if opcode = OP_TEXT \<or> opcode = OP_BIN
               then Some \<lparr>fh_opcode = opcode, fh_payloadBytes = payloadBytes\<rparr> else None)
            else
              scanOversizedFrame_from bytes maxPayload (offset + (headerBytes + payloadBytes))
      else None)"
  by pat_completeness auto
termination
  by (relation "measure (\<lambda>(bytes, m, offset). length bytes - offset)")
    (auto dest!: scan_header_pos)

declare scanOversizedFrame_from.simps [simp del]

definition scanOversizedFrame :: "byte list \<Rightarrow> nat \<Rightarrow> FrameHeaderInfo option" where
  "scanOversizedFrame bytes maxPayload = scanOversizedFrame_from bytes maxPayload 0"

section \<open>Truncation of a close reason\<close>

lemma back_off_run:
  assumes "s \<le> e" "s = 0 \<or> \<not> is_cont (enc ! s)" "\<And>j. s < j \<Longrightarrow> j \<le> e \<Longrightarrow> is_cont (enc ! j)"
  shows "back_off enc e = s"
  using assms
proof (induction e)
  case (Suc e)
  show ?case
  proof (cases "s = Suc e")
    case True
    with Suc.prems(2) show ?thesis by (auto simp: byte_range)
  next
    case False
    with Suc.prems(1,3) have "is_cont (enc ! Suc e)" "s \<le> e" by auto
    with Suc show ?thesis by (auto simp: byte_range)
  qed
qed simp

lemma utf8_char_shape:
  assumes "utf8_char xs"
  shows "1 \<le> length xs" "length xs \<le> 4" "\<not> is_cont (xs ! 0)"
    "\<And>j. 0 < j \<Longrightarrow> j < length xs \<Longrightarrow> is_cont (xs ! j)"
  using assms by (cases xs rule: utf8_char.cases; auto simp: nth_Cons split: nat.splits)+

lemma back_off_chars:
  assumes "\<forall>xs\<in>set xss. utf8_char xs" "e < length (concat xss)"
  shows "\<exists>k. back_off (concat xss) e = length (concat (take k xss)) \<and>
           length (concat (take k xss)) \<le> e \<and> e < length (concat (take k xss)) + 4"
proof -
  define k where "k = (GREATEST k. length (concat (take k xss)) \<le> e \<and> k < length xss)"
  have ex: "length (concat (take 0 xss)) \<le> e \<and> 0 < length xss"
    using assms(2) by (cases xss) auto
  have k: "length (concat (take k xss)) \<le> e" "k < length xss"
    using GreatestI_nat [of "\<lambda>k. length (concat (take k xss)) \<le> e \<and> k < length xss", OF ex, of "length xss"]
    by (auto simp: k_def)
  have next_k: "e < length (concat (take (Suc k) xss))"
  proof (rule ccontr)
    assume "\<not> ?thesis"
    moreover from this have "Suc k < length xss"
      using assms(2) k(2) by (cases "Suc k = length xss") auto
    ultimately have "Suc k \<le> k"
      unfolding k_def by (intro Greatest_le_nat [where b = "length xss"]) auto
    then show False by simp
  qed
  let ?pre = "concat (take k xss)" and ?c = "xss ! k"
  have split: "concat xss = ?pre @ ?c @ concat (drop (Suc k) xss)"
    using k(2) by (metis id_take_nth_drop concat.simps(2) concat_append)
  have "length (concat (take (Suc k) xss)) = length ?pre + length ?c"
    using k(2) by (simp add: take_Suc_conv_app_nth)
  with next_k have e: "e < length ?pre + length ?c" by simp
  have char: "utf8_char ?c" using assms(1) k(2) by simp
  note shape = utf8_char_shape [OF char]
  have "back_off (concat xss) e = length ?pre"
  proof (rule back_off_run)
    show "length ?pre \<le> e" by (rule k(1))
    show "length ?pre = 0 \<or> \<not> is_cont (concat xss ! length ?pre)"
      unfolding split using shape(1,3) by (auto simp: nth_append)
    show "is_cont (concat xss ! j)" if "length ?pre < j" "j \<le> e" for j
    proof -
      have "0 < j - length ?pre" "j - length ?pre < length ?c" using that e by simp_all
      then show ?thesis
        unfolding split using shape(4) [of "j - length ?pre"] by (simp add: nth_append)
    qed
  qed
  moreover have "e < length ?pre + 4" using e shape(2) by simp
  ultimately show ?thesis using k(1) by auto
qed

lemma truncateCloseReason_long:
  assumes "validate_text new_Utf8Validator bs" "e < length bs"
  shows "validate_text new_Utf8Validator (take (back_off bs e) bs)" "back_off bs e \<le> e" "e < back_off bs e + 4"
proof -
  from assms(1) obtain xss where xss: "bs = concat xss" "\<forall>xs\<in>set xss. utf8_char xs"
    by (auto simp: validate_text_chars)
  with assms(2) obtain k where k: "back_off bs e = length (concat (take k xss))"
    "length (concat (take k xss)) \<le> e" "e < length (concat (take k xss)) + 4"
    using back_off_chars by blast
  have split: "concat xss = concat (take k xss) @ concat (drop k xss)"
    by (subst concat_append [symmetric]) (simp only: append_take_drop_id)
  have "take (length (concat (take k xss))) (concat xss) = concat (take k xss)"
    by (subst split) simp
  then have "take (back_off bs e) bs = concat (take k xss)"
    by (simp only: k(1)) (simp only: xss(1))
  moreover have "\<forall>xs\<in>set (take k xss). utf8_char xs"
    using xss(2) by (auto dest: in_set_takeD)
  ultimately show "validate_text new_Utf8Validator (take (back_off bs e) bs)"
    unfolding validate_text_chars by blast
  show "back_off bs e \<le> e" "e < back_off bs e + 4" using k by simp_all
qed

lemma truncateCloseReason_spec:
  fixes r :: jstr
  defines "e \<equiv> buffer_from_utf8 r" and "t \<equiv> truncateCloseReason (Some r)"
  assumes "\<forall>u\<in>set r. u < 0x10000"
  shows "validate_text new_Utf8Validator t \<and> length t \<le> 123 \<and>
    (\<exists>cut. e = t @ cut \<and> (cut \<noteq> [] \<longrightarrow> 120 \<le> length t))"
proof -
  have valid: "validate_text new_Utf8Validator e"
    unfolding e_def by (rule buffer_from_utf8_valid [OF assms(3)])
  have t: "t = (if length e \<le> 123 then e else take (back_off e 123) e)"
    by (auto simp: t_def e_def truncateCloseReason_def MAX_CLOSE_REASON_BYTES_def
        buffer_from_utf8_def Let_def)
  show ?thesis
  proof (cases "length e \<le> 123")
    case True
    with t valid show ?thesis by simp
  next
    case False
    then have "123 < length e" by simp
    note long = truncateCloseReason_long [OF valid this]
    have "length t = back_off e 123" using t False long(2) by simp
    with t False long show ?thesis
      by (intro conjI exI [of _ "drop (back_off e 123) e"]) simp_all
  qed
qed

lemma writeUInt16BE_length [simp]: "length (writeUInt16BE n) = 2"
  by (simp add: writeUInt16BE_def)

lemma readUInt16BE_write [simp]: "readUInt16BE (writeUInt16BE n @ bs) 0 = n mod 0x10000"
proof -
  have "unat (byte_of (n div 0x100 mod 0x100)) = n div 0x100 mod 0x100"
    "unat (byte_of (n mod 0x100)) = n mod 0x100" by simp_all
  moreover have "n div 0x100 mod 0x100 * 0x100 + n mod 0x100 = n mod 0x10000"
    using mod_mult2_eq [of n "0x100" "0x100"] by simp
  ultimately show ?thesis by (simp add: readUInt16BE_def writeUInt16BE_def)
qed

lemma and_0xFFFF: "(n :: nat) AND 0xFFFF = n mod 0x10000"
proof -
  have "n AND mask 16 = take_bit 16 n" by (simp only: take_bit_eq_mask)
  also have "\<dots> = n mod 2 ^ 16" by (rule take_bit_eq_mod)
  finally show ?thesis by (simp add: mask_eq_exp_minus_1)
qed

section \<open>The walk against the wire format\<close>

text \<open>
  The RFC 6455 header with minimal length encoding, which is what the native parser enforces on
  every frame it accepts.  \<open>wf_first\<close> holds FIN, RSV and opcode.
\<close>

definition writeUInt32BE :: "nat \<Rightarrow> byte list" where
  "writeUInt32BE n = [byte_of (n div 0x1000000 mod 0x100), byte_of (n div 0x10000 mod 0x100),
     byte_of (n div 0x100 mod 0x100), byte_of (n mod 0x100)]"

definition wire_header :: "byte \<Rightarrow> byte list option \<Rightarrow> nat \<Rightarrow> byte list" where
  "wire_header first mk len =
     (let m = (case mk of None \<Rightarrow> 0 | Some _ \<Rightarrow> 0x80) in
      first #
      (if len \<le> 125 then [byte_of (m + len)]
       else if len \<le> 0xFFFF then byte_of (m + 126) # writeUInt16BE len
       else byte_of (m + 127) # writeUInt32BE (len div 2 ^ 32) @ writeUInt32BE (len mod 2 ^ 32)) @
      (case mk of None \<Rightarrow> [] | Some k \<Rightarrow> k))"

record wire_frame =
  wf_first :: byte
  wf_mask :: "byte list option"
  wf_payload :: "byte list"

definition wire :: "wire_frame \<Rightarrow> byte list" where
  "wire f = wire_header (wf_first f) (wf_mask f) (length (wf_payload f)) @ wf_payload f"

abbreviation mask_ok :: "byte list option \<Rightarrow> bool" where
  "mask_ok m \<equiv> (\<forall>k. m = Some k \<longrightarrow> length k = 4)"

lemma writeUInt32BE_length [simp]: "length (writeUInt32BE n) = 4"
  by (simp add: writeUInt32BE_def)

lemma nth_append_plus: "(pre @ xs) ! (length pre + i) = xs ! i"
  by simp

lemma readUInt16BE_append [simp]: "readUInt16BE (pre @ xs) (length pre + i) = readUInt16BE xs i"
  by (simp add: readUInt16BE_def nth_append)

lemma readUInt32BE_append [simp]: "readUInt32BE (pre @ xs) (length pre + i) = readUInt32BE xs i"
  by (simp add: readUInt32BE_def nth_append)

lemma bytes4: "n div 0x1000000 mod 0x100 * 0x1000000 + n div 0x10000 mod 0x100 * 0x10000 +
   n div 0x100 mod 0x100 * 0x100 + n mod 0x100 = n mod (0x100000000 :: nat)"
proof -
  have "n mod 0x100000000 = 0x1000000 * (n div 0x1000000 mod 0x100) + n mod 0x1000000"
    using mod_mult2_eq [of n "0x1000000" "0x100"] by simp
  moreover have "n mod 0x1000000 = 0x10000 * (n div 0x10000 mod 0x100) + n mod 0x10000"
    using mod_mult2_eq [of n "0x10000" "0x100"] by simp
  moreover have "n mod 0x10000 = 0x100 * (n div 0x100 mod 0x100) + n mod 0x100"
    using mod_mult2_eq [of n "0x100" "0x100"] by simp
  ultimately show ?thesis by simp
qed

lemma readUInt32BE_write: "readUInt32BE (writeUInt32BE n @ xs) 0 = n mod 0x100000000"
  using bytes4 [of n] by (simp add: readUInt32BE_def writeUInt32BE_def)

lemma readUInt32BE_writes:
  "n < 0x100000000 \<Longrightarrow> readUInt32BE (a # b # writeUInt32BE n @ xs) (Suc (Suc 0)) = n"
  "n < 0x100000000 \<Longrightarrow> readUInt32BE (a # b # writeUInt32BE k @ writeUInt32BE n @ xs) 6 = n"
  using readUInt32BE_append [of "[a, b]" "writeUInt32BE n @ xs" 0]
    readUInt32BE_append [of "a # b # writeUInt32BE k" "writeUInt32BE n @ xs" 0]
  by (simp_all add: readUInt32BE_write)

lemma readUInt16BE_writes: "n < 0x10000 \<Longrightarrow> readUInt16BE (a # b # writeUInt16BE n @ xs) 2 = n"
  using readUInt16BE_append [of "[a, b]" "writeUInt16BE n @ xs" 0] by (simp add: numeral_2_eq_2)

lemma scan_header_append: "scan_header (pre @ bs) (length pre) = scan_header bs 0"
  using nth_append_plus [of pre bs 1] readUInt16BE_append [of pre bs 2]
    readUInt32BE_append [of pre bs 2] readUInt32BE_append [of pre bs 6]
  by (simp add: scan_header_def Let_def numeral_2_eq_2)

lemma second_byte:
  assumes "n < 0x80" "m = 0 \<or> m = 0x80"
  shows "unat (byte_of (m + n) AND 0x7F) = n" "byte_of (m + n) AND 0x80 = 0 \<longleftrightarrow> m = 0"
  using assms by (auto simp: byte_range)

lemma scan_header_wire:
  assumes "len < 2 ^ 53" "mask_ok mk"
  shows "scan_header (wire_header first mk len @ rest) 0 =
    Some (len, length (wire_header first mk len))"
proof -
  define m :: nat where "m = (case mk of None \<Rightarrow> 0 | Some _ \<Rightarrow> 0x80)"
  define k where "k = (case mk of None \<Rightarrow> [] | Some k \<Rightarrow> k)"
  have m: "m = 0 \<or> m = 0x80" "(m \<noteq> 0) = (mk \<noteq> None)" by (auto simp: m_def split: option.splits)
  have k: "length k = (if m = 0 then 0 else 4)" using assms(2)
    by (auto simp: m_def k_def split: option.splits)
  note sb = second_byte [OF _ m(1)]
  consider "len \<le> 125" | "125 < len" "len \<le> 0xFFFF" | "0xFFFF < len" by linarith
  then show ?thesis
  proof cases
    case 1
    then have "wire_header first mk len = first # byte_of (m + len) # k"
      by (simp add: wire_header_def Let_def m_def k_def)
    with 1 k show ?thesis by (simp add: scan_header_def Let_def sb)
  next
    case 2
    then have "wire_header first mk len = first # byte_of (m + 126) # writeUInt16BE len @ k"
      by (simp add: wire_header_def Let_def m_def k_def)
    with 2 k show ?thesis 
      using readUInt16BE_writes [of len first "byte_of (m + 126)" "k @ rest"]
      by (auto simp: scan_header_def Let_def sb numeral_2_eq_2)
  next
    case 3
    then have "wire_header first mk len =
        first # byte_of (m + 127) # writeUInt32BE (len div 2 ^ 32) @ writeUInt32BE (len mod 2 ^ 32) @ k"
      by (simp add: wire_header_def Let_def m_def k_def)
    moreover have "len div 2 ^ 32 \<le> 0x1FFFFF" "len div 2 ^ 32 < 0x100000000"
      using assms(1) by simp_all
    moreover have "len div 2 ^ 32 * 2 ^ 32 + len mod 2 ^ 32 = len" by simp
    ultimately show ?thesis using 3 k
      by (auto simp: scan_header_def Let_def sb readUInt32BE_writes)
  qed
qed

lemma wire_header_length: "2 \<le> length (wire_header first mk len)"
  by (simp add: wire_header_def Let_def)

lemma scan_step:
  assumes "length (wf_payload f) \<le> maxPayload" "length (wf_payload f) < 2 ^ 53" "mask_ok (wf_mask f)"
  shows "scanOversizedFrame_from (pre @ wire f @ rest) maxPayload (length pre) =
    scanOversizedFrame_from (pre @ wire f @ rest) maxPayload (length (pre @ wire f))"
proof -
  have "scan_header (pre @ wire f @ rest) (length pre) =
      Some (length (wf_payload f), length (wire f) - length (wf_payload f))"
    using scan_header_wire [OF assms(2,3)] by (simp add: scan_header_append wire_def)
  moreover have "2 \<le> length (wire f)" using wire_header_length by (simp add: wire_def trans_le_add1)
  moreover have "length (wf_payload f) \<le> length (wire f)" by (simp add: wire_def)
  ultimately show ?thesis
    using assms(1)
    by (subst scanOversizedFrame_from.simps) (simp add: Let_def add.assoc)
qed

lemma scan_skips:
  assumes "\<forall>f\<in>set fs. length (wf_payload f) \<le> maxPayload \<and> length (wf_payload f) < 2 ^ 53 \<and>
      mask_ok (wf_mask f)"
  shows "scanOversizedFrame_from (pre @ concat (map wire fs) @ rest) maxPayload (length pre) =
    scanOversizedFrame_from (pre @ concat (map wire fs) @ rest) maxPayload
      (length (pre @ concat (map wire fs)))"
  using assms
proof (induction fs arbitrary: pre)
  case (Cons f fs)
  then show ?case
    using scan_step [of f maxPayload pre "concat (map wire fs) @ rest"] Cons.IH [of "pre @ wire f"]
    by simp
qed simp

lemma scan_finds:
  assumes "\<forall>f\<in>set fs. length (wf_payload f) \<le> maxPayload \<and> length (wf_payload f) < 2 ^ 53 \<and>
      mask_ok (wf_mask f)"
    and "maxPayload < len" "len < 2 ^ 53" "mask_ok mk" "unat first mod 16 = op"
    and "op = OP_TEXT \<or> op = OP_BIN"
  shows "scanOversizedFrame (concat (map wire fs) @ wire_header first mk len @ rest) maxPayload =
    Some \<lparr>fh_opcode = op, fh_payloadBytes = len\<rparr>"
proof -
  let ?pre = "concat (map wire fs)" and ?h = "wire_header first mk len"
  let ?bytes = "?pre @ ?h @ rest"
  have "scanOversizedFrame ?bytes maxPayload = scanOversizedFrame_from ?bytes maxPayload (length ?pre)"
    using scan_skips [OF assms(1), of "[]" "?h @ rest"] by (simp add: scanOversizedFrame_def)
  moreover have "scan_header ?bytes (length ?pre) = Some (len, length ?h)"
    by (simp add: scan_header_append scan_header_wire [OF assms(3,4)])
  moreover have "?h ! 0 = first" by (simp add: wire_header_def Let_def)
  ultimately show ?thesis
    using assms wire_header_length [of first mk len]
    by (subst (asm) scanOversizedFrame_from.simps) (auto simp: Let_def byte_range nth_append)
qed

text \<open>A verdict of the walk is never a guess.\<close>

lemma scan_sound:
  "scanOversizedFrame_from bytes maxPayload offset = Some info \<Longrightarrow>
     fh_payloadBytes info > maxPayload \<and> (fh_opcode info = OP_TEXT \<or> fh_opcode info = OP_BIN)"
proof (induction bytes maxPayload offset rule: scanOversizedFrame_from.induct)
  case (1 bytes maxPayload offset)
  note step = scanOversizedFrame_from.simps [of bytes maxPayload offset]
  show ?case
  proof (cases "offset + 2 \<le> length bytes \<and>
      (\<exists>p h. scan_header bytes offset = Some (p, h) \<and> \<not> maxPayload < p)")
    case True
    then obtain p h where ph: "offset + 2 \<le> length bytes" "scan_header bytes offset = Some (p, h)"
      "\<not> maxPayload < p" by blast
    with "1.prems" have "scanOversizedFrame_from bytes maxPayload (offset + (h + p)) = Some info"
      by (simp add: step Let_def)
    with ph show ?thesis by (intro "1.IH") simp_all
  next
    case False
    with "1.prems" show ?thesis
      by (auto simp: step Let_def split: if_splits option.splits prod.splits)
  qed
qed

end
