(* ===== verification/Ws_Extensions.thy ===== *)
theory Ws_Extensions
  imports Ws_Frames "HOL-Library.AList"
begin

text \<open>
  Extension and subprotocol negotiation (packages/websocket/src/extensions.ts).  Header values
  are Latin-1 strings.  zlib is a parameter: \<open>deflateRawSync\<close> with Z_SYNC_FLUSH and
  \<open>inflateRawSync\<close> with a bound on its output.
\<close>

section \<open>Header syntax\<close>

datatype param_value = PTrue | PString string

record parsed_offer =
  po_name :: string
  po_params :: "(string \<times> param_value) list"

text \<open>JavaScript's truthiness of \<open>params.key\<close>: an absent key or an empty string is falsy.\<close>

fun truthy_param :: "param_value option \<Rightarrow> bool" where
  "truthy_param None = False"
| "truthy_param (Some PTrue) = True"
| "truthy_param (Some (PString s)) = (s \<noteq> [])"

definition unquote :: "string \<Rightarrow> string" where
  "unquote value =
     (if (value \<noteq> [] \<and> hd value = CHR 0x22 \<and> last value = CHR 0x22) \<or>
         (value \<noteq> [] \<and> hd value = CHR 0x27 \<and> last value = CHR 0x27)
      then tl (butlast value) else value)"

definition parse_param :: "string \<Rightarrow> string \<times> param_value" where
  "parse_param part =
     (case index_of (CHR ''='') part of
        None \<Rightarrow> (toLowerCase part, PTrue)
      | Some eq \<Rightarrow>
          (toLowerCase (trim (take eq part)), PString (unquote (trim (drop (Suc eq) part)))))"

definition parse_offer :: "string \<Rightarrow> parsed_offer option" where
  "parse_offer rawOffer =
     (case filter (\<lambda>p. p \<noteq> []) (map trim (split_on (CHR '';'') rawOffer)) of
        [] \<Rightarrow> None
      | name # parts \<Rightarrow>
          Some \<lparr>po_name = toLowerCase name,
                po_params = fold (\<lambda>part ps. case parse_param part of (k, v) \<Rightarrow> AList.update k v ps)
                              parts []\<rparr>)"

definition parseHeader :: "string option \<Rightarrow> parsed_offer list" where
  "parseHeader header =
     (case header of
        None \<Rightarrow> []
      | Some h \<Rightarrow> if h = [] then [] else List.map_filter parse_offer (split_on (CHR '','') h))"

section \<open>permessage-deflate\<close>

record pmd_config =
  pc_clientNoContextTakeover :: "bool option"
  pc_serverNoContextTakeover :: "bool option"
  pc_threshold :: "nat option"

text \<open>The \<open>perMessageDeflate\<close> option as callers pass it.\<close>

datatype pmd_option = PmdOff | PmdOn | PmdObject pmd_config | PmdOther

record accepted_pmd =
  ap_requestNoContextTakeover :: bool
  ap_responseNoContextTakeover :: bool
  ap_threshold :: nat

definition pmd_defaults :: pmd_config where
  "pmd_defaults = \<lparr>pc_clientNoContextTakeover = Some True, pc_serverNoContextTakeover = Some True,
                   pc_threshold = None\<rparr>"

fun normalizePerMessageDeflateOptions :: "pmd_option \<Rightarrow> pmd_config option" where
  "normalizePerMessageDeflateOptions PmdOff = None"
| "normalizePerMessageDeflateOptions PmdOn = Some pmd_defaults"
| "normalizePerMessageDeflateOptions (PmdObject v) =
     Some \<lparr>pc_clientNoContextTakeover =
              (case pc_clientNoContextTakeover v of None \<Rightarrow> Some True | Some b \<Rightarrow> Some b),
           pc_serverNoContextTakeover =
              (case pc_serverNoContextTakeover v of None \<Rightarrow> Some True | Some b \<Rightarrow> Some b),
           pc_threshold = pc_threshold v\<rparr>"
| "normalizePerMessageDeflateOptions PmdOther = Some pmd_defaults"

definition pmd_threshold :: "pmd_config \<Rightarrow> nat" where
  "pmd_threshold config = (case pc_threshold config of None \<Rightarrow> 1024 | Some n \<Rightarrow> n)"

abbreviation (input) PMD :: string where
  "PMD \<equiv> ''permessage-deflate''"
abbreviation (input) SERVER_NCT :: string where
  "SERVER_NCT \<equiv> ''server_no_context_takeover''"
abbreviation (input) CLIENT_NCT :: string where
  "CLIENT_NCT \<equiv> ''client_no_context_takeover''"

definition find_pmd :: "parsed_offer list \<Rightarrow> parsed_offer option" where
  "find_pmd offers = List.find (\<lambda>item. po_name item = PMD) offers"

definition acceptPerMessageDeflate ::
    "string option \<Rightarrow> pmd_option \<Rightarrow> (string \<times> accepted_pmd) option" where
  "acceptPerMessageDeflate requestHeader options =
     (case normalizePerMessageDeflateOptions options of
        None \<Rightarrow> None
      | Some config \<Rightarrow>
          (case find_pmd (parseHeader requestHeader) of
             None \<Rightarrow> None
           | Some offer \<Rightarrow>
               let responseParams =
                     (if pc_serverNoContextTakeover config \<noteq> Some False \<or>
                         truthy_param (map_of (po_params offer) SERVER_NCT) then [SERVER_NCT] else []) @
                     (if pc_clientNoContextTakeover config \<noteq> Some False \<or>
                         truthy_param (map_of (po_params offer) CLIENT_NCT) then [CLIENT_NCT] else [])
               in Some (join_with ''; '' (PMD # responseParams),
                    \<lparr>ap_requestNoContextTakeover = (CLIENT_NCT \<in> set responseParams),
                     ap_responseNoContextTakeover = (SERVER_NCT \<in> set responseParams),
                     ap_threshold = pmd_threshold config\<rparr>)))"

definition offerPerMessageDeflate :: "pmd_option \<Rightarrow> string option" where
  "offerPerMessageDeflate options =
     (case normalizePerMessageDeflateOptions options of
        None \<Rightarrow> None
      | Some config \<Rightarrow>
          Some (join_with ''; ''
            (PMD # (if pc_clientNoContextTakeover config \<noteq> Some False then [CLIENT_NCT] else []) @
                   (if pc_serverNoContextTakeover config \<noteq> Some False then [SERVER_NCT] else []))))"

datatype extension_error = UnsupportedDeflateParameter string

definition parseAcceptedPerMessageDeflate ::
    "string option \<Rightarrow> pmd_option \<Rightarrow> extension_error + accepted_pmd option" where
  "parseAcceptedPerMessageDeflate responseHeader requestedOptions =
     (case normalizePerMessageDeflateOptions requestedOptions of
        None \<Rightarrow> Inr None
      | Some config \<Rightarrow>
          (case find_pmd (parseHeader responseHeader) of
             None \<Rightarrow> Inr None
           | Some accepted \<Rightarrow>
               (case List.find (\<lambda>key. key \<noteq> CLIENT_NCT \<and> key \<noteq> SERVER_NCT)
                       (map fst (po_params accepted)) of
                  Some key \<Rightarrow> Inl (UnsupportedDeflateParameter key)
                | None \<Rightarrow>
                    Inr (Some
                      \<lparr>ap_requestNoContextTakeover =
                         truthy_param (map_of (po_params accepted) SERVER_NCT),
                       ap_responseNoContextTakeover =
                         truthy_param (map_of (po_params accepted) CLIENT_NCT),
                       ap_threshold = pmd_threshold config\<rparr>))))"

section \<open>Compression\<close>

definition TRAILER :: "byte list" where
  "TRAILER = [0x00, 0x00, 0xFF, 0xFF]"

datatype zlib_error =
    ERR_BUFFER_TOO_LARGE jstr       \<comment> \<open>the bound on the output was hit; the message\<close>
  | ZlibError "jstr option" jstr    \<comment> \<open>any other error: its \<open>code\<close> string and its message\<close>

record zlib =
  deflateRawSync :: "byte list \<Rightarrow> byte list"
  inflateRawSync :: "byte list \<Rightarrow> nat option \<Rightarrow> zlib_error + byte list"

datatype inflate_error =
    TooLargeAfterInflate nat        \<comment> \<open>code 1009, with the cap\<close>
  | InflateFailed zlib_error        \<comment> \<open>the zlib error, rethrown unchanged\<close>

definition compressRaw :: "zlib \<Rightarrow> byte list \<Rightarrow> byte list" where
  "compressRaw z data =
     (let compressed = deflateRawSync z data in
      if length compressed \<ge> 4 \<and> drop (length compressed - 4) compressed = TRAILER
      then take (length compressed - 4) compressed else compressed)"

definition decompressRaw :: "zlib \<Rightarrow> byte list \<Rightarrow> nat option \<Rightarrow> inflate_error + byte list" where
  "decompressRaw z data maxPayload =
     (case inflateRawSync z (data @ TRAILER) (map_option (max 1) maxPayload) of
        Inl cause \<Rightarrow>
          (case (maxPayload, cause) of
             (Some m, ERR_BUFFER_TOO_LARGE msg) \<Rightarrow> Inl (TooLargeAfterInflate m)
           | _ \<Rightarrow> Inl (InflateFailed cause))
      | Inr inflated \<Rightarrow>
          (case maxPayload of
             Some m \<Rightarrow> if length inflated > m then Inl (TooLargeAfterInflate m) else Inr inflated
           | None \<Rightarrow> Inr inflated))"

section \<open>Subprotocols\<close>

datatype protocols_option =
    ProtocolsUndefined
  | ProtocolsString string
  | ProtocolsList "string list"                 \<comment> \<open>an array, or a Set in insertion order\<close>
  | ProtocolsFunction "string list \<Rightarrow> string option"

definition trimmed :: "string list \<Rightarrow> string list" where
  "trimmed ps = filter (\<lambda>p. p \<noteq> []) (map trim ps)"

fun normalizeProtocolList :: "protocols_option \<Rightarrow> string list" where
  "normalizeProtocolList ProtocolsUndefined = []"
| "normalizeProtocolList (ProtocolsString s) =
     (if s = [] then [] else trimmed (split_on (CHR '','') s))"
| "normalizeProtocolList (ProtocolsList ps) = trimmed ps"
| "normalizeProtocolList (ProtocolsFunction f) = []"

definition chooseSubprotocol :: "string option \<Rightarrow> protocols_option \<Rightarrow> string option" where
  "chooseSubprotocol requestHeader protocols =
     (let requested = (case requestHeader of None \<Rightarrow> [] | Some h \<Rightarrow> normalizeProtocolList (ProtocolsString h))
      in case protocols of
           ProtocolsFunction f \<Rightarrow>
             (case f requested of
                Some selected \<Rightarrow> if selected \<noteq> [] \<and> selected \<in> set requested then Some selected else None
              | None \<Rightarrow> None)
         | _ \<Rightarrow>
             let supported = normalizeProtocolList protocols in
             if requested = [] \<or> supported = [] then None
             else List.find (\<lambda>p. p \<in> set requested) supported)"

section \<open>Lemmas\<close>

text \<open>The four headers the two ends of a negotiation can write, as parsed.\<close>

definition pmd_header :: "bool \<Rightarrow> bool \<Rightarrow> bool \<Rightarrow> string" where
  "pmd_header client_first client server =
     join_with ''; '' (PMD # (let cs = (if client then [CLIENT_NCT] else []);
                                  ss = (if server then [SERVER_NCT] else [])
                              in if client_first then cs @ ss else ss @ cs))"

lemma find_pmd_header:
  "\<exists>offer. find_pmd (parseHeader (Some (pmd_header f c s))) = Some offer \<and>
     (\<forall>k\<in>set (map fst (po_params offer)). k = CLIENT_NCT \<or> k = SERVER_NCT) \<and>
     truthy_param (map_of (po_params offer) CLIENT_NCT) = c \<and>
     truthy_param (map_of (po_params offer) SERVER_NCT) = s"
proof -
  have "find_pmd (parseHeader (Some (pmd_header f c s))) =
     Some \<lparr>po_name = PMD,
       po_params = (let cs = (if c then [(CLIENT_NCT, PTrue)] else []);
                        ss = (if s then [(SERVER_NCT, PTrue)] else [])
                    in if f then cs @ ss else ss @ cs)\<rparr>"
    by (cases f; cases c; cases s) (simp_all only:, code_simp+)
  then show ?thesis
    by (cases f; cases c; cases s) simp_all
qed

lemma offer_header:
  "offerPerMessageDeflate opt =
     map_option (\<lambda>config. pmd_header True (pc_clientNoContextTakeover config \<noteq> Some False)
        (pc_serverNoContextTakeover config \<noteq> Some False))
       (normalizePerMessageDeflateOptions opt)"
  by (auto simp: offerPerMessageDeflate_def pmd_header_def Let_def split: option.splits)

lemma accept_header:
  assumes "acceptPerMessageDeflate h opt = Some (hdr, acc)"
  shows "hdr = pmd_header False (ap_requestNoContextTakeover acc) (ap_responseNoContextTakeover acc)"
proof -
  have [simp]: "SERVER_NCT \<noteq> CLIENT_NCT" by simp
  from assms show ?thesis
    by (auto simp: acceptPerMessageDeflate_def pmd_header_def Let_def split: option.splits if_splits)
qed

lemma accept_offer:
  assumes "normalizePerMessageDeflateOptions cli \<noteq> None" "normalizePerMessageDeflateOptions srv \<noteq> None"
  shows "\<exists>hdr acc. acceptPerMessageDeflate (offerPerMessageDeflate cli) srv = Some (hdr, acc)"
proof -
  obtain cc where cc: "normalizePerMessageDeflateOptions cli = Some cc" using assms(1) by auto
  then obtain f c s where "offerPerMessageDeflate cli = Some (pmd_header f c s)"
    by (simp add: offer_header)
  with find_pmd_header [of f c s] assms(2) show ?thesis
    by (auto simp: acceptPerMessageDeflate_def Let_def split: option.splits)
qed

lemma parse_accept:
  assumes "normalizePerMessageDeflateOptions cli = Some config"
    "acceptPerMessageDeflate h srv = Some (hdr, acc)"
  shows "parseAcceptedPerMessageDeflate (Some hdr) cli =
    Inr (Some \<lparr>ap_requestNoContextTakeover = ap_responseNoContextTakeover acc,
               ap_responseNoContextTakeover = ap_requestNoContextTakeover acc,
               ap_threshold = pmd_threshold config\<rparr>)"
proof -
  obtain offer where o: "find_pmd (parseHeader (Some hdr)) = Some offer"
    "\<forall>k\<in>set (map fst (po_params offer)). k = CLIENT_NCT \<or> k = SERVER_NCT"
    "truthy_param (map_of (po_params offer) CLIENT_NCT) = ap_requestNoContextTakeover acc"
    "truthy_param (map_of (po_params offer) SERVER_NCT) = ap_responseNoContextTakeover acc"
    using find_pmd_header [of False "ap_requestNoContextTakeover acc" "ap_responseNoContextTakeover acc"]
    unfolding accept_header [OF assms(2), symmetric] by blast
  from o(2) have "List.find (\<lambda>key. key \<noteq> CLIENT_NCT \<and> key \<noteq> SERVER_NCT) (map fst (po_params offer)) = None"
    unfolding find_None_iff by blast
  with o assms(1) show ?thesis
    by (simp add: parseAcceptedPerMessageDeflate_def)
qed

lemma decompressRaw_bound: "decompressRaw z data (Some m) = Inr out \<Longrightarrow> length out \<le> m"
  by (auto simp: decompressRaw_def split: sum.splits zlib_error.splits if_splits)

lemma chooseSubprotocol_list:
  assumes "\<And>f. p \<noteq> ProtocolsFunction f"
  shows "chooseSubprotocol h p = List.find (\<lambda>x. x \<in> set (normalizeProtocolList (case h of None \<Rightarrow> ProtocolsUndefined | Some s \<Rightarrow> ProtocolsString s))) (normalizeProtocolList p)"
  using assms by (cases p; cases h)
    (auto simp: chooseSubprotocol_def Let_def find_None_iff intro!: sym [OF iffD2 [OF find_None_iff]])

end
