(* ===== verification/Ws_Connection.thy ===== *)
theory Ws_Connection
  imports Ws_Extensions
begin

text \<open>
  The class \<open>WebSocket\<close> of packages/websocket/src/websocket.ts: one connection after its
  handshake.  The fields of the object are a record; what the object does to its socket and its
  listeners is appended to the field \<open>trace\<close>, in program order.  The native addon (frame
  parser and frame builder), the source of random bytes and zlib are the parameter \<open>E\<close>.
  Event listeners are taken not to call back into the object while a method runs.
\<close>

section \<open>State\<close>

datatype ready_state = CONNECTING | OPEN | CLOSING | CLOSED

record ParsedFrame =
  pf_fin :: bool
  pf_opcode :: nat
  pf_payload :: "byte list"
  pf_rsv :: "nat option"

record ParseResult =
  pr_frames :: "ParsedFrame list"
  pr_error :: bool
  pr_code :: "nat option"
  pr_message :: "jstr option"

record 'p native =
  parser_push :: "'p \<Rightarrow> byte list \<Rightarrow> ParseResult \<times> 'p"
  buildFrame :: "nat \<Rightarrow> bool \<Rightarrow> byte list \<Rightarrow> byte list option \<Rightarrow> nat \<Rightarrow> byte list option"
  randomFillSync :: "nat \<Rightarrow> nat \<Rightarrow> byte"     \<comment> \<open>byte i of the n-th draw\<close>
  zlib_of :: zlib

datatype ws_effect =
    EmitMessage "byte list" bool
  | EmitPing "byte list"
  | EmitPong "byte list"
  | EmitClose nat jstr
  | EmitError close_code jstr      \<comment> \<open>code and reason of a protocol error\<close>
  | EmitSocketError
  | SocketWrite "byte list"
  | SocketEnd "byte list option"
  | SocketDestroy
  | Callback ws_error              \<comment> \<open>\<open>cb(err)\<close>\<close>

record 'p ws =
  isServer :: bool
  maxPayload :: nat
  readyState :: ready_state
  perMessageDeflate :: "accepted_pmd option"
  parser :: 'p
  msgOpcode :: nat
  msgChunks :: "byte list list"
  msgSize :: nat
  msgValidator :: "utf8_validator option"
  msgCompressed :: bool
  diagChunks :: "byte list list"
  diagBytes :: int
  diagOverflow :: bool
  closeCodeSent :: "close_code option"
  closeCodeReceived :: "nat option"
  closeReasonReceived :: jstr
  closeFrameSent :: bool
  closeTimer :: "nat option"       \<comment> \<open>delay of the armed timer, in ms\<close>
  maskCount :: nat
  trace :: "ws_effect list"

definition new_WebSocket ::
    "'p \<Rightarrow> bool \<Rightarrow> nat option \<Rightarrow> ready_state option \<Rightarrow> accepted_pmd option \<Rightarrow> 'p ws" where
  "new_WebSocket p server maxP state pmd =
     \<lparr>isServer = server,
      maxPayload = (case maxP of None \<Rightarrow> DEFAULT_MAX_PAYLOAD_BYTES | Some m \<Rightarrow> m),
      readyState = (case state of None \<Rightarrow> OPEN | Some r \<Rightarrow> r),
      perMessageDeflate = pmd, parser = p,
      msgOpcode = 0, msgChunks = [], msgSize = 0, msgValidator = None, msgCompressed = False,
      diagChunks = [], diagBytes = 0, diagOverflow = False,
      closeCodeSent = None, closeCodeReceived = None, closeReasonReceived = [],
      closeFrameSent = False, closeTimer = None, maskCount = 0, trace = []\<rparr>"

definition emit :: "ws_effect \<Rightarrow> 'p ws \<Rightarrow> 'p ws" where
  "emit x s = s\<lparr>trace := trace s @ [x]\<rparr>"

text \<open>
  \<open>chunks.length === 1 ? chunks[0] : Buffer.concat(chunks, total)\<close>; \<open>Buffer.concat\<close> cuts or
  zero-fills to the given total.
\<close>

definition join_chunks :: "byte list list \<Rightarrow> nat \<Rightarrow> byte list" where
  "join_chunks chunks len =
     (if length chunks = 1 then hd chunks
      else take len (concat chunks @ replicate len 0))"

section \<open>Sending frames and closing the socket\<close>

text \<open>Four bytes of the n-th draw of the random source.\<close>

definition randomMaskKey :: "'p native \<Rightarrow> nat \<Rightarrow> byte list" where
  "randomMaskKey E n = map (randomFillSync E n) [0..<4]"

text \<open>\<open>this._isServer ? null : randomMaskKey()\<close> as an argument of \<open>native.buildFrame\<close>.\<close>

definition build :: "'p native \<Rightarrow> nat \<Rightarrow> byte list \<Rightarrow> nat \<Rightarrow> 'p ws \<Rightarrow> byte list option \<times> 'p ws" where
  "build E opcode payload rsv s =
     (if isServer s then (buildFrame E opcode True payload None rsv, s)
      else (buildFrame E opcode True payload (Some (randomMaskKey E (maskCount s))) rsv,
            s\<lparr>maskCount := Suc (maskCount s)\<rparr>))"

definition destroySocket :: "'p ws \<Rightarrow> 'p ws" where
  "destroySocket s = emit SocketDestroy s"

definition endSocketSoon :: "'p ws \<Rightarrow> 'p ws" where
  "endSocketSoon s = (emit (SocketEnd None) s)\<lparr>closeTimer := Some 30000\<rparr>"

definition sendControl :: "'p native \<Rightarrow> nat \<Rightarrow> byte list \<Rightarrow> 'p ws \<Rightarrow> 'p ws \<times> ws_error option" where
  "sendControl E opcode payload s =
     (case build E opcode payload 0 s of
        (None, s') \<Rightarrow> (s', Some BuildFrameThrew)
      | (Some frame, s') \<Rightarrow> (emit (SocketWrite frame) s', None))"

text \<open>\<open>encodeClosePayload\<close> throws only without a code, so its error branch is not reached.\<close>

definition failConnection :: "'p native \<Rightarrow> close_code \<Rightarrow> jstr \<Rightarrow> 'p ws \<Rightarrow> 'p ws" where
  "failConnection E code reason s =
     (if readyState s = CLOSED then s
      else
        case encodeClosePayload (Some code) (Some reason) of
          Inl _ \<Rightarrow> s
        | Inr payload \<Rightarrow>
            (case build E OP_CLOSE payload 0 s of
               (frame, s') \<Rightarrow>
                 (emit (SocketEnd frame)
                    (emit (EmitError code reason)
                       (s'\<lparr>closeCodeSent := Some code, readyState := CLOSING\<rparr>)))
                 \<lparr>closeTimer := Some 2000\<rparr>))"

section \<open>Diagnostic bytes\<close>

definition resetDiagnosticBytes :: "'p ws \<Rightarrow> 'p ws" where
  "resetDiagnosticBytes s = s\<lparr>diagChunks := [], diagBytes := 0, diagOverflow := False\<rparr>"

definition recordDiagnosticBytes :: "byte list \<Rightarrow> 'p ws \<Rightarrow> 'p ws" where
  "recordDiagnosticBytes chunk s =
     (let s1 = s\<lparr>diagBytes := diagBytes s + int (length chunk)\<rparr> in
      if diagOverflow s1 then s1
      else if diagBytes s1 > int DIAG_BUFFER_LIMIT
      then s1\<lparr>diagOverflow := True, diagChunks := []\<rparr>
      else s1\<lparr>diagChunks := diagChunks s1 @ [chunk]\<rparr>)"

text \<open>The loop that drops \<open>remaining\<close> bytes from the front; \<open>None\<close> when the chunks run out.\<close>

fun consume_chunks :: "nat \<Rightarrow> byte list list \<Rightarrow> byte list list option" where
  "consume_chunks remaining chunks =
     (if remaining = 0 then Some chunks
      else case chunks of
        [] \<Rightarrow> None
      | chunk # rest \<Rightarrow>
          if remaining < length chunk then Some (drop remaining chunk # rest)
          else consume_chunks (remaining - length chunk) rest)"

declare consume_chunks.simps [simp del]

definition frame_wire_length :: "bool \<Rightarrow> ParsedFrame \<Rightarrow> nat" where
  "frame_wire_length server frame =
     (let payloadBytes = length (pf_payload frame);
          lengthBytes = (if payloadBytes \<le> 125 then 0 else if payloadBytes \<le> 65535 then 2 else 8)
      in 2 + lengthBytes + (if server then 4 else 0) + payloadBytes)"

definition consumeDiagnosticFrame :: "ParsedFrame \<Rightarrow> 'p ws \<Rightarrow> 'p ws \<times> ws_error option" where
  "consumeDiagnosticFrame frame s =
     (let remaining = frame_wire_length (isServer s) frame;
          s1 = s\<lparr>diagBytes := diagBytes s - int remaining\<rparr>
      in if diagBytes s1 = 0 then (resetDiagnosticBytes s1, None)
         else if diagOverflow s1 then (s1, None)
         else case consume_chunks remaining (diagChunks s1) of
                None \<Rightarrow> (s1, Some DiagnosticUnderflow)
              | Some cs \<Rightarrow> (s1\<lparr>diagChunks := cs\<rparr>, None))"

definition scanDiagnosticBytes :: "'p ws \<Rightarrow> FrameHeaderInfo option" where
  "scanDiagnosticBytes s =
     (if diagOverflow s \<or> diagChunks s = [] then None
      else scanOversizedFrame (join_chunks (diagChunks s) (nat (diagBytes s))) (maxPayload s))"

definition describeParseError :: "ParseResult \<Rightarrow> 'p ws \<Rightarrow> jstr \<times> 'p ws" where
  "describeParseError res s =
     (let message = (case pr_message res of None \<Rightarrow> js ''Protocol error''
                     | Some m \<Rightarrow> if m = [] then js ''Protocol error'' else m)
      in if pr_code res \<noteq> Some 1009 then (message, s)
         else
           let info = scanDiagnosticBytes s;
               limit = decimal (maxPayload s) @ js '' byte limit (maxPayloadBytes)''
           in (case info of
                 None \<Rightarrow> message @ js '': an inbound frame exceeds the '' @ limit
               | Some i \<Rightarrow> message @ js '': '' @ decimal (fh_payloadBytes i) @ js '' B '' @
                   opcodeLabel (fh_opcode i) @ js '' frame exceeds the '' @ limit,
               resetDiagnosticBytes s))"

section \<open>Receiving frames\<close>

text \<open>\<open>acceptClose\<close> is the tail of \<open>_handleCloseFrame\<close>, after the payload has been read.\<close>

definition acceptClose :: "'p native \<Rightarrow> nat \<Rightarrow> jstr \<Rightarrow> 'p ws \<Rightarrow> 'p ws \<times> ws_error option" where
  "acceptClose E code reason s =
     (let s1 = s\<lparr>closeCodeReceived := Some code, closeReasonReceived := reason\<rparr> in
      if readyState s1 = OPEN then
        (case encodeClosePayload (if code = 1005 then None else Some (CodeNum code)) (Some []) of
           Inl e \<Rightarrow> (s1\<lparr>readyState := CLOSING\<rparr>, Some e)
         | Inr echo \<Rightarrow>
             (case sendControl E OP_CLOSE echo (s1\<lparr>readyState := CLOSING\<rparr>) of
                (s2, Some e) \<Rightarrow> (s2, Some e)
              | (s2, None) \<Rightarrow> (endSocketSoon (s2\<lparr>closeFrameSent := True\<rparr>), None)))
      else if readyState s1 = CLOSING then (endSocketSoon s1, None)
      else (s1, None))"

definition handleCloseFrame :: "'p native \<Rightarrow> byte list \<Rightarrow> 'p ws \<Rightarrow> 'p ws \<times> ws_error option" where
  "handleCloseFrame E payload s =
     (if length payload = 1 then
        (failConnection E (CodeNum 1002) (js ''Close payload length 1'') s, None)
      else if length payload \<ge> 2 then
        (let code = readUInt16BE payload 0 in
         if \<not> isValidCloseCode code then
           (failConnection E (CodeNum 1002) (js ''Invalid close code'') s, None)
         else if length payload > 2 then
           (case TextDecoder_decode (drop 2 payload) of
              None \<Rightarrow> (failConnection E (CodeNum 1007) (js ''Invalid UTF-8 in close reason'') s, None)
            | Some reason \<Rightarrow> acceptClose E code reason s)
         else acceptClose E code [] s)
      else acceptClose E 1005 [] s)"

text \<open>
  A data frame.  \<open>startMessage\<close> is the opcode branch (\<open>None\<close> is its early return after
  \<open>_failConnection\<close>), \<open>finishMessage\<close> the \<open>if (fin)\<close> block.
\<close>

definition startMessage :: "'p native \<Rightarrow> nat \<Rightarrow> nat \<Rightarrow> 'p ws \<Rightarrow> bool \<times> 'p ws" where
  "startMessage E opcode rsv s =
     (if opcode = OP_TEXT \<or> opcode = OP_BIN then
        (if msgOpcode s \<noteq> 0 then
           (False, failConnection E (CodeNum 1002)
             (js ''New data frame started before previous fragmented message finished'') s)
         else if rsv AND RSV1 \<noteq> 0 \<and> perMessageDeflate s = None then
           (False, failConnection E (CodeNum 1002)
             (js ''Compressed frame without negotiated permessage-deflate'') s)
         else
           (True, s\<lparr>msgOpcode := opcode, msgChunks := [], msgSize := 0,
                    msgCompressed := (rsv AND RSV1 \<noteq> 0),
                    msgValidator := (if opcode = OP_TEXT then Some new_Utf8Validator else None)\<rparr>))
      else if opcode = OP_CONT then
        (if msgOpcode s = 0 then
           (False, failConnection E (CodeNum 1002) (js ''Continuation frame without active message'') s)
         else if rsv \<noteq> 0 then
           (False, failConnection E (CodeNum 1002) (js ''RSV bits set on continuation frame'') s)
         else (True, s))
      else (True, s))"

text \<open>The code and message of what \<open>decompressRaw\<close> throws, as \<open>e.code || 1007\<close> sees it.\<close>

definition inflate_code :: "inflate_error \<Rightarrow> close_code" where
  "inflate_code e =
     (case e of
        TooLargeAfterInflate m \<Rightarrow> CodeNum 1009
      | InflateFailed (ERR_BUFFER_TOO_LARGE msg) \<Rightarrow> CodeName (js ''ERR_BUFFER_TOO_LARGE'')
      | InflateFailed (ZlibError (Some code) msg) \<Rightarrow> if code = [] then CodeNum 1007 else CodeName code
      | InflateFailed (ZlibError None msg) \<Rightarrow> CodeNum 1007)"

definition inflate_message :: "inflate_error \<Rightarrow> jstr" where
  "inflate_message e =
     (case e of
        TooLargeAfterInflate m \<Rightarrow>
          js ''Message too large after inflate (maxPayload='' @ decimal m @ js '')''
      | InflateFailed z \<Rightarrow>
          (let msg = (case z of ERR_BUFFER_TOO_LARGE m \<Rightarrow> m | ZlibError c m \<Rightarrow> m) in
           if msg = [] then js ''Invalid compressed payload'' else msg))"

definition finishMessage :: "'p native \<Rightarrow> 'p ws \<Rightarrow> 'p ws" where
  "finishMessage E s =
     (let raw = join_chunks (msgChunks s) (msgSize s) in
      case (if msgCompressed s then decompressRaw (zlib_of E) raw (Some (maxPayload s)) else Inr raw) of
        Inl e \<Rightarrow> failConnection E (inflate_code e) (inflate_message e) s
      | Inr data \<Rightarrow>
          (case (case msgValidator s of
                   None \<Rightarrow> (True, None)
                 | Some v \<Rightarrow>
                     (case Utf8Validator_push v data of
                        (ok, v') \<Rightarrow> (ok \<and> Utf8Validator_done v', Some v'))) of
             (False, v) \<Rightarrow>
               failConnection E (CodeNum 1007) (js ''Invalid UTF-8'') (s\<lparr>msgValidator := v\<rparr>)
           | (True, _) \<Rightarrow>
               emit (EmitMessage data (msgOpcode s = OP_BIN))
                 (s\<lparr>msgOpcode := 0, msgChunks := [], msgSize := 0, msgValidator := None,
                    msgCompressed := False\<rparr>)))"

definition tooLarge :: "'p ws \<Rightarrow> jstr" where
  "tooLarge s = js ''Message too large: '' @ decimal (msgSize s) @ js '' B '' @
     opcodeLabel (msgOpcode s) @ js '' message exceeds the '' @ decimal (maxPayload s) @
     js '' byte limit (maxPayloadBytes)''"

definition handleDataFrame :: "'p native \<Rightarrow> ParsedFrame \<Rightarrow> 'p ws \<Rightarrow> 'p ws" where
  "handleDataFrame E f s =
     (case startMessage E (pf_opcode f) (case pf_rsv f of None \<Rightarrow> 0 | Some r \<Rightarrow> r) s of
        (False, s') \<Rightarrow> s'
      | (True, s') \<Rightarrow>
          let payload = pf_payload f;
              s1 = s'\<lparr>msgSize := msgSize s' + length payload\<rparr>
          in
            if msgSize s1 > maxPayload s1 then failConnection E (CodeNum 1009) (tooLarge s1) s1
            else
              let s2 = (if length payload > 0 then s1\<lparr>msgChunks := msgChunks s1 @ [payload]\<rparr> else s1)
              in if pf_fin f then finishMessage E s2 else s2)"

definition handleFrame :: "'p native \<Rightarrow> ParsedFrame \<Rightarrow> 'p ws \<Rightarrow> 'p ws \<times> ws_error option" where
  "handleFrame E f s =
     (if pf_opcode f = OP_PING then
        (let s1 = emit (EmitPing (pf_payload f)) s in
         if readyState s1 = OPEN then sendControl E OP_PONG (pf_payload f) s1 else (s1, None))
      else if pf_opcode f = OP_PONG then (emit (EmitPong (pf_payload f)) s, None)
      else if pf_opcode f = OP_CLOSE then handleCloseFrame E (pf_payload f) s
      else (handleDataFrame E f s, None))"

section \<open>Socket events\<close>

fun onFrames :: "'p native \<Rightarrow> ParsedFrame list \<Rightarrow> 'p ws \<Rightarrow> 'p ws \<times> ws_error option" where
  "onFrames E [] s = (s, None)"
| "onFrames E (f # fs) s =
     (case consumeDiagnosticFrame f s of
        (s1, Some e) \<Rightarrow> (s1, Some e)
      | (s1, None) \<Rightarrow>
          (case handleFrame E f s1 of
             (s2, Some e) \<Rightarrow> (s2, Some e)
           | (s2, None) \<Rightarrow> if readyState s2 = CLOSED then (s2, None) else onFrames E fs s2))"

definition onData :: "'p native \<Rightarrow> byte list \<Rightarrow> 'p ws \<Rightarrow> 'p ws \<times> ws_error option" where
  "onData E chunk s =
     (if readyState s = CLOSED then (s, None)
      else
        case parser_push E (parser s) chunk of
          (res, p') \<Rightarrow>
            let s1 = (recordDiagnosticBytes chunk s)\<lparr>parser := p'\<rparr> in
            if pr_error res then
              (case describeParseError res s1 of
                 (text, s2) \<Rightarrow>
                   (failConnection E
                      (CodeNum (case pr_code res of None \<Rightarrow> 1002 | Some c \<Rightarrow> if c = 0 then 1002 else c))
                      text s2, None))
            else onFrames E (pr_frames res) s1)"

definition onEnd :: "'p ws \<Rightarrow> 'p ws" where
  "onEnd s =
     (if readyState s \<noteq> CLOSED then
        destroySocket
          (if closeCodeReceived s = None
           then s\<lparr>closeCodeReceived := Some 1006, closeReasonReceived := []\<rparr> else s)
      else s)"

definition onSocketClose :: "'p ws \<Rightarrow> 'p ws" where
  "onSocketClose s =
     (if readyState s = CLOSED then s
      else
        let s1 = (if closeCodeReceived s = None then s\<lparr>closeCodeReceived := Some 1006\<rparr> else s);
            s2 = s1\<lparr>readyState := CLOSED, closeTimer := None\<rparr>
        in emit (EmitClose (the (closeCodeReceived s2)) (closeReasonReceived s2)) s2)"

definition onError :: "'p ws \<Rightarrow> 'p ws" where
  "onError s = emit EmitSocketError s"

text \<open>The callback of the close timer.\<close>

definition onCloseTimer :: "'p ws \<Rightarrow> 'p ws" where
  "onCloseTimer s = destroySocket s"

section \<open>Public methods\<close>

datatype send_data = SendString jstr | SendBytes "byte list" | SendUnsupported

record SendOptions =
  so_binary :: "bool option"
  so_compress :: "bool option"

text \<open>\<open>if (cb) cb(err) else throw err\<close>\<close>

definition reject :: "bool \<Rightarrow> ws_error \<Rightarrow> 'p ws \<Rightarrow> 'p ws \<times> ws_error option" where
  "reject has_cb e s = (if has_cb then (emit (Callback e) s, None) else (s, Some e))"

definition write_frame :: "'p native \<Rightarrow> nat \<Rightarrow> byte list \<Rightarrow> nat \<Rightarrow> 'p ws \<Rightarrow> 'p ws \<times> ws_error option" where
  "write_frame E opcode payload rsv s =
     (case build E opcode payload rsv s of
        (None, s') \<Rightarrow> (s', Some BuildFrameThrew)
      | (Some frame, s') \<Rightarrow> (emit (SocketWrite frame) s', None))"

text \<open>The bytes and the opcode of a message; \<open>None\<close> for an unsupported type.\<close>

fun send_payload :: "send_data \<Rightarrow> SendOptions \<Rightarrow> (byte list \<times> nat) option" where
  "send_payload (SendString t) opts =
     Some (buffer_from_utf8 t, if so_binary opts = Some True then OP_BIN else OP_TEXT)"
| "send_payload (SendBytes b) opts = Some (b, if so_binary opts = Some False then OP_TEXT else OP_BIN)"
| "send_payload SendUnsupported opts = None"

definition send :: "'p native \<Rightarrow> send_data \<Rightarrow> SendOptions \<Rightarrow> bool \<Rightarrow> 'p ws \<Rightarrow> 'p ws \<times> ws_error option" where
  "send E data opts has_cb s =
     (if readyState s \<noteq> OPEN then reject has_cb NotOpen s
      else
        case send_payload data opts of
          None \<Rightarrow> reject has_cb UnsupportedData s
        | Some (payload, opcode) \<Rightarrow>
            (case perMessageDeflate s of
               Some pmd \<Rightarrow>
                 if so_compress opts \<noteq> Some False \<and> length payload \<ge> ap_threshold pmd
                 then write_frame E opcode (compressRaw (zlib_of E) payload) RSV1 s
                 else write_frame E opcode payload 0 s
             | None \<Rightarrow> write_frame E opcode payload 0 s))"

definition send_control :: "'p native \<Rightarrow> nat \<Rightarrow> byte list \<Rightarrow> bool \<Rightarrow> 'p ws \<Rightarrow> 'p ws \<times> ws_error option" where
  "send_control E opcode payload has_cb s =
     (if length payload > 125 then (s, Some ControlPayloadTooLong)
      else if readyState s \<noteq> OPEN then reject has_cb NotOpen s
      else write_frame E opcode payload 0 s)"

datatype control_data = ControlNone | ControlBytes "byte list" | ControlString jstr

fun control_payload :: "control_data \<Rightarrow> byte list" where
  "control_payload ControlNone = []"
| "control_payload (ControlBytes b) = b"
| "control_payload (ControlString t) = buffer_from_utf8 t"

definition ping :: "'p native \<Rightarrow> control_data \<Rightarrow> bool \<Rightarrow> 'p ws \<Rightarrow> 'p ws \<times> ws_error option" where
  "ping E data has_cb s = send_control E OP_PING (control_payload data) has_cb s"

definition pong :: "'p native \<Rightarrow> control_data \<Rightarrow> bool \<Rightarrow> 'p ws \<Rightarrow> 'p ws \<times> ws_error option" where
  "pong E data has_cb s = send_control E OP_PONG (control_payload data) has_cb s"

definition close :: "'p native \<Rightarrow> nat option \<Rightarrow> jstr option \<Rightarrow> 'p ws \<Rightarrow> 'p ws \<times> ws_error option" where
  "close E code reason s =
     (if readyState s = CLOSED \<or> readyState s = CLOSING then (s, None)
      else
        case (case code of Some c \<Rightarrow> if \<not> isValidCloseCode c then Some (InvalidCloseCode c) else None
              | None \<Rightarrow> None) of
          Some e \<Rightarrow> (s, Some e)
        | None \<Rightarrow>
            if length (case reason of None \<Rightarrow> [] | Some r \<Rightarrow> buffer_from_utf8 r) > 123
            then (s, Some CloseReasonTooLong)
            else
              (case encodeClosePayload (map_option CodeNum code) reason of
                 Inl e \<Rightarrow> (s, Some e)
               | Inr payload \<Rightarrow>
                   (case build E OP_CLOSE payload 0 s of
                      (None, s') \<Rightarrow> (s', Some BuildFrameThrew)
                    | (Some frame, s') \<Rightarrow>
                        (endSocketSoon
                           ((emit (SocketWrite frame)
                              (s'\<lparr>readyState := CLOSING, closeCodeSent := map_option CodeNum code\<rparr>))
                            \<lparr>closeFrameSent := True\<rparr>), None))))"

definition terminate :: "'p ws \<Rightarrow> 'p ws" where
  "terminate s = destroySocket (s\<lparr>readyState := CLOSING\<rparr>)"

end
