(* ===== verification/Ws_Safety.thy ===== *)
theory Ws_Safety
  imports Ws_Connection
begin

text \<open>
  The connection as an event machine: the socket's events and the calls of the public methods in
  any order.  The theory shows what holds of every run: no message above \<open>maxPayload\<close> is
  delivered, text messages are UTF-8, once the close handshake has begun nothing is sent but the
  close frame of a protocol failure, and the close event is emitted once.
\<close>

section \<open>Events\<close>

datatype ws_event =
    Data "byte list" | End | SocketClose | SocketError | CloseTimer
  | Send send_data SendOptions bool
  | Ping control_data bool
  | Pong control_data bool
  | Close "nat option" "jstr option"
  | Terminate

fun ws_step :: "'p native \<Rightarrow> ws_event \<Rightarrow> 'p ws \<Rightarrow> 'p ws" where
  "ws_step E (Data chunk) s = fst (onData E chunk s)"
| "ws_step E End s = onEnd s"
| "ws_step E SocketClose s = onSocketClose s"
| "ws_step E SocketError s = onError s"
| "ws_step E CloseTimer s = onCloseTimer s"
| "ws_step E (Send data opts cb) s = fst (send E data opts cb s)"
| "ws_step E (Ping data cb) s = fst (ping E data cb s)"
| "ws_step E (Pong data cb) s = fst (pong E data cb s)"
| "ws_step E (Close code reason) s = fst (close E code reason s)"
| "ws_step E Terminate s = terminate s"

abbreviation ws_run :: "'p native \<Rightarrow> ws_event list \<Rightarrow> 'p ws \<Rightarrow> 'p ws" where
  "ws_run E \<equiv> fold (ws_step E)"

section \<open>What the small operations change\<close>

lemma emit_sel [simp]:
  "isServer (emit x s) = isServer s" "maxPayload (emit x s) = maxPayload s"
  "readyState (emit x s) = readyState s" "perMessageDeflate (emit x s) = perMessageDeflate s"
  "parser (emit x s) = parser s" "msgOpcode (emit x s) = msgOpcode s"
  "msgChunks (emit x s) = msgChunks s" "msgSize (emit x s) = msgSize s"
  "msgValidator (emit x s) = msgValidator s" "msgCompressed (emit x s) = msgCompressed s"
  "diagChunks (emit x s) = diagChunks s" "diagBytes (emit x s) = diagBytes s"
  "diagOverflow (emit x s) = diagOverflow s" "closeCodeReceived (emit x s) = closeCodeReceived s"
  "closeReasonReceived (emit x s) = closeReasonReceived s" "trace (emit x s) = trace s @ [x]"
  by (simp_all add: emit_def)

text \<open>The part of the state a control operation leaves alone.\<close>

definition same_assembly :: "'p ws \<Rightarrow> 'p ws \<Rightarrow> bool" where
  "same_assembly s t \<longleftrightarrow> isServer t = isServer s \<and> maxPayload t = maxPayload s \<and>
     perMessageDeflate t = perMessageDeflate s \<and>
     msgOpcode t = msgOpcode s \<and> msgChunks t = msgChunks s \<and>
     msgSize t = msgSize s \<and> msgValidator t = msgValidator s \<and> msgCompressed t = msgCompressed s"

definition same_diag :: "'p ws \<Rightarrow> 'p ws \<Rightarrow> bool" where
  "same_diag s t \<longleftrightarrow> diagChunks t = diagChunks s \<and> diagBytes t = diagBytes s \<and>
     diagOverflow t = diagOverflow s"

lemma build_change:
  assumes "build E opcode payload rsv s = (frame, t)"
  shows "same_assembly s t" "same_diag s t" "readyState t = readyState s" "trace t = trace s"
    "closeCodeReceived t = closeCodeReceived s" "closeReasonReceived t = closeReasonReceived s"
  using assms by (auto simp: build_def same_assembly_def same_diag_def split: if_splits)

lemma encodeClosePayload_total:
  obtains payload where "encodeClosePayload (Some code) reason = Inr payload"
  by (cases reason) (auto simp: encodeClosePayload_def)

lemma failConnection_change:
  "\<exists>frame. same_assembly s (failConnection E code reason s) \<and>
     same_diag s (failConnection E code reason s) \<and>
     readyState (failConnection E code reason s) =
       (if readyState s = CLOSED then CLOSED else CLOSING) \<and>
     closeCodeReceived (failConnection E code reason s) = closeCodeReceived s \<and>
     closeReasonReceived (failConnection E code reason s) = closeReasonReceived s \<and>
     trace (failConnection E code reason s) =
       trace s @ (if readyState s = CLOSED then [] else [EmitError code reason, SocketEnd frame])"
proof (cases "readyState s = CLOSED")
  case True
  then show ?thesis by (simp add: failConnection_def same_assembly_def same_diag_def)
next
  case False
  obtain payload where payload: "encodeClosePayload (Some code) (Some reason) = Inr payload"
    by (rule encodeClosePayload_total)
  obtain frame t where b: "build E OP_CLOSE payload 0 s = (frame, t)"
    by (cases "build E OP_CLOSE payload 0 s") auto
  note build_change [OF b]
  with False payload b show ?thesis
    by (auto simp: failConnection_def same_assembly_def same_diag_def intro!: exI [of _ frame])
qed

lemma sendControl_change:
  assumes "sendControl E opcode payload s = (t, e)"
  shows "\<exists>frame. same_assembly s t \<and> same_diag s t \<and> readyState t = readyState s \<and>
    closeCodeReceived t = closeCodeReceived s \<and> closeReasonReceived t = closeReasonReceived s \<and>
    trace t = trace s @ (if e = None then [SocketWrite frame] else [])"
proof -
  obtain frame u where b: "build E opcode payload 0 s = (frame, u)"
    by (cases "build E opcode payload 0 s") auto
  note build_change [OF b]
  with b assms show ?thesis
    by (auto simp: sendControl_def same_assembly_def same_diag_def split: option.splits)
qed

section \<open>The contract of the operations\<close>

text \<open>The ready states are numbered in this order in the source.\<close>

instantiation ready_state :: linorder
begin

fun state_number :: "ready_state \<Rightarrow> nat" where
  "state_number CONNECTING = 0"
| "state_number OPEN = 1"
| "state_number CLOSING = 2"
| "state_number CLOSED = 3"

definition less_eq_ready_state :: "ready_state \<Rightarrow> ready_state \<Rightarrow> bool" where
  "less_eq_ready_state a b \<longleftrightarrow> state_number a \<le> state_number b"

definition less_ready_state :: "ready_state \<Rightarrow> ready_state \<Rightarrow> bool" where
  "less_ready_state a b \<longleftrightarrow> state_number a < state_number b"

instance
proof
  fix a b :: ready_state
  show "a \<le> b \<Longrightarrow> b \<le> a \<Longrightarrow> a = b"
    by (cases a; cases b) (simp_all add: less_eq_ready_state_def)
qed (auto simp: less_eq_ready_state_def less_ready_state_def)

end

lemma ready_state_order [simp]:
  "r \<le> CLOSED" "CLOSED \<le> r \<longleftrightarrow> r = CLOSED" "CLOSING \<le> r \<longleftrightarrow> r = CLOSING \<or> r = CLOSED"
  "r \<le> CLOSING \<longleftrightarrow> r \<noteq> CLOSED"
  by (cases r; simp add: less_eq_ready_state_def)+

definition asm_inv :: "'p ws \<Rightarrow> bool" where
  "asm_inv s \<longleftrightarrow> (msgSize s \<le> maxPayload s \<longrightarrow> msgSize s = length (concat (msgChunks s)))"

fun small_message :: "nat \<Rightarrow> ws_effect \<Rightarrow> bool" where
  "small_message m (EmitMessage data b) = (length data \<le> m)"
| "small_message m _ = True"

fun is_message :: "ws_effect \<Rightarrow> bool" where
  "is_message (EmitMessage d b) = True"
| "is_message _ = False"

fun is_close_event :: "ws_effect \<Rightarrow> bool" where
  "is_close_event (EmitClose code reason) = True"
| "is_close_event _ = False"

fun is_write :: "ws_effect \<Rightarrow> bool" where
  "is_write (SocketWrite frame) = True"
| "is_write _ = False"

text \<open>
  What every operation promises that is neither the socket's close event nor \<open>terminate\<close>.
  The relation is reflexive and transitive, so that it follows the composition of the handlers.
\<close>

definition promises :: "'p ws \<Rightarrow> ws_effect \<Rightarrow> bool" where
  "promises s x \<longleftrightarrow> \<not> is_close_event x \<and> (asm_inv s \<longrightarrow> small_message (maxPayload s) x) \<and>
     (CLOSING \<le> readyState s \<longrightarrow> \<not> is_write x)"

definition ok_step :: "'p ws \<Rightarrow> 'p ws \<Rightarrow> bool" where
  "ok_step s t \<longleftrightarrow> maxPayload t = maxPayload s \<and> isServer t = isServer s \<and>
     perMessageDeflate t = perMessageDeflate s \<and>
     readyState s \<le> readyState t \<and> (readyState t = CLOSED \<longleftrightarrow> readyState s = CLOSED) \<and>
     (asm_inv s \<longrightarrow> asm_inv t) \<and>
     (\<exists>new. trace t = trace s @ new \<and> (\<forall>x\<in>set new. promises s x))"

named_theorems ok_steps

lemma ok_step_refl [ok_steps]: "ok_step s s"
  by (simp add: ok_step_def)

lemma ok_step_trans [trans]: "ok_step s t \<Longrightarrow> ok_step t u \<Longrightarrow> ok_step s u"
proof -
  assume st: "ok_step s t" and tu: "ok_step t u"
  have p: "promises t x \<Longrightarrow> promises s x" for x
    using st by (auto simp: ok_step_def promises_def dest: order_trans)
  from st obtain new where "trace t = trace s @ new" "\<forall>x\<in>set new. promises s x"
    by (auto simp: ok_step_def)
  moreover from tu obtain more where "trace u = trace t @ more" "\<forall>x\<in>set more. promises t x"
    by (auto simp: ok_step_def)
  ultimately have "\<exists>new. trace u = trace s @ new \<and> (\<forall>x\<in>set new. promises s x)"
    using p by auto
  with st tu show "ok_step s u" by (auto simp: ok_step_def)
qed

text \<open>The operations that touch neither the message under assembly nor deliver one.\<close>

definition quiet :: "'p ws \<Rightarrow> 'p ws \<Rightarrow> bool" where
  "quiet s t \<longleftrightarrow> same_assembly s t \<and> readyState s \<le> readyState t \<and>
     (readyState t = CLOSED \<longleftrightarrow> readyState s = CLOSED) \<and>
     (\<exists>new. trace t = trace s @ new \<and> (\<forall>x\<in>set new. promises s x \<and> \<not> is_message x))"

named_theorems quiet_ops

lemma quietI:
  assumes "same_assembly s t" "readyState s \<le> readyState t"
    "readyState t = CLOSED \<longleftrightarrow> readyState s = CLOSED"
    "trace t = trace s @ new" "\<forall>x\<in>set new. promises s x \<and> \<not> is_message x"
  shows "quiet s t"
  using assms by (auto simp: quiet_def)

lemma quiet_ok: "quiet s t \<Longrightarrow> ok_step s t"
  by (auto simp: quiet_def ok_step_def same_assembly_def asm_inv_def)

lemma same_assembly_simps [simp]:
  "same_assembly s s" "same_assembly s (t\<lparr>closeFrameSent := b\<rparr>) = same_assembly s t"
  "same_assembly s (t\<lparr>readyState := r\<rparr>) = same_assembly s t"
  "same_assembly s (t\<lparr>closeCodeReceived := cc\<rparr>) = same_assembly s t"
  "same_assembly s (t\<lparr>closeReasonReceived := cr\<rparr>) = same_assembly s t"
  "same_assembly s (t\<lparr>closeTimer := ct\<rparr>) = same_assembly s t"
  "same_assembly s (emit x t) = same_assembly s t"
  by (simp_all add: same_assembly_def)

lemma quiet_refl [quiet_ops]: "quiet s s"
  by (simp add: quiet_def)

lemma quiet_trans [trans]:
  assumes "quiet s t" "quiet t u"
  shows "quiet s u"
proof -
  have p: "promises t x \<Longrightarrow> promises s x" for x
    using assms(1) by (auto simp: quiet_def promises_def same_assembly_def asm_inv_def dest: order_trans)
  from assms obtain new more where "trace t = trace s @ new" "trace u = trace t @ more"
    "\<forall>x\<in>set new. promises s x \<and> \<not> is_message x" "\<forall>x\<in>set more. promises t x \<and> \<not> is_message x"
    by (auto simp: quiet_def)
  with p assms show ?thesis by (intro quietI [of _ _ "new @ more"]) (auto simp: quiet_def same_assembly_def)
qed

lemma quiet_emit [quiet_ops]: "promises s x \<Longrightarrow> \<not> is_message x \<Longrightarrow> quiet s (emit x s)"
  by (rule quietI [of _ _ "[x]"]) (auto simp: same_assembly_def)

lemma promises_simps [simp]:
  "promises s (EmitPing p)" "promises s (EmitPong p)" "promises s (EmitError c r)"
  "promises s EmitSocketError" "promises s (SocketEnd f)" "promises s SocketDestroy"
  "promises s (Callback e)" "promises s (SocketWrite w) \<longleftrightarrow> \<not> CLOSING \<le> readyState s"
  "promises s (EmitMessage d b) \<longleftrightarrow> (asm_inv s \<longrightarrow> length d \<le> maxPayload s)"
  by (simp_all add: promises_def)

lemma quiet_failConnection [quiet_ops]: "quiet s (failConnection E code reason s)"
  using failConnection_change [of s E code reason]
  by (elim exE conjE, intro quietI) (auto split: if_splits)

lemma quiet_sendControl:
  assumes "\<not> CLOSING \<le> readyState s"
  shows "quiet s (fst (sendControl E opcode payload s))"
proof -
  obtain t e where r: "sendControl E opcode payload s = (t, e)"
    by (cases "sendControl E opcode payload s")
  with sendControl_change [OF r] assms show ?thesis
    by (elim exE conjE, intro quietI) (auto split: if_splits)
qed

lemma quiet_endSocketSoon: "same_assembly s t \<Longrightarrow> readyState s \<le> CLOSING \<Longrightarrow> readyState t = CLOSING \<Longrightarrow>
    trace t = trace s @ new \<Longrightarrow> \<forall>x\<in>set new. promises s x \<and> \<not> is_message x \<Longrightarrow> quiet s (endSocketSoon t)"
  by (rule quietI [of _ _ "new @ [SocketEnd None]"])
    (auto simp: endSocketSoon_def same_assembly_def)

lemma quiet_acceptClose [quiet_ops]: "quiet s (fst (acceptClose E code reason s))"
proof (cases "readyState s = OPEN")
  case True
  define s1 where "s1 = s\<lparr>closeCodeReceived := Some code, closeReasonReceived := reason,
    readyState := CLOSING\<rparr>"
  have s1: "same_assembly s s1" "readyState s1 = CLOSING" "trace s1 = trace s"
    by (simp_all add: s1_def same_assembly_def)
  show ?thesis
  proof (cases "encodeClosePayload (if code = 1005 then None else Some (CodeNum code)) (Some [])")
    case (Inl e)
    with True s1 show ?thesis
      by (intro quietI [of _ _ "[]"]) (auto simp: acceptClose_def s1_def)
  next
    case (Inr echo)
    obtain t e where t: "sendControl E OP_CLOSE echo s1 = (t, e)"
      by (cases "sendControl E OP_CLOSE echo s1")
    from sendControl_change [OF t] obtain frame where
      ch: "same_assembly s1 t" "readyState t = CLOSING"
        "trace t = trace s @ (if e = None then [SocketWrite frame] else [])"
      using s1 by auto
    have "fst (acceptClose E code reason s) =
        (if e = None then endSocketSoon (t\<lparr>closeFrameSent := True\<rparr>) else t)"
      using True Inr t by (simp add: acceptClose_def s1_def split: option.splits)
    moreover have "same_assembly s t" using s1 ch by (simp add: same_assembly_def)
    ultimately show ?thesis using True ch
      by (cases e) (auto intro: quiet_endSocketSoon [of _ _ "[SocketWrite frame]"] quietI [of _ _ "[]"])
  qed
next
  case False
  then show ?thesis
    by (auto simp: acceptClose_def Let_def
        intro: quiet_endSocketSoon [of _ _ "[]"] quietI [of _ _ "[]"])
qed

lemma quiet_handleCloseFrame [quiet_ops]: "quiet s (fst (handleCloseFrame E payload s))"
  by (simp add: handleCloseFrame_def Let_def quiet_ops split: option.splits)

lemma startMessage_cases:
  assumes "startMessage E opcode rsv s = (go, t)"
  obtains (failed) reason where "\<not> go" "t = failConnection E (CodeNum 1002) reason s"
  | (started) "go" "opcode = OP_TEXT \<or> opcode = OP_BIN" "msgOpcode s = 0"
      "rsv AND RSV1 \<noteq> 0 \<longrightarrow> perMessageDeflate s \<noteq> None"
      "t = s\<lparr>msgOpcode := opcode, msgChunks := [], msgSize := 0,
             msgCompressed := (rsv AND RSV1 \<noteq> 0),
             msgValidator := (if opcode = OP_TEXT then Some new_Utf8Validator else None)\<rparr>"
  | (continued) "go" "opcode = OP_CONT" "msgOpcode s \<noteq> 0" "rsv = 0" "t = s"
  | (unknown) "go" "opcode \<notin> {OP_TEXT, OP_BIN, OP_CONT}" "t = s"
  using assms by (auto simp: startMessage_def split: if_splits)

lemma ok_started: "ok_step s (s\<lparr>msgOpcode := a, msgChunks := [], msgSize := 0,
    msgCompressed := b, msgValidator := c\<rparr>)"
  by (simp add: ok_step_def asm_inv_def)

lemma join_chunks_concat: "join_chunks cs (length (concat cs)) = concat cs"
  by (cases cs) (auto simp: join_chunks_def)

lemma join_chunks_asm:
  "asm_inv s \<Longrightarrow> msgSize s \<le> maxPayload s \<Longrightarrow> join_chunks (msgChunks s) (msgSize s) = concat (msgChunks s)"
  by (metis asm_inv_def join_chunks_concat)

definition finished :: "'p ws \<Rightarrow> 'p ws" where
  "finished s = s\<lparr>msgOpcode := 0, msgChunks := [], msgSize := 0, msgValidator := None,
     msgCompressed := False\<rparr>"

lemma finishMessage_cases:
  obtains (failed) code reason v where
    "finishMessage E s = failConnection E code reason (s\<lparr>msgValidator := v\<rparr>)"
  | (delivered) data where
    "finishMessage E s = emit (EmitMessage data (msgOpcode s = OP_BIN)) (finished s)"
    "(if msgCompressed s then decompressRaw (zlib_of E) (join_chunks (msgChunks s) (msgSize s))
        (Some (maxPayload s)) else Inr (join_chunks (msgChunks s) (msgSize s))) = Inr data"
    "\<forall>v. msgValidator s = Some v \<longrightarrow> validate_text v data"
proof -
  let ?res = "if msgCompressed s then decompressRaw (zlib_of E) (join_chunks (msgChunks s) (msgSize s))
        (Some (maxPayload s)) else Inr (join_chunks (msgChunks s) (msgSize s))"
  show ?thesis
  proof (cases ?res)
    case (Inl e)
    have "s = s\<lparr>msgValidator := msgValidator s\<rparr>" by simp
    with Inl show ?thesis
      by (intro failed [of "inflate_code e" "inflate_message e" "msgValidator s"])
        (simp add: finishMessage_def)
  next
    case (Inr data)
    show ?thesis
    proof (cases "\<forall>v. msgValidator s = Some v \<longrightarrow> validate_text v data")
      case True
      with Inr show ?thesis
        by (intro delivered [of data])
          (auto simp: finishMessage_def finished_def validate_text_def split: option.splits prod.splits)
    next
      case False
      then obtain v ok v' where v: "msgValidator s = Some v" "Utf8Validator_push v data = (ok, v')"
        "\<not> (ok \<and> Utf8Validator_done v')"
        by (auto simp: validate_text_def)
      with Inr show ?thesis
        by (intro failed [of "CodeNum 1007" "js ''Invalid UTF-8''" "Some v'"])
          (auto simp: finishMessage_def)
    qed
  qed
qed

lemma ok_finishMessage [ok_steps]:
  assumes "msgSize s \<le> maxPayload s"
  shows "ok_step s (finishMessage E s)"
proof (cases rule: finishMessage_cases [of E s])
  case (failed code reason v)
  have "ok_step s (s\<lparr>msgValidator := v\<rparr>)" by (simp add: ok_step_def asm_inv_def)
  also have "ok_step \<dots> (finishMessage E s)" unfolding failed by (intro quiet_ok quiet_failConnection)
  finally show ?thesis .
next
  case (delivered data)
  have f: "ok_step s (finished s)" by (simp add: ok_step_def asm_inv_def finished_def)
  have "asm_inv s \<Longrightarrow> length data \<le> maxPayload s"
    using delivered(2) assms join_chunks_asm [of s]
    by (auto simp: asm_inv_def split: if_splits dest: decompressRaw_bound)
  then have "ok_step s (emit (EmitMessage data (msgOpcode s = OP_BIN)) (finished s))"
    by (simp add: ok_step_def asm_inv_def finished_def)
  then show ?thesis by (simp add: delivered(1))
qed

lemma ok_handleDataFrame [ok_steps]: "ok_step s (handleDataFrame E f s)"
proof -
  obtain go t where st: "startMessage E (pf_opcode f) (case pf_rsv f of None \<Rightarrow> 0 | Some r \<Rightarrow> r) s = (go, t)"
    by (cases "startMessage E (pf_opcode f) (case pf_rsv f of None \<Rightarrow> 0 | Some r \<Rightarrow> r) s")
  then have ok_t: "ok_step s t"
    by (cases rule: startMessage_cases) (auto intro: ok_steps ok_started quiet_ok quiet_failConnection)
  define s1 where "s1 = t\<lparr>msgSize := msgSize t + length (pf_payload f)\<rparr>"
  define s2 where "s2 = s1\<lparr>msgChunks := (if pf_payload f = [] then msgChunks s1
      else msgChunks s1 @ [pf_payload f])\<rparr>"
  have eq: "handleDataFrame E f s =
      (if \<not> go then t
       else if msgSize s1 > maxPayload s1 then failConnection E (CodeNum 1009) (tooLarge s1) s1
       else if pf_fin f then finishMessage E s2 else s2)"
    using st by (auto simp: handleDataFrame_def s1_def s2_def Let_def)
  have big: "msgSize s1 > maxPayload s1 \<Longrightarrow> ok_step t s1"
    and fits: "\<not> msgSize s1 > maxPayload s1 \<Longrightarrow> ok_step t s2"
    by (auto simp: ok_step_def asm_inv_def s1_def s2_def)
  have fin: "\<not> msgSize s1 > maxPayload s1 \<Longrightarrow> ok_step s2 (finishMessage E s2)"
    by (intro ok_finishMessage) (simp add: s2_def)
  note to_s1 = ok_step_trans [OF ok_t big] and to_s2 = ok_step_trans [OF ok_t fits]
  show ?thesis
    by (simp add: eq ok_t to_s2 ok_step_trans [OF to_s1 quiet_ok [OF quiet_failConnection]] ok_step_trans [OF to_s2 fin])
qed

lemma quiet_handleFrame:
  assumes "pf_opcode f \<in> {OP_PING, OP_PONG, OP_CLOSE}"
  shows "quiet s (fst (handleFrame E f s))"
proof -
  have "quiet s (emit (EmitPing (pf_payload f)) s)" by (simp add: quiet_ops)
  moreover have "readyState s = OPEN \<Longrightarrow>
      quiet (emit (EmitPing (pf_payload f)) s)
        (fst (sendControl E OP_PONG (pf_payload f) (emit (EmitPing (pf_payload f)) s)))"
    by (intro quiet_sendControl) simp
  ultimately have "readyState s = OPEN \<Longrightarrow> quiet s
        (fst (sendControl E OP_PONG (pf_payload f) (emit (EmitPing (pf_payload f)) s)))"
    by (rule quiet_trans)
  then show ?thesis using assms
    by (auto simp: handleFrame_def Let_def quiet_ops)
qed

lemma handleFrame_data:
  "pf_opcode f \<notin> {OP_PING, OP_PONG, OP_CLOSE} \<Longrightarrow> handleFrame E f s = (handleDataFrame E f s, None)"
  by (simp add: handleFrame_def)

lemma ok_handleFrame [ok_steps]: "ok_step s (fst (handleFrame E f s))"
  using quiet_ok [OF quiet_handleFrame [of f s E]] ok_handleDataFrame [of s E f]
  by (cases "pf_opcode f \<in> {OP_PING, OP_PONG, OP_CLOSE}") (simp_all add: handleFrame_data)

lemma quiet_consumeDiagnosticFrame [quiet_ops]: "quiet s (fst (consumeDiagnosticFrame f s))"
  by (auto simp: consumeDiagnosticFrame_def resetDiagnosticBytes_def Let_def same_assembly_def
      intro!: quietI [of _ _ "[]"] split: option.splits)

lemma onFrames_Cons:
  "fst (onFrames E (f # fs) s) =
     (let (s1, e1) = consumeDiagnosticFrame f s; (s2, e2) = handleFrame E f s1 in
      if e1 \<noteq> None then s1 else if e2 \<noteq> None \<or> readyState s2 = CLOSED then s2
      else fst (onFrames E fs s2))"
  by (auto split: prod.splits option.splits)

lemma ok_onFrames [ok_steps]: "ok_step s (fst (onFrames E fs s))"
proof (induction fs arbitrary: s)
  case (Cons f fs)
  obtain s1 e1 s2 e2 where r: "consumeDiagnosticFrame f s = (s1, e1)" "handleFrame E f s1 = (s2, e2)"
    by fastforce
  then have s1: "ok_step s s1" and s2: "ok_step s1 s2"
    using quiet_ok [OF quiet_consumeDiagnosticFrame [of s f]] ok_handleFrame [of s1 E f] by simp_all
  note to_s2 = ok_step_trans [OF s1 s2]
  from r show ?case
    using s1 to_s2 ok_step_trans [OF to_s2 Cons.IH]
    by (simp add: onFrames_Cons Let_def del: onFrames.simps)
qed (simp add: ok_steps)

lemma quiet_describeParseError: "quiet s (snd (describeParseError res s))"
  by (auto simp: describeParseError_def resetDiagnosticBytes_def Let_def same_assembly_def
      intro!: quietI [of _ _ "[]"])

text \<open>The two ways through \<open>_onData\<close>, after the bytes have been recorded and parsed.\<close>

lemma onData_cases:
  assumes "readyState s \<noteq> CLOSED"
  obtains (failed) t code reason where "quiet s t"
    "fst (onData E chunk s) = failConnection E code reason t"
  | (frames) res p' t where "quiet s t" "parser_push E (parser s) chunk = (res, p')"
    "\<not> pr_error res" "t = (recordDiagnosticBytes chunk s)\<lparr>parser := p'\<rparr>"
    "onData E chunk s = onFrames E (pr_frames res) t"
proof -
  obtain res p' where p: "parser_push E (parser s) chunk = (res, p')" by fastforce
  define s1 where "s1 = (recordDiagnosticBytes chunk s)\<lparr>parser := p'\<rparr>"
  obtain msg s2 where d: "describeParseError res s1 = (msg, s2)" by fastforce
  have s1: "quiet s s1"
    by (auto simp: quiet_def same_assembly_def s1_def recordDiagnosticBytes_def Let_def)
  have s2: "quiet s1 s2" using quiet_describeParseError [of s1 res] d by simp
  show ?thesis
  proof (cases "pr_error res")
    case True
    with assms p d show ?thesis
      by (intro failed [OF quiet_trans [OF s1 s2]]) (auto simp: onData_def Let_def simp flip: s1_def)
  next
    case False
    with assms p show ?thesis
      by (intro frames [OF s1 p False s1_def]) (simp add: onData_def Let_def flip: s1_def)
  qed
qed

lemma onData_closed: "readyState s = CLOSED \<Longrightarrow> onData E chunk s = (s, None)"
  by (simp add: onData_def)

lemma ok_onData [ok_steps]: "ok_step s (fst (onData E chunk s))"
proof (cases "readyState s = CLOSED")
  case False
  then show ?thesis
  proof (cases rule: onData_cases [of s E chunk])
    case (failed t code reason)
    then show ?thesis using quiet_trans quiet_failConnection by (metis quiet_ok)
  next
    case (frames res p' t)
    then show ?thesis using ok_step_trans [OF quiet_ok ok_onFrames] by simp
  qed
qed (simp add: onData_closed ok_steps)

lemma quiet_write_frame [quiet_ops]:
  assumes "readyState s = OPEN"
  shows "quiet s (fst (write_frame E opcode payload rsv s))"
proof -
  obtain frame t where b: "build E opcode payload rsv s = (frame, t)" by fastforce
  note build_change [OF b]
  with assms b show ?thesis
    by (auto simp: write_frame_def split: option.splits
        intro: quietI [of _ _ "[]"] quietI [of _ _ "[SocketWrite x]" for x])
qed

lemma quiet_reject [quiet_ops]: "quiet s (fst (reject cb e s))"
  by (simp add: reject_def quiet_ops)

lemma quiet_send [quiet_ops]: "quiet s (fst (send E data opts cb s))"
  by (auto simp: send_def quiet_ops split: send_data.splits option.splits)

lemma quiet_send_control [quiet_ops]: "quiet s (fst (send_control E opcode payload cb s))"
  by (simp add: send_control_def quiet_ops)

lemma quiet_close [quiet_ops]: "quiet s (fst (close E code reason s))"
proof (cases "\<exists>payload. readyState s \<notin> {CLOSING, CLOSED} \<and>
    encodeClosePayload (map_option CodeNum code) reason = Inr payload")
  case True
  then obtain payload where p: "readyState s \<notin> {CLOSING, CLOSED}"
    "encodeClosePayload (map_option CodeNum code) reason = Inr payload" by blast
  obtain frame t where b: "build E OP_CLOSE payload 0 s = (frame, t)" by fastforce
  note ch = build_change [OF b]
  have "quiet s t" using ch by (intro quietI [of _ _ "[]"]) auto
  moreover have "quiet s (endSocketSoon ((emit (SocketWrite w)
      (t\<lparr>readyState := CLOSING, closeCodeSent := c\<rparr>)) \<lparr>closeFrameSent := True\<rparr>))" for w c
    using ch p by (intro quiet_endSocketSoon [of _ _ "[SocketWrite w]"]) (auto simp: same_assembly_def)
  ultimately show ?thesis using p b
    by (auto simp: close_def quiet_ops split: option.splits)
qed (auto simp: close_def quiet_ops split: option.splits sum.splits)

fun is_Data :: "ws_event \<Rightarrow> bool" where
  "is_Data (Data chunk) = True"
| "is_Data _ = False"

lemma quiet_ws_step:
  assumes "ev \<noteq> SocketClose" "ev \<noteq> Terminate" "\<not> is_Data ev"
  shows "quiet s (ws_step E ev s)"
proof (cases ev)
  case End
  then show ?thesis
    by (auto simp: onEnd_def destroySocket_def quiet_ops intro!: quietI [of _ _ "[SocketDestroy]"])
qed (use assms in \<open>auto simp: quiet_ops ping_def pong_def onError_def onCloseTimer_def destroySocket_def\<close>)

lemma ok_ws_step:
  assumes "ev \<noteq> SocketClose" "ev \<noteq> Terminate"
  shows "ok_step s (ws_step E ev s)"
  using assms by (cases "is_Data ev", cases ev) (auto intro: quiet_ok quiet_ws_step ok_onData)

section \<open>Every run\<close>

lemma onSocketClose_change:
  "same_assembly s (onSocketClose s)" "readyState (onSocketClose s) = CLOSED"
  "trace (onSocketClose s) = trace s @ (if readyState s = CLOSED then []
     else [EmitClose (case closeCodeReceived s of None \<Rightarrow> 1006 | Some c \<Rightarrow> c) (closeReasonReceived s)])"
  by (auto simp: onSocketClose_def Let_def split: option.splits)

lemma terminate_change:
  "same_assembly s (terminate s)" "readyState (terminate s) = CLOSING"
  "trace (terminate s) = trace s @ [SocketDestroy]"
  by (simp_all add: terminate_def destroySocket_def)

lemma same_assembly_inv: "same_assembly s t \<Longrightarrow> asm_inv s \<Longrightarrow> asm_inv t"
  by (simp add: same_assembly_def asm_inv_def)

lemma ws_step_trace:
  obtains new where "trace (ws_step E ev s) = trace s @ new"
    "\<forall>x\<in>set new. (asm_inv s \<longrightarrow> small_message (maxPayload s) x) \<and>
       (CLOSING \<le> readyState s \<longrightarrow> \<not> is_write x)"
proof (cases "ev = SocketClose \<or> ev = Terminate")
  case True
  then show ?thesis
    by (intro that [of "if ev = Terminate then [SocketDestroy]
        else if readyState s = CLOSED then []
        else [EmitClose (case closeCodeReceived s of None \<Rightarrow> 1006 | Some c \<Rightarrow> c) (closeReasonReceived s)]"])
      (auto simp: onSocketClose_change terminate_change split: option.splits)
next
  case False
  then show ?thesis
    using ok_ws_step [of ev s E] by (auto simp: ok_step_def promises_def intro: that)
qed

lemma ws_step_frame:
  "maxPayload (ws_step E ev s) = maxPayload s" "asm_inv s \<Longrightarrow> asm_inv (ws_step E ev s)"
  "CLOSING \<le> readyState s \<Longrightarrow> CLOSING \<le> readyState (ws_step E ev s)"
proof -
  have "maxPayload (ws_step E ev s) = maxPayload s \<and> (asm_inv s \<longrightarrow> asm_inv (ws_step E ev s)) \<and>
    (CLOSING \<le> readyState s \<longrightarrow> CLOSING \<le> readyState (ws_step E ev s))"
  proof (cases "ev = SocketClose \<or> ev = Terminate")
    case True
    then have "same_assembly s (ws_step E ev s)" "CLOSING \<le> readyState (ws_step E ev s)"
      by (auto simp: onSocketClose_change terminate_change)
    then show ?thesis
      by (auto intro: same_assembly_inv simp: same_assembly_def)
  next
    case False
    then show ?thesis
      using ok_ws_step [of ev s E] by (auto simp: ok_step_def)
  qed
  then show "maxPayload (ws_step E ev s) = maxPayload s" "asm_inv s \<Longrightarrow> asm_inv (ws_step E ev s)"
    "CLOSING \<le> readyState s \<Longrightarrow> CLOSING \<le> readyState (ws_step E ev s)" by blast+
qed

interpretation sized: safe_machine "ws_step E" asm_inv trace "\<lambda>s. small_message (maxPayload s)" for E
proof
  show "asm_inv s \<Longrightarrow> \<exists>new. trace (ws_step E ev s) = trace s @ new \<and>
      (\<forall>x\<in>set new. small_message (maxPayload s) x)" for ev and s :: "'a ws"
    by (rule ws_step_trace [of E ev s]) auto
qed (simp_all add: ws_step_frame)

text \<open>
  What can still be sent once the close handshake has begun: \<open>_failConnection\<close> alone passes a
  frame to \<open>socket.end\<close>, and it is the close frame of the failure's code and reason.
\<close>

definition is_close_frame :: "'p native \<Rightarrow> byte list \<Rightarrow> bool" where
  "is_close_frame E frame \<longleftrightarrow>
     (\<exists>code reason payload key. encodeClosePayload (Some code) (Some reason) = Inr payload \<and>
        buildFrame E OP_CLOSE True payload key 0 = Some frame)"

fun ends_ok :: "'p native \<Rightarrow> ws_effect \<Rightarrow> bool" where
  "ends_ok E (SocketEnd (Some frame)) = is_close_frame E frame"
| "ends_ok E _ = True"

definition ends_after :: "'p native \<Rightarrow> 'p ws \<Rightarrow> 'p ws \<Rightarrow> bool" where
  "ends_after E s t \<longleftrightarrow> (\<exists>new. trace t = trace s @ new \<and> list_all (ends_ok E) new)"

named_theorems ends_ops

lemma ends_after_refl [ends_ops]: "ends_after E s s"
  by (simp add: ends_after_def)

lemma ends_after_cong: "trace t = trace u \<Longrightarrow> ends_after E s t = ends_after E s u"
  by (simp add: ends_after_def)

lemma ends_after_emit [ends_ops]: "ends_ok E x \<Longrightarrow> ends_after E s t \<Longrightarrow> ends_after E s (emit x t)"
  by (auto simp: ends_after_def)

lemma ends_after_simps [simp]:
  "ends_after E s (t\<lparr>readyState := r\<rparr>) = ends_after E s t"
  "ends_after E s (t\<lparr>closeFrameSent := b\<rparr>) = ends_after E s t"
  "ends_after E s (t\<lparr>closeCodeReceived := cc\<rparr>) = ends_after E s t"
  "ends_after E s (t\<lparr>closeCodeSent := cs\<rparr>) = ends_after E s t"
  "ends_after E s (t\<lparr>closeReasonReceived := cr\<rparr>) = ends_after E s t"
  "ends_after E s (t\<lparr>closeTimer := ct\<rparr>) = ends_after E s t"
  "ends_after E s (t\<lparr>msgValidator := v\<rparr>) = ends_after E s t"
  "ends_after E s (t\<lparr>msgSize := n\<rparr>) = ends_after E s t"
  "ends_after E s (t\<lparr>msgChunks := ch\<rparr>) = ends_after E s t"
  "ends_after E s (t\<lparr>msgOpcode := opc\<rparr>) = ends_after E s t"
  "ends_after E s (t\<lparr>msgCompressed := b\<rparr>) = ends_after E s t"
  "ends_after E s (t\<lparr>parser := p\<rparr>) = ends_after E s t"
  "ends_after E s (resetDiagnosticBytes t) = ends_after E s t"
  "ends_after E s (recordDiagnosticBytes chunk t) = ends_after E s t"
  "ends_after E s (fst (consumeDiagnosticFrame f t)) = ends_after E s t"
  "ends_after E s (snd (describeParseError res t)) = ends_after E s t"
  by (auto simp: ends_after_def resetDiagnosticBytes_def recordDiagnosticBytes_def Let_def
      consumeDiagnosticFrame_def describeParseError_def split: option.splits)

lemma ends_after_build: "build E opcode payload rsv t = (frame, u) \<Longrightarrow> ends_after E s u = ends_after E s t"
  by (rule ends_after_cong) (rule build_change)

lemma ends_destroySocket [ends_ops]: "ends_after E s t \<Longrightarrow> ends_after E s (destroySocket t)"
  by (simp add: destroySocket_def ends_ops)

lemma ends_endSocketSoon [ends_ops]: "ends_after E s t \<Longrightarrow> ends_after E s (endSocketSoon t)"
  by (simp add: endSocketSoon_def ends_ops)

lemma ends_failConnection [ends_ops]:
  assumes "ends_after E s t"
  shows "ends_after E s (failConnection E code reason t)"
proof -
  obtain payload where p: "encodeClosePayload (Some code) (Some reason) = Inr payload"
    by (rule encodeClosePayload_total)
  obtain frame u where b: "build E OP_CLOSE payload 0 t = (frame, u)" by fastforce
  have "ends_ok E (SocketEnd frame)"
    using b p by (cases frame) (auto simp: build_def is_close_frame_def split: if_splits)
  with assms p b show ?thesis
    by (simp add: failConnection_def ends_ops ends_after_build [OF b])
qed

lemma ends_write [ends_ops]:
  assumes "ends_after E s t"
  shows "ends_after E s (fst (sendControl E opcode payload t))"
    "ends_after E s (fst (write_frame E opcode payload rsv t))"
  using assms
  by (auto simp: sendControl_def write_frame_def ends_ops ends_after_build split: prod.splits option.splits)

lemma ends_acceptClose [ends_ops]:
  assumes "ends_after E s t"
  shows "ends_after E s (fst (acceptClose E code reason t))"
proof -
  have "ends_after E s u" if "sendControl E OP_CLOSE echo (t\<lparr>closeCodeReceived := Some code,
      closeReasonReceived := reason, readyState := CLOSING\<rparr>) = (u, e)" for echo u e
    using ends_write(1) [of E s "t\<lparr>closeCodeReceived := Some code, closeReasonReceived := reason,
      readyState := CLOSING\<rparr>" OP_CLOSE echo] assms that by simp
  with assms show ?thesis
    by (auto simp: acceptClose_def Let_def ends_ops split: sum.splits prod.splits option.splits)
qed

lemma ends_handleDataFrame [ends_ops]:
  assumes "ends_after E s t"
  shows "ends_after E s (handleDataFrame E f t)"
proof -
  have fin: "ends_after E s (finishMessage E u)" if "ends_after E s u" for u
    using that by (auto simp: finishMessage_def Let_def ends_ops
        split: sum.splits prod.splits option.splits bool.splits)
  have "ends_after E s u" if "startMessage E opcode rsv t = (go, u)" for opcode rsv go u
    using that assms by (auto simp: startMessage_def ends_ops split: if_splits)
  then show ?thesis
    by (auto simp: handleDataFrame_def Let_def ends_ops fin split: prod.splits bool.splits)
qed

lemma ends_handleFrame [ends_ops]: "ends_after E s t \<Longrightarrow> ends_after E s (fst (handleFrame E f t))"
  by (auto simp: handleFrame_def handleCloseFrame_def Let_def ends_ops split: option.splits)

lemma ends_onFrames [ends_ops]: "ends_after E s t \<Longrightarrow> ends_after E s (fst (onFrames E fs t))"
proof (induction fs arbitrary: t)
  case (Cons f fs)
  obtain s1 e1 s2 e2 where r: "consumeDiagnosticFrame f t = (s1, e1)" "handleFrame E f s1 = (s2, e2)"
    by fastforce
  then have s1: "ends_after E s s1"
    using Cons.prems ends_after_simps(15) [of E s f t] by simp
  then have "ends_after E s s2" using ends_handleFrame [of E s s1 f] r(2) by simp
  with r s1 show ?case using Cons.IH
    by (simp add: onFrames_Cons Let_def del: onFrames.simps)
qed (simp add: ends_ops)

lemma ends_onData [ends_ops]: "ends_after E s (fst (onData E chunk s))"
proof -
  have "ends_after E s u" if "describeParseError res (t\<lparr>parser := p\<rparr>) = (m, u)" "ends_after E s t" for res t p m u
    using ends_after_simps(16) [of E s res "t\<lparr>parser := p\<rparr>"] that by simp
  then show ?thesis
    by (auto simp: onData_def Let_def ends_ops split: prod.splits)
qed

lemma ends_ws_step: "ends_after E s (ws_step E ev s)"
  by (cases ev)
    (auto simp: onEnd_def onSocketClose_def onError_def onCloseTimer_def terminate_def send_def reject_def
      ping_def pong_def send_control_def close_def Let_def ends_ops ends_after_build
      split: option.splits sum.splits prod.splits)

interpretation closing: safe_machine "ws_step E" "\<lambda>s. CLOSING \<le> readyState s" trace
    "\<lambda>_ x. \<not> is_write x \<and> ends_ok E x" for E
proof
  show "CLOSING \<le> readyState s \<Longrightarrow> \<exists>new. trace (ws_step E ev s) = trace s @ new \<and>
      (\<forall>x\<in>set new. \<not> is_write x \<and> ends_ok E x)" for ev and s :: "'a ws"
    using ends_ws_step [of E s ev]
    by (rule_tac ws_step_trace [of E ev s]) (auto simp: ends_after_def list_all_iff)
qed (simp_all add: ws_step_frame del: ready_state_order)

text \<open>
  The close event is emitted by the transition to \<open>CLOSED\<close> and by nothing else.
  \<open>terminate\<close> is left out: it resets a closed connection to \<open>CLOSING\<close>.
\<close>

definition once :: "'p ws \<Rightarrow> bool" where
  "once s \<longleftrightarrow> length (filter is_close_event (trace s)) = (if readyState s = CLOSED then 1 else 0)"

lemma once_step:
  assumes "once s" "ev \<noteq> Terminate"
  shows "once (ws_step E ev s) \<and> readyState s \<le> readyState (ws_step E ev s)"
proof (cases "ev = SocketClose")
  case True
  then show ?thesis using assms(1)
    by (auto simp: onSocketClose_change once_def)
next
  case False
  from ok_ws_step [OF False assms(2), of s E] obtain new where
    "trace (ws_step E ev s) = trace s @ new" "\<forall>x\<in>set new. \<not> is_close_event x"
    "readyState (ws_step E ev s) = CLOSED \<longleftrightarrow> readyState s = CLOSED"
    "readyState s \<le> readyState (ws_step E ev s)"
    by (auto simp: ok_step_def promises_def)
  with assms(1) show ?thesis by (auto simp: once_def filter_empty_conv)
qed

lemma once_run:
  assumes "once s" "Terminate \<notin> set evs"
  shows "once (ws_run E evs s) \<and> readyState s \<le> readyState (ws_run E evs s)"
  using assms
proof (induction evs arbitrary: s)
  case (Cons ev evs)
  then have "once (ws_step E ev s)" "readyState s \<le> readyState (ws_step E ev s)"
    using once_step [of s ev E] by auto
  with Cons.IH [of "ws_step E ev s"] Cons.prems(2) show ?case by (auto intro: order_trans)
qed simp

lemma new_WebSocket_sel [simp]:
  "asm_inv (new_WebSocket p server (Some m) st pmd)"
  "maxPayload (new_WebSocket p server (Some m) st pmd) = m"
  "trace (new_WebSocket p server (Some m) st pmd) = []"
  "readyState (new_WebSocket p server (Some m) st pmd) = (case st of None \<Rightarrow> OPEN | Some r \<Rightarrow> r)"
  by (simp_all add: new_WebSocket_def asm_inv_def)

section \<open>UTF-8 in text messages\<close>

text \<open>
  The parser is expected to reject reserved opcodes.  The state between frames is healthy until
  the first protocol error; after one the assembly state is left as it was and further frames
  are still handled, so nothing is claimed of text messages behind an error.
\<close>

definition rfc_opcode :: "ParsedFrame \<Rightarrow> bool" where
  "rfc_opcode f \<longleftrightarrow> pf_opcode f \<in> {OP_CONT, OP_TEXT, OP_BIN, OP_CLOSE, OP_PING, OP_PONG}"

fun text_valid :: "ws_effect list \<Rightarrow> bool" where
  "text_valid [] = True"
| "text_valid (EmitError c r # xs) = True"
| "text_valid (EmitMessage data False # xs) = (validate_text new_Utf8Validator data \<and> text_valid xs)"
| "text_valid (x # xs) = text_valid xs"

fun is_error :: "ws_effect \<Rightarrow> bool" where
  "is_error (EmitError c r) = True"
| "is_error _ = False"

lemma text_valid_append:
  "text_valid (xs @ ys) \<longleftrightarrow> text_valid xs \<and> (list_ex is_error xs \<or> text_valid ys)"
  by (induction xs rule: text_valid.induct) auto

definition healthy :: "'p ws \<Rightarrow> bool" where
  "healthy s \<longleftrightarrow> text_valid (trace s) \<and> (list_ex is_error (trace s) \<or>
     msgOpcode s \<in> {0, OP_TEXT, OP_BIN} \<and>
     msgValidator s = (if msgOpcode s = OP_TEXT then Some new_Utf8Validator else None))"

lemma text_valid_no_message: "\<forall>x\<in>set xs. \<not> is_message x \<Longrightarrow> text_valid xs"
  by (induction xs rule: text_valid.induct) auto

lemma healthy_quiet: "quiet s t \<Longrightarrow> healthy s \<Longrightarrow> healthy t"
  by (auto simp: healthy_def quiet_def same_assembly_def text_valid_append text_valid_no_message)

lemma healthy_text: "healthy s \<Longrightarrow> text_valid (trace s)"
  by (simp add: healthy_def)

lemma healthy_failConnection:
  assumes "readyState s \<noteq> CLOSED" "text_valid (trace s)"
  shows "healthy (failConnection E code reason s)"
  using failConnection_change [of s E code reason] assms
  by (auto simp: healthy_def text_valid_append)

lemma healthy_finishMessage:
  assumes "healthy s" "readyState s \<noteq> CLOSED" "msgOpcode s \<noteq> 0"
  shows "healthy (finishMessage E s)"
proof (cases rule: finishMessage_cases [of E s])
  case (failed code reason v)
  with assms show ?thesis by (simp add: healthy_failConnection healthy_text)
next
  case (delivered data)
  with assms(1,3) show ?thesis
    by (auto simp: healthy_def finished_def text_valid_append)
qed

lemma healthy_handleDataFrame:
  assumes "healthy s" "readyState s \<noteq> CLOSED" "pf_opcode f \<in> {OP_CONT, OP_TEXT, OP_BIN}"
  shows "healthy (handleDataFrame E f s)"
proof -
  obtain go t where st: "startMessage E (pf_opcode f) (case pf_rsv f of None \<Rightarrow> 0 | Some r \<Rightarrow> r) s = (go, t)"
    by fastforce
  then have t: "healthy t \<and> (go \<longrightarrow> readyState t \<noteq> CLOSED \<and> msgOpcode t \<noteq> 0)"
  proof (cases rule: startMessage_cases)
    case (failed reason)
    with assms show ?thesis by (simp add: healthy_failConnection healthy_text)
  qed (use assms in \<open>auto simp: healthy_def\<close>)
  have sel: "healthy (t\<lparr>msgSize := n\<rparr>) = healthy t" "healthy (t\<lparr>msgSize := n, msgChunks := cs\<rparr>) = healthy t"
    for n cs by (simp_all add: healthy_def)
  show ?thesis
    using st t
    by (cases go) (simp_all add: handleDataFrame_def Let_def healthy_failConnection healthy_text
        healthy_finishMessage sel)
qed

lemma healthy_handleFrame:
  assumes "healthy s" "readyState s \<noteq> CLOSED" "rfc_opcode f"
  shows "healthy (fst (handleFrame E f s))"
  using assms healthy_quiet [OF quiet_handleFrame [of f s E]] healthy_handleDataFrame [of s f E]
  by (cases "pf_opcode f \<in> {OP_PING, OP_PONG, OP_CLOSE}")
    (auto simp: handleFrame_data rfc_opcode_def)

lemma healthy_onFrames:
  assumes "healthy s" "readyState s \<noteq> CLOSED" "\<forall>f\<in>set fs. rfc_opcode f"
  shows "healthy (fst (onFrames E fs s))"
  using assms
proof (induction fs arbitrary: s)
  case (Cons f fs)
  obtain s1 e1 s2 e2 where r: "consumeDiagnosticFrame f s = (s1, e1)" "handleFrame E f s1 = (s2, e2)"
    by fastforce
  then have q: "quiet s s1" using quiet_consumeDiagnosticFrame [of s f] by simp
  then have s1: "healthy s1" "readyState s1 \<noteq> CLOSED"
    using Cons.prems healthy_quiet by (auto simp: quiet_def)
  then have "healthy s2" using healthy_handleFrame [of s1 f E] Cons.prems r by simp
  with r s1 Cons show ?case
    by (simp add: onFrames_Cons Let_def del: onFrames.simps)
qed simp

definition rfc_parser :: "'p native \<Rightarrow> bool" where
  "rfc_parser E \<longleftrightarrow> (\<forall>p chunk. \<forall>f\<in>set (pr_frames (fst (parser_push E p chunk))). rfc_opcode f)"

lemma healthy_onData:
  assumes "healthy s" "rfc_parser E"
  shows "healthy (fst (onData E chunk s))"
proof (cases "readyState s = CLOSED")
  case False
  then show ?thesis
  proof (cases rule: onData_cases [of s E chunk])
    case (failed t code reason)
    have "healthy t" "readyState t \<noteq> CLOSED"
      using healthy_quiet [OF failed(1) assms(1)] failed(1) False by (simp_all add: quiet_def)
    with failed show ?thesis by (simp add: healthy_failConnection healthy_text)
  next
    case (frames res p' t)
    have "healthy t" "readyState t \<noteq> CLOSED"
      using healthy_quiet [OF frames(1) assms(1)] frames(1) False by (simp_all add: quiet_def)
    moreover have "\<forall>f\<in>set (pr_frames res). rfc_opcode f"
      using assms(2) frames(2) by (metis rfc_parser_def fst_conv)
    ultimately show ?thesis unfolding frames(5) by (rule healthy_onFrames)
  qed
qed (use assms in \<open>simp add: onData_closed\<close>)

lemma healthy_ws_step:
  assumes "healthy s" "rfc_parser E"
  shows "healthy (ws_step E ev s)"
proof (cases "ev = SocketClose \<or> ev = Terminate")
  case True
  then have "same_assembly s (ws_step E ev s)"
    and "\<exists>new. trace (ws_step E ev s) = trace s @ new \<and> (\<forall>x\<in>set new. \<not> is_message x)"
    by (auto simp: onSocketClose_change terminate_change)
  with assms(1) show ?thesis
    by (auto simp: healthy_def same_assembly_def text_valid_append text_valid_no_message)
next
  case False
  show ?thesis
  proof (cases "is_Data ev")
    case True
    then show ?thesis using healthy_onData [OF assms] by (cases ev) simp_all
  next
    case data: False
    with False show ?thesis using healthy_quiet [OF quiet_ws_step assms(1)] by simp
  qed
qed

lemma healthy_run: "healthy s \<Longrightarrow> rfc_parser E \<Longrightarrow> healthy (ws_run E evs s)"
  by (induction evs arbitrary: s) (auto intro: healthy_ws_step)

section \<open>A concrete environment\<close>

text \<open>
  Short frames in the RFC 6455 layout with an all-zero mask key, one frame per read, and a zlib
  that stores its input: an instance of the parameters for the examples below.  The parser state
  is the side it is on.
\<close>

definition demo_parse :: "bool \<Rightarrow> byte list \<Rightarrow> ParsedFrame list" where
  "demo_parse server bytes =
     (case bytes of
        b0 # b1 # rest \<Rightarrow>
          let f = \<lparr>pf_fin = unat b0 \<ge> 128, pf_opcode = unat b0 mod 16,
                   pf_payload = (if server then drop 4 rest else rest),
                   pf_rsv = Some (unat b0 div 16 mod 8 * 16)\<rparr>
          in if rfc_opcode f then [f] else []
      | _ \<Rightarrow> [])"

definition demo_zlib :: zlib where
  "demo_zlib = \<lparr>deflateRawSync = \<lambda>d. d @ TRAILER,
     inflateRawSync = \<lambda>x m.
       (let d = take (length x - 4) x in
        case m of Some k \<Rightarrow> if length d > k then Inl (ERR_BUFFER_TOO_LARGE []) else Inr d
        | None \<Rightarrow> Inr d)\<rparr>"

definition demo_native :: "bool native" where
  "demo_native = \<lparr>
     parser_push = \<lambda>p chunk.
       (\<lparr>pr_frames = demo_parse p chunk, pr_error = False, pr_code = None, pr_message = None\<rparr>, p),
     buildFrame = \<lambda>opcode fin payload key rsv.
       (if length payload \<le> 125 then
          Some (byte_of ((if fin then 128 else 0) + rsv + opcode) #
                byte_of ((if key = None then 0 else 128) + length payload) #
                (case key of None \<Rightarrow> [] | Some k \<Rightarrow> k) @ payload)
        else None),
     randomFillSync = \<lambda>n i. 0,
     zlib_of = demo_zlib\<rparr>"

lemma demo_rfc: "rfc_parser demo_native"
  by (auto simp: rfc_parser_def demo_native_def demo_parse_def Let_def split: list.splits)

section \<open>Properties\<close>

text \<open>C1: whatever the peer sends, in whatever chunks, and whichever methods the application
  calls in between, a message that is delivered is never longer than \<open>maxPayload\<close>, fragmented
  and compressed messages included.\<close>

theorem messages_within_limit:
  "list_all (small_message m) (trace (ws_run E evs (new_WebSocket p server (Some m) st pmd)))"
  using sized.run_outs_safe [of "new_WebSocket p server (Some m) st pmd"]
  by (auto simp: list_all_iff)

text \<open>C12: once the connection is closing or closed it stays so, whatever happens next, and
  nothing more is written with \<open>socket.write\<close>.  The one frame that can still be sent is the
  close frame of a protocol failure, which goes out with \<open>socket.end\<close>.\<close>

theorem no_write_after_closing:
  assumes "CLOSING \<le> readyState s"
  shows "CLOSING \<le> readyState (ws_run E evs s) \<and>
    (\<exists>new. trace (ws_run E evs s) = trace s @ new \<and>
       filter is_write new = [] \<and>
       list_all (\<lambda>x. \<forall>frame. x = SocketEnd (Some frame) \<longrightarrow> is_close_frame E frame) new)"
proof -
  obtain new where new: "trace (ws_run E evs s) = trace s @ new" "\<forall>x\<in>set new. \<not> is_write x \<and> ends_ok E x"
    using closing.run_outs [OF assms, of E evs] by blast
  then have "filter is_write new = []"
    and "list_all (\<lambda>x. \<forall>frame. x = SocketEnd (Some frame) \<longrightarrow> is_close_frame E frame) new"
    by (auto simp: filter_empty_conv list_all_iff)
  with new(1) show ?thesis using closing.run_inv [OF assms, of E evs] by blast
qed

theorem no_write_after_closing_witness:
  "CLOSING \<le> readyState (ws_run demo_native [Data [0x89, 0], Send (SendString (js ''a'')) \<lparr>so_binary = None, so_compress = None\<rparr> True]
      (fst (close demo_native (Some 1000) None (new_WebSocket False False (Some 100) None None))))"
  by (rule no_write_after_closing [THEN conjunct1])
    (simp add: close_def new_WebSocket_def isValidCloseCode_def encodeClosePayload_def
      truncateCloseReason_def build_def demo_native_def endSocketSoon_def)

text \<open>C13: as long as \<open>terminate\<close> is not called, the ready state never goes back, and the
  close event has been emitted exactly once when the connection is closed and not at all
  before.\<close>

theorem close_event_once:
  assumes "st \<noteq> Some CLOSED" "Terminate \<notin> set evs"
  shows "length (filter is_close_event (trace (ws_run E evs (new_WebSocket p server (Some m) st pmd)))) =
      (if readyState (ws_run E evs (new_WebSocket p server (Some m) st pmd)) = CLOSED then 1 else 0) \<and>
    (case st of None \<Rightarrow> OPEN | Some r \<Rightarrow> r) \<le>
      readyState (ws_run E evs (new_WebSocket p server (Some m) st pmd))"
proof -
  have "once (new_WebSocket p server (Some m) st pmd)"
    using assms(1) by (auto simp: once_def split: option.splits)
  from once_run [OF this assms(2)] show ?thesis by (simp add: once_def)
qed

theorem close_event_once_witness:
  "length (filter is_close_event (trace (ws_run demo_native [End, SocketClose, SocketClose]
      (new_WebSocket True True (Some 100) None None)))) = 1"
  using close_event_once [of None "[End, SocketClose, SocketClose]" demo_native True True 100 None]
  by (simp add: onSocketClose_change)

text \<open>C14: every text message delivered before the first protocol error is UTF-8 as the validator
  accepts it, provided the native parser passes on no frame with a reserved opcode.\<close>

theorem text_messages_valid:
  assumes "rfc_parser E"
  shows "text_valid (trace (ws_run E evs (new_WebSocket p server (Some m) st pmd)))"
proof -
  have "healthy (new_WebSocket p server (Some m) st pmd)" by (simp add: healthy_def new_WebSocket_def)
  from healthy_run [OF this assms] show ?thesis by (rule healthy_text)
qed

theorem text_messages_valid_witness:
  "text_valid (trace (ws_run demo_native [Data [0x81, 0x82, 0, 0, 0, 0, 0x68, 0x69], SocketClose]
      (new_WebSocket True True (Some 100) None None)))"
  using demo_rfc by (rule text_messages_valid)

end
