(* ===== verification/Ws_Session.thy ===== *)
theory Ws_Session
  imports Ws_Safety
begin

text \<open>
  What a connection does with the frames of a well-behaved peer.  The diagnostic buffer always
  holds the bytes the parser has not turned into frames yet; a legal frame sequence is delivered
  as the messages an abstract reassembler gives, control frames interleaved at will; messages and
  the close handshake make the round trip between two connections.
\<close>

section \<open>The diagnostic buffer\<close>

lemma consume_chunks_drop:
  "n \<le> length (concat cs) \<Longrightarrow> \<exists>cs'. consume_chunks n cs = Some cs' \<and> concat cs' = drop n (concat cs)"
proof (induction cs arbitrary: n)
  case Nil
  then show ?case by (simp add: consume_chunks.simps)
next
  case (Cons c cs)
  show ?case
  proof (cases "n < length c")
    case True
    then show ?thesis by (subst consume_chunks.simps) simp
  next
    case False
    then have "n - length c \<le> length (concat cs)" using Cons.prems by simp
    from Cons.IH [OF this] False show ?thesis
      by (subst consume_chunks.simps) (auto simp: consume_chunks.simps)
  qed
qed

definition diag_inv :: "'p ws \<Rightarrow> bool" where
  "diag_inv s \<longleftrightarrow> 0 \<le> diagBytes s \<and>
     (if diagOverflow s then diagChunks s = []
      else diagBytes s = int (length (concat (diagChunks s))) \<and> diagBytes s \<le> int DIAG_BUFFER_LIMIT)"

text \<open>The bytes not parsed yet, when all of them have been kept.\<close>

definition unparsed :: "'p ws \<Rightarrow> byte list" where
  "unparsed s = concat (diagChunks s)"

lemma recordDiagnosticBytes_diag:
  assumes "diag_inv s"
  shows "diag_inv (recordDiagnosticBytes chunk s)"
    "diagBytes (recordDiagnosticBytes chunk s) = diagBytes s + int (length chunk)"
    "\<not> diagOverflow s \<Longrightarrow> diagBytes s + int (length chunk) \<le> int DIAG_BUFFER_LIMIT \<Longrightarrow>
      \<not> diagOverflow (recordDiagnosticBytes chunk s) \<and>
      unparsed (recordDiagnosticBytes chunk s) = unparsed s @ chunk"
  using assms by (auto simp: recordDiagnosticBytes_def diag_inv_def unparsed_def Let_def)

lemma consumeDiagnosticFrame_diag:
  assumes "diag_inv s" "int (frame_wire_length (isServer s) f) \<le> diagBytes s"
  obtains t where "consumeDiagnosticFrame f s = (t, None)" "diag_inv t"
    "diagBytes t = diagBytes s - int (frame_wire_length (isServer s) f)"
    "\<not> diagOverflow s \<Longrightarrow> \<not> diagOverflow t \<and> unparsed t = drop (frame_wire_length (isServer s) f) (unparsed s)"
proof -
  let ?n = "frame_wire_length (isServer s) f"
  consider "diagBytes s = int ?n" | "diagBytes s \<noteq> int ?n" "diagOverflow s"
    | "diagBytes s \<noteq> int ?n" "\<not> diagOverflow s" by blast
  then show ?thesis
  proof cases
    case 1
    with assms(1) show ?thesis
      by (intro that [of "resetDiagnosticBytes s"])
        (auto simp: consumeDiagnosticFrame_def resetDiagnosticBytes_def diag_inv_def unparsed_def Let_def)
  next
    case 2
    with assms show ?thesis
      by (intro that [of "s\<lparr>diagBytes := diagBytes s - int ?n\<rparr>"])
        (auto simp: consumeDiagnosticFrame_def diag_inv_def Let_def)
  next
    case 3
    with assms have "?n \<le> length (concat (diagChunks s))" by (simp add: diag_inv_def)
    from consume_chunks_drop [OF this] obtain cs' where
      "consume_chunks ?n (diagChunks s) = Some cs'" "concat cs' = drop ?n (concat (diagChunks s))"
      by blast
    with 3 assms show ?thesis
      by (intro that [of "s\<lparr>diagBytes := diagBytes s - int ?n, diagChunks := cs'\<rparr>"])
        (auto simp: consumeDiagnosticFrame_def diag_inv_def unparsed_def Let_def)
  qed
qed

section \<open>Control frames do not fail\<close>

text \<open>
  The addon builds every close, ping and pong frame with a payload of at most 125 bytes, unmasked
  or with a mask key of four bytes.  It throws on a key of any other length; the keys the
  connection draws have four.
\<close>

definition builds_control :: "'p native \<Rightarrow> bool" where
  "builds_control E \<longleftrightarrow>
     (\<forall>opcode payload key. opcode \<in> {OP_CLOSE, OP_PING, OP_PONG} \<and> length payload \<le> 125 \<and>
        (\<forall>k. key = Some k \<longrightarrow> length k = 4) \<longrightarrow>
        buildFrame E opcode True payload key 0 \<noteq> None)"

lemma length_randomMaskKey [simp]: "length (randomMaskKey E n) = 4"
  by (simp add: randomMaskKey_def)

definition mask_key :: "'p native \<Rightarrow> 'p ws \<Rightarrow> byte list option" where
  "mask_key E s = (if isServer s then None else Some (randomMaskKey E (maskCount s)))"

lemma mask_key_simps [simp]:
  "mask_key E (s\<lparr>msgOpcode := n\<rparr>) = mask_key E s" "mask_key E (s\<lparr>msgChunks := cs\<rparr>) = mask_key E s"
  "mask_key E (s\<lparr>msgSize := n\<rparr>) = mask_key E s" "mask_key E (s\<lparr>msgValidator := v\<rparr>) = mask_key E s"
  "mask_key E (s\<lparr>msgCompressed := b\<rparr>) = mask_key E s"
  by (simp_all add: mask_key_def)

lemma build_frame: "fst (build E opcode payload rsv s) = buildFrame E opcode True payload (mask_key E s) rsv"
  by (simp add: build_def mask_key_def)

definition control_ok :: "ParsedFrame \<Rightarrow> bool" where
  "control_ok f \<longleftrightarrow> (pf_opcode f = OP_PING \<longrightarrow> length (pf_payload f) \<le> 125)"

lemma build_control:
  assumes "builds_control E" "opcode \<in> {OP_CLOSE, OP_PING, OP_PONG}" "length payload \<le> 125"
  obtains frame t where "build E opcode payload 0 s = (Some frame, t)"
proof -
  have "\<forall>k. mask_key E s = Some k \<longrightarrow> length k = 4" by (simp add: mask_key_def)
  then have "buildFrame E opcode True payload (mask_key E s) 0 \<noteq> None"
    using assms unfolding builds_control_def by blast
  then show ?thesis using build_frame [of E opcode payload 0 s] that
    by (cases "build E opcode payload 0 s") auto
qed

lemma sendControl_None:
  assumes "builds_control E" "opcode \<in> {OP_CLOSE, OP_PING, OP_PONG}" "length payload \<le> 125"
  shows "snd (sendControl E opcode payload s) = None"
  by (rule build_control [OF assms, of s]) (simp add: sendControl_def)

lemma acceptClose_None:
  assumes "builds_control E"
  shows "snd (acceptClose E code reason s) = None"
proof -
  obtain echo where "encodeClosePayload (if code = 1005 then None else Some (CodeNum code)) (Some []) = Inr echo"
    "length echo \<le> 125"
    by (cases "code = 1005") (auto simp: encodeClosePayload_def truncateCloseReason_def)
  moreover obtain t where "sendControl E OP_CLOSE echo (s\<lparr>closeCodeReceived := Some code,
      closeReasonReceived := reason, readyState := CLOSING\<rparr>) = (t, None)"
    using sendControl_None [OF assms, of OP_CLOSE echo] calculation(2) by (simp add: prod_eq_iff)
  ultimately show ?thesis by (simp add: acceptClose_def Let_def)
qed

lemma handleFrame_None:
  assumes "builds_control E" "control_ok f"
  shows "snd (handleFrame E f s) = None"
  using assms sendControl_None [OF assms(1), of OP_PONG "pf_payload f"] acceptClose_None [OF assms(1)]
  by (auto simp: handleFrame_def handleCloseFrame_def control_ok_def Let_def split: option.splits)

text \<open>Close payloads are short, and a failing connection sends the frame of its code and reason.\<close>

lemma back_off_le: "back_off bs e \<le> e"
  by (induction bs e rule: back_off.induct) auto

lemma encodeClosePayload_length: "encodeClosePayload code reason = Inr payload \<Longrightarrow> length payload \<le> 125"
  using back_off_le [of _ 123]
  by (auto simp: encodeClosePayload_def truncateCloseReason_def MAX_CLOSE_REASON_BYTES_def Let_def
      min_le_iff_disj split: option.splits if_splits)

lemma failConnection_frame:
  assumes "builds_control E" "readyState s \<noteq> CLOSED"
  obtains payload frame where "encodeClosePayload (Some code) (Some reason) = Inr payload"
    "buildFrame E OP_CLOSE True payload (mask_key E s) 0 = Some frame"
    "trace (failConnection E code reason s) = trace s @ [EmitError code reason, SocketEnd (Some frame)]"
    "readyState (failConnection E code reason s) = CLOSING"
proof -
  obtain payload where p: "encodeClosePayload (Some code) (Some reason) = Inr payload"
    by (rule encodeClosePayload_total)
  obtain frame t where b: "build E OP_CLOSE payload 0 s = (Some frame, t)"
    by (rule build_control [OF assms(1) _ encodeClosePayload_length [OF p], of OP_CLOSE s]) simp_all
  then have "buildFrame E OP_CLOSE True payload (mask_key E s) 0 = Some frame"
    using build_frame [of E OP_CLOSE payload 0 s] by simp
  with p b assms(2) build_change [OF b] show ?thesis
    by (intro that [of payload frame]) (simp_all add: failConnection_def)
qed

section \<open>Frames leave the diagnostic buffer alone\<close>

lemma same_diag_simps [simp]:
  "same_diag s s" "same_diag s (emit x t) = same_diag s t"
  "same_diag s (t\<lparr>closeFrameSent := b\<rparr>) = same_diag s t"
  "same_diag s (t\<lparr>readyState := r\<rparr>) = same_diag s t"
  "same_diag s (t\<lparr>closeCodeReceived := cc\<rparr>) = same_diag s t"
  "same_diag s (t\<lparr>closeReasonReceived := cr\<rparr>) = same_diag s t"
  "same_diag s (t\<lparr>closeTimer := ct\<rparr>) = same_diag s t"
  "same_diag s (t\<lparr>msgValidator := v\<rparr>) = same_diag s t"
  "same_diag s (t\<lparr>msgSize := n\<rparr>) = same_diag s t"
  "same_diag s (t\<lparr>msgChunks := cs\<rparr>) = same_diag s t"
  "same_diag s (t\<lparr>msgOpcode := n\<rparr>) = same_diag s t"
  "same_diag s (t\<lparr>msgCompressed := b\<rparr>) = same_diag s t"
  "same_diag s (finished t) = same_diag s t"
  "same_diag s (endSocketSoon t) = same_diag s t"
  by (simp_all add: same_diag_def finished_def endSocketSoon_def)

lemma same_diag_trans: "same_diag s t \<Longrightarrow> same_diag t u \<Longrightarrow> same_diag s u"
  by (simp add: same_diag_def)

lemma same_diag_failConnection [simp]: "same_diag s (failConnection E code reason t) = same_diag s t"
  using failConnection_change [of t E code reason] by (auto simp: same_diag_def)

lemma same_diag_sendControl: "same_diag s t \<Longrightarrow> same_diag s (fst (sendControl E opcode payload t))"
  using sendControl_change [of E opcode payload t]
  by (cases "sendControl E opcode payload t") (auto intro: same_diag_trans)

lemma same_diag_acceptClose: "same_diag s (fst (acceptClose E code reason s))"
proof -
  let ?s1 = "s\<lparr>closeCodeReceived := Some code, closeReasonReceived := reason, readyState := CLOSING\<rparr>"
  have "same_diag s t" if "sendControl E OP_CLOSE echo ?s1 = (t, e)" for echo t e
    using same_diag_sendControl [of s ?s1 E OP_CLOSE echo] that by simp
  then show ?thesis
    by (auto simp: acceptClose_def Let_def split: sum.splits prod.splits option.splits)
qed

lemma same_diag_finishMessage: "same_diag s t \<Longrightarrow> same_diag s (finishMessage E t)"
  by (cases rule: finishMessage_cases [of E t]) simp_all

lemma same_diag_startMessage: "startMessage E opcode rsv s = (go, t) \<Longrightarrow> same_diag s t"
  by (auto simp: startMessage_def split: if_splits)

lemma same_diag_handleFrame: "same_diag s (fst (handleFrame E f s))"
  using same_diag_sendControl [of s "emit (EmitPing (pf_payload f)) s" E]
  by (auto simp: handleFrame_def handleCloseFrame_def handleDataFrame_def Let_def
      same_diag_acceptClose same_diag_finishMessage
      split: option.splits prod.splits bool.splits dest: same_diag_startMessage)

lemma diag_same: "same_diag s t \<Longrightarrow> diag_inv t = diag_inv s"
  "same_diag s t \<Longrightarrow> unparsed t = unparsed s"
  by (auto simp: same_diag_def diag_inv_def unparsed_def)

section \<open>The loop over the frames of one read\<close>

definition wire_total :: "bool \<Rightarrow> ParsedFrame list \<Rightarrow> nat" where
  "wire_total server fs = sum_list (map (frame_wire_length server) fs)"

text \<open>
  One frame: its bytes leave the diagnostic buffer, then it is handled, without an exception.
\<close>

lemma onFrames_step:
  assumes "diag_inv s" "int (wire_total (isServer s) (f # fs)) \<le> diagBytes s"
    "builds_control E" "control_ok f" "readyState s \<noteq> CLOSED"
  obtains s1 s2 where "onFrames E (f # fs) s = onFrames E fs s2"
    "quiet s s1" "trace s1 = trace s" "readyState s1 = readyState s"
    "s2 = fst (handleFrame E f s1)" "diag_inv s2" "isServer s2 = isServer s" "readyState s2 \<noteq> CLOSED"
    "diagBytes s2 = diagBytes s - int (frame_wire_length (isServer s) f)"
    "\<not> diagOverflow s \<Longrightarrow> \<not> diagOverflow s2 \<and> unparsed s2 = drop (frame_wire_length (isServer s) f) (unparsed s)"
proof -
  have "int (frame_wire_length (isServer s) f) \<le> diagBytes s"
    using assms(2) by (simp add: wire_total_def)
  from consumeDiagnosticFrame_diag [OF assms(1) this] obtain s1 where
    s1: "consumeDiagnosticFrame f s = (s1, None)" "diag_inv s1"
      "diagBytes s1 = diagBytes s - int (frame_wire_length (isServer s) f)"
      "\<not> diagOverflow s \<Longrightarrow> \<not> diagOverflow s1 \<and> unparsed s1 = drop (frame_wire_length (isServer s) f) (unparsed s)"
    by blast
  have tr: "trace s1 = trace s" "readyState s1 = readyState s"
    using s1(1) by (auto simp: consumeDiagnosticFrame_def resetDiagnosticBytes_def Let_def
        split: if_splits option.splits)
  define s2 where "s2 = fst (handleFrame E f s1)"
  have q: "quiet s s1" using quiet_consumeDiagnosticFrame [of s f] s1(1) by simp
  have h: "handleFrame E f s1 = (s2, None)"
    using handleFrame_None [OF assms(3,4), of s1] by (simp add: s2_def prod_eq_iff)
  have d: "same_diag s1 s2" by (simp add: s2_def same_diag_handleFrame)
  have o2: "ok_step s1 s2" by (simp add: s2_def ok_handleFrame)
  show ?thesis
  proof (rule that [of s2 s1])
    show "readyState s2 \<noteq> CLOSED" using o2 assms(5) tr by (simp add: ok_step_def)
    then show "onFrames E (f # fs) s = onFrames E fs s2" using s1(1) h by simp
    show "isServer s2 = isServer s" using o2 q by (simp add: ok_step_def quiet_def same_assembly_def)
    show "diag_inv s2" "diagBytes s2 = diagBytes s - int (frame_wire_length (isServer s) f)"
      using d s1 by (auto simp: diag_same, simp add: same_diag_def)
    show "\<not> diagOverflow s2 \<and> unparsed s2 = drop (frame_wire_length (isServer s) f) (unparsed s)"
      if "\<not> diagOverflow s" using s1(4) [OF that] d by (auto simp: same_diag_def unparsed_def)
  qed (use q tr s2_def in simp_all)
qed

lemma onFrames_diag:
  assumes "diag_inv s" "int (wire_total (isServer s) fs) \<le> diagBytes s"
    "builds_control E" "\<forall>f\<in>set fs. control_ok f" "readyState s \<noteq> CLOSED"
  shows "snd (onFrames E fs s) = None \<and> diag_inv (fst (onFrames E fs s)) \<and>
    diagBytes (fst (onFrames E fs s)) = diagBytes s - int (wire_total (isServer s) fs) \<and>
    (\<not> diagOverflow s \<longrightarrow> \<not> diagOverflow (fst (onFrames E fs s)) \<and>
       unparsed (fst (onFrames E fs s)) = drop (wire_total (isServer s) fs) (unparsed s))"
  using assms
proof (induction fs arbitrary: s)
  case Nil
  then show ?case by (simp add: wire_total_def)
next
  case (Cons f fs)
  from onFrames_step [OF Cons.prems(1,2,3) _ Cons.prems(5)] obtain s1 s2 :: "'a ws" where
    s2: "onFrames E (f # fs) s = onFrames E fs s2" "diag_inv s2" "isServer s2 = isServer s"
      "readyState s2 \<noteq> CLOSED" "diagBytes s2 = diagBytes s - int (frame_wire_length (isServer s) f)"
      "\<not> diagOverflow s \<Longrightarrow> \<not> diagOverflow s2 \<and> unparsed s2 = drop (frame_wire_length (isServer s) f) (unparsed s)"
    using Cons.prems(4) by (metis list.set_intros(1))
  have "int (wire_total (isServer s2) fs) \<le> diagBytes s2"
    using Cons.prems(2) s2 by (simp add: wire_total_def)
  from Cons.IH [OF s2(2) this Cons.prems(3) _ s2(4)] Cons.prems(4) show ?case
    unfolding s2(1) using s2 by (auto simp: wire_total_def add.commute)
qed

section \<open>The abstract reassembler\<close>

text \<open>
  What RFC 6455 asks of the data frames of one direction.  The state is the message under
  assembly: its opcode, whether it is compressed, and its bytes so far.  \<open>None\<close> as a result is
  a protocol violation; otherwise the frame gives a new state and the messages it completes.
\<close>

type_synonym assembly = "(nat \<times> bool \<times> byte list) option"

definition frame_rsv :: "ParsedFrame \<Rightarrow> nat" where
  "frame_rsv f = (case pf_rsv f of None \<Rightarrow> 0 | Some r \<Rightarrow> r)"

definition complete :: "zlib \<Rightarrow> nat \<Rightarrow> nat \<Rightarrow> bool \<Rightarrow> byte list \<Rightarrow> byte list option" where
  "complete z m opcode compressed data =
     (case (if compressed then decompressRaw z data (Some m) else Inr data) of
        Inl _ \<Rightarrow> None
      | Inr out \<Rightarrow> if opcode = OP_TEXT \<and> \<not> validate_text new_Utf8Validator out then None else Some out)"

definition spec_start :: "bool \<Rightarrow> ParsedFrame \<Rightarrow> assembly \<Rightarrow> assembly" where
  "spec_start pmd f a =
     (if pf_opcode f = OP_TEXT \<or> pf_opcode f = OP_BIN then
        (if a = None \<and> (frame_rsv f AND RSV1 \<noteq> 0 \<longrightarrow> pmd)
         then Some (pf_opcode f, frame_rsv f AND RSV1 \<noteq> 0, []) else None)
      else if frame_rsv f = 0 then a else None)"

definition spec_frame ::
    "zlib \<Rightarrow> nat \<Rightarrow> bool \<Rightarrow> ParsedFrame \<Rightarrow> assembly \<Rightarrow> (assembly \<times> (byte list \<times> bool) list) option" where
  "spec_frame z m pmd f a =
     (if pf_opcode f = OP_PING \<or> pf_opcode f = OP_PONG then Some (a, [])
      else case spec_start pmd f a of
        None \<Rightarrow> None
      | Some (opcode, compressed, acc) \<Rightarrow>
          let data = acc @ pf_payload f in
          if length data > m then None
          else if \<not> pf_fin f then Some (Some (opcode, compressed, data), [])
          else map_option (\<lambda>out. (None, [(out, opcode = OP_BIN)])) (complete z m opcode compressed data))"

fun spec_frames ::
    "zlib \<Rightarrow> nat \<Rightarrow> bool \<Rightarrow> ParsedFrame list \<Rightarrow> assembly \<Rightarrow> (assembly \<times> (byte list \<times> bool) list) option" where
  "spec_frames z m pmd [] a = Some (a, [])"
| "spec_frames z m pmd (f # fs) a =
     (case spec_frame z m pmd f a of
        None \<Rightarrow> None
      | Some (a', ms) \<Rightarrow> map_option (\<lambda>(a'', ms'). (a'', ms @ ms')) (spec_frames z m pmd fs a'))"

text \<open>
  How a frame that the reassembler rejects is to be reported: the close code and the reason.
\<close>

definition content_violation ::
    "zlib \<Rightarrow> nat \<Rightarrow> bool \<Rightarrow> nat \<Rightarrow> bool \<Rightarrow> byte list \<Rightarrow> (close_code \<times> jstr) option" where
  "content_violation z m fin opcode compressed data =
     (if length data > m then
        Some (CodeNum 1009, js ''Message too large: '' @ decimal (length data) @ js '' B '' @
          opcodeLabel opcode @ js '' message exceeds the '' @ decimal m @ js '' byte limit (maxPayloadBytes)'')
      else if \<not> fin then None
      else case (if compressed then decompressRaw z data (Some m) else Inr data) of
        Inl e \<Rightarrow> Some (inflate_code e, inflate_message e)
      | Inr out \<Rightarrow>
          if opcode = OP_TEXT \<and> \<not> validate_text new_Utf8Validator out
          then Some (CodeNum 1007, js ''Invalid UTF-8'') else None)"

definition violation ::
    "zlib \<Rightarrow> nat \<Rightarrow> bool \<Rightarrow> ParsedFrame \<Rightarrow> assembly \<Rightarrow> (close_code \<times> jstr) option" where
  "violation z m pmd f a =
     (if pf_opcode f = OP_TEXT \<or> pf_opcode f = OP_BIN then
        (if a \<noteq> None then
           Some (CodeNum 1002, js ''New data frame started before previous fragmented message finished'')
         else if frame_rsv f AND RSV1 \<noteq> 0 \<and> \<not> pmd then
           Some (CodeNum 1002, js ''Compressed frame without negotiated permessage-deflate'')
         else content_violation z m (pf_fin f) (pf_opcode f) (frame_rsv f AND RSV1 \<noteq> 0) (pf_payload f))
      else case a of
        None \<Rightarrow> Some (CodeNum 1002, js ''Continuation frame without active message'')
      | Some (opcode, compressed, acc) \<Rightarrow>
          if frame_rsv f \<noteq> 0 then Some (CodeNum 1002, js ''RSV bits set on continuation frame'')
          else content_violation z m (pf_fin f) opcode compressed (acc @ pf_payload f))"

lemma violation_start:
  assumes "pf_opcode f \<in> {OP_CONT, OP_TEXT, OP_BIN}"
  shows "case spec_start pmd f a of
      None \<Rightarrow> \<exists>cr. violation z m pmd f a = Some cr
    | Some (opcode, compressed, acc) \<Rightarrow>
        violation z m pmd f a = content_violation z m (pf_fin f) opcode compressed (acc @ pf_payload f)"
proof (cases "pf_opcode f = OP_CONT")
  case True
  then show ?thesis by (cases a) (auto simp: spec_start_def violation_def)
next
  case False
  with assms have op: "pf_opcode f = OP_TEXT \<or> pf_opcode f = OP_BIN" by auto
  then show ?thesis by (cases a) (simp_all only: spec_start_def violation_def, simp_all)
qed

lemma content_violation_None:
  "content_violation z m fin opcode compressed data = None \<longleftrightarrow>
     length data \<le> m \<and> (fin \<longrightarrow> complete z m opcode compressed data \<noteq> None)"
  by (simp add: content_violation_def complete_def split: sum.split)

lemma violation_spec:
  assumes "pf_opcode f \<in> {OP_CONT, OP_TEXT, OP_BIN}"
  shows "violation z m pmd f a = None \<longleftrightarrow> spec_frame z m pmd f a \<noteq> None"
proof (cases "spec_start pmd f a")
  case None
  then show ?thesis using violation_start [OF assms, of z m pmd a] assms by (auto simp: spec_frame_def)
next
  case (Some b)
  obtain opcode compressed acc where b: "b = (opcode, compressed, acc)" by (cases b)
  then have "violation z m pmd f a = content_violation z m (pf_fin f) opcode compressed (acc @ pf_payload f)"
    using violation_start [OF assms, of z m pmd a] Some by simp
  moreover have "spec_frame z m pmd f a \<noteq> None \<longleftrightarrow> length (acc @ pf_payload f) \<le> m \<and>
      (pf_fin f \<longrightarrow> complete z m opcode compressed (acc @ pf_payload f) \<noteq> None)"
    using assms Some b by (auto simp: spec_frame_def Let_def)
  ultimately show ?thesis by (simp only: content_violation_None)
qed

text \<open>The simulation relation.\<close>

definition assembles :: "'p ws \<Rightarrow> assembly \<Rightarrow> bool" where
  "assembles s a \<longleftrightarrow>
     (case a of
        None \<Rightarrow> msgOpcode s = 0
      | Some (opcode, compressed, acc) \<Rightarrow>
          msgOpcode s = opcode \<and> opcode \<in> {OP_TEXT, OP_BIN} \<and> msgCompressed s = compressed \<and>
          concat (msgChunks s) = acc \<and> msgSize s = length acc \<and>
          msgValidator s = (if opcode = OP_TEXT then Some new_Utf8Validator else None))"

definition delivered :: "ws_effect list \<Rightarrow> (byte list \<times> bool) list" where
  "delivered tr = concat (map (\<lambda>x. case x of EmitMessage d b \<Rightarrow> [(d, b)] | _ \<Rightarrow> []) tr)"

lemma delivered_simps [simp]:
  "delivered [] = []" "delivered (xs @ ys) = delivered xs @ delivered ys"
  "delivered (EmitMessage d b # xs) = (d, b) # delivered xs"
  "\<not> is_message x \<Longrightarrow> delivered (x # xs) = delivered xs"
  by (auto simp: delivered_def split: ws_effect.splits)

lemma delivered_quiet: "quiet s t \<Longrightarrow> delivered (trace t) = delivered (trace s)"
proof -
  have "\<forall>x\<in>set new. \<not> is_message x \<Longrightarrow> delivered new = []" for new
    by (induction new) auto
  then show "quiet s t \<Longrightarrow> delivered (trace t) = delivered (trace s)" by (auto simp: quiet_def)
qed

lemma assembles_quiet: "quiet s t \<Longrightarrow> assembles s a \<Longrightarrow> assembles t a"
  by (auto simp: assembles_def quiet_def same_assembly_def split: option.splits)

text \<open>The start of a data frame, against \<open>spec_start\<close>.\<close>

lemma startMessage_spec:
  assumes "assembles s a" "pf_opcode f \<in> {OP_CONT, OP_TEXT, OP_BIN}"
    "startMessage E (pf_opcode f) (frame_rsv f) s = (go, t)"
  shows "case spec_start (perMessageDeflate s \<noteq> None) f a of
      None \<Rightarrow> \<not> go \<and> (\<exists>reason. violation z m (perMessageDeflate s \<noteq> None) f a = Some (CodeNum 1002, reason) \<and>
        t = failConnection E (CodeNum 1002) reason s)
    | Some (opcode, compressed, acc) \<Rightarrow> go \<and> assembles t (Some (opcode, compressed, acc)) \<and>
        violation z m (perMessageDeflate s \<noteq> None) f a =
          content_violation z m (pf_fin f) opcode compressed (acc @ pf_payload f) \<and>
        readyState t = readyState s \<and> trace t = trace s \<and>
        maxPayload t = maxPayload s \<and> perMessageDeflate t = perMessageDeflate s \<and>
        mask_key E t = mask_key E s"
proof -
  show ?thesis
  proof (cases "pf_opcode f = OP_CONT")
    case True
    then show ?thesis using assms(1,3)
      by (cases a) (auto simp: startMessage_def spec_start_def violation_def assembles_def split: if_splits)
  next
    case False
    with assms(2) have op: "pf_opcode f = OP_TEXT \<or> pf_opcode f = OP_BIN" by auto
    then have m: "msgOpcode s \<noteq> 0 \<longleftrightarrow> a \<noteq> None" using assms(1) by (auto simp: assembles_def split: option.splits)
    note st = assms(3) [unfolded startMessage_def, simplified op simp_thms if_True m]
    consider "a \<noteq> None" | "a = None" "frame_rsv f AND RSV1 \<noteq> 0 \<and> perMessageDeflate s = None"
      | "a = None" "\<not> (frame_rsv f AND RSV1 \<noteq> 0 \<and> perMessageDeflate s = None)" by blast
    then show ?thesis
    proof cases
      case 3
      with st op show ?thesis by (auto simp: spec_start_def violation_def assembles_def)
    qed (use st op in \<open>simp_all add: spec_start_def violation_def\<close>)
  qed
qed

lemma finishMessage_spec:
  assumes "assembles s (Some (opcode, compressed, data))" "length data \<le> maxPayload s"
  shows "case content_violation (zlib_of E) (maxPayload s) True opcode compressed data of
      Some (code, reason) \<Rightarrow> \<exists>v. finishMessage E s = failConnection E code reason (s\<lparr>msgValidator := v\<rparr>)
    | None \<Rightarrow> \<exists>out. complete (zlib_of E) (maxPayload s) opcode compressed data = Some out \<and>
        finishMessage E s = emit (EmitMessage out (opcode = OP_BIN)) (finished s)"
proof -
  have raw: "join_chunks (msgChunks s) (msgSize s) = data"
    using assms(1) join_chunks_concat [of "msgChunks s"] by (simp add: assembles_def)
  have c: "msgCompressed s = compressed" "msgOpcode s = opcode"
    and v: "msgValidator s = (if opcode = OP_TEXT then Some new_Utf8Validator else None)"
    using assms(1) by (simp_all add: assembles_def)
  show ?thesis
  proof (cases "if compressed then decompressRaw (zlib_of E) data (Some (maxPayload s)) else Inr data")
    case (Inl e)
    then have "finishMessage E s = failConnection E (inflate_code e) (inflate_message e)
        (s\<lparr>msgValidator := msgValidator s\<rparr>)"
      by (simp add: finishMessage_def raw c)
    moreover have "content_violation (zlib_of E) (maxPayload s) True opcode compressed data =
        Some (inflate_code e, inflate_message e)"
      using assms(2) by (simp add: content_violation_def Inl)
    ultimately show ?thesis by (simp only: option.case prod.case) blast
  next
    case (Inr out)
    then show ?thesis
      using assms(2)
      by (auto simp: content_violation_def complete_def finishMessage_def raw c v finished_def
          validate_text_def split: prod.splits)
  qed
qed

text \<open>
  A data frame: rejected, the connection fails with the code and reason of the violation; accepted,
  it follows the reassembler.
\<close>

lemma handleDataFrame_spec:
  assumes "assembles s a" "pf_opcode f \<in> {OP_CONT, OP_TEXT, OP_BIN}" "pmd = (perMessageDeflate s \<noteq> None)"
  shows "case violation (zlib_of E) (maxPayload s) pmd f a of
      Some (code, reason) \<Rightarrow> \<exists>t. handleDataFrame E f s = failConnection E code reason t \<and>
        trace t = trace s \<and> readyState t = readyState s \<and> mask_key E t = mask_key E s
    | None \<Rightarrow> \<exists>a' ms.
        spec_frame (zlib_of E) (maxPayload s) pmd f a = Some (a', ms) \<and>
        assembles (handleDataFrame E f s) a' \<and>
        trace (handleDataFrame E f s) = trace s @ map (\<lambda>(d, b). EmitMessage d b) ms \<and>
        readyState (handleDataFrame E f s) = readyState s"
proof -
  let ?z = "zlib_of E" and ?m = "maxPayload s"
  obtain go t where st: "startMessage E (pf_opcode f) (frame_rsv f) s = (go, t)" by fastforce
  note start = startMessage_spec [OF assms(1,2) st, of ?z ?m, folded assms(3)]
  show ?thesis
  proof (cases "spec_start pmd f a")
    case None
    with start obtain reason where r: "\<not> go" "t = failConnection E (CodeNum 1002) reason s"
      "violation ?z ?m pmd f a = Some (CodeNum 1002, reason)" by auto
    then have "handleDataFrame E f s = failConnection E (CodeNum 1002) reason s"
      using st by (simp add: handleDataFrame_def frame_rsv_def)
    then show ?thesis unfolding r(3) by auto
  next
    case (Some b)
    obtain opcode compressed acc where b: "b = (opcode, compressed, acc)" by (cases b) auto
    define data where "data = acc @ pf_payload f"
    define s2 where "s2 = t\<lparr>msgSize := msgSize t + length (pf_payload f),
      msgChunks := (if pf_payload f = [] then msgChunks t else msgChunks t @ [pf_payload f])\<rparr>"
    have t: "go" "assembles t (Some (opcode, compressed, acc))" "readyState t = readyState s"
      "trace t = trace s" "maxPayload t = maxPayload s" "mask_key E t = mask_key E s"
      and viol: "violation ?z ?m pmd f a = content_violation ?z ?m (pf_fin f) opcode compressed data"
      using start Some b by (auto simp: data_def)
    have s2: "assembles s2 (Some (opcode, compressed, data))" "maxPayload s2 = maxPayload s"
      "readyState s2 = readyState s" "trace s2 = trace s" "mask_key E s2 = mask_key E s"
      using t by (auto simp: s2_def assembles_def data_def)
    have size: "msgSize t = length acc" "msgOpcode t = opcode" using t(2) by (simp_all add: assembles_def)
    define big where "big = t\<lparr>msgSize := msgSize t + length (pf_payload f)\<rparr>"
    have big: "trace big = trace s" "readyState big = readyState s" "mask_key E big = mask_key E s"
      using t by (simp_all add: big_def)
    have h: "handleDataFrame E f s =
        (if ?m < length data then failConnection E (CodeNum 1009) (tooLarge big) big
         else if pf_fin f then finishMessage E s2 else s2)"
      using st t size by (auto simp: handleDataFrame_def frame_rsv_def s2_def data_def big_def Let_def)
    have d: "spec_frame ?z ?m pmd f a =
        (if ?m < length data then None
         else if \<not> pf_fin f then Some (Some (opcode, compressed, data), [])
         else map_option (\<lambda>out. (None, [(out, opcode = OP_BIN)])) (complete ?z ?m opcode compressed data))"
      using assms(2) Some b by (auto simp: spec_frame_def data_def Let_def)
    consider "?m < length data" | "length data \<le> ?m" "\<not> pf_fin f" | "length data \<le> ?m" "pf_fin f" by fastforce
    then show ?thesis
    proof cases
      case 1
      moreover have "violation ?z ?m pmd f a = Some (CodeNum 1009, tooLarge big)"
        using 1 t(5) size by (simp add: viol content_violation_def tooLarge_def big_def data_def)
      ultimately show ?thesis using h big by auto
    next
      case 2
      then show ?thesis using h d s2 by (simp add: viol content_violation_def)
    next
      case 3
      note fin = finishMessage_spec [OF s2(1), of E, unfolded s2(2), OF 3(1)]
      show ?thesis
      proof (cases "content_violation ?z ?m True opcode compressed data")
        case None
        then show ?thesis using fin h d s2 3
          by (auto simp: viol assembles_def finished_def)
      next
        case (Some cr)
        obtain code reason where cr: "cr = (code, reason)" by (cases cr)
        with fin Some obtain v where
          "finishMessage E s2 = failConnection E code reason (s2\<lparr>msgValidator := v\<rparr>)" by auto
        moreover have "mask_key E (s2\<lparr>msgValidator := v\<rparr>) = mask_key E s" using s2(5) by simp
        ultimately show ?thesis using h s2 3 Some cr
          by (auto simp: viol intro!: exI [of _ "s2\<lparr>msgValidator := v\<rparr>"])
      qed
    qed
  qed
qed

text \<open>Frames that open or continue a message, or may stand between them.\<close>

definition message_frame :: "ParsedFrame \<Rightarrow> bool" where
  "message_frame f \<longleftrightarrow> rfc_opcode f \<and> pf_opcode f \<noteq> OP_CLOSE \<and> control_ok f"

lemma handleFrame_control:
  assumes "pf_opcode f = OP_PING \<or> pf_opcode f = OP_PONG"
  shows "readyState (fst (handleFrame E f s)) = readyState s"
  using assms sendControl_change [of E OP_PONG "pf_payload f" "emit (EmitPing (pf_payload f)) s"]
  by (cases "sendControl E OP_PONG (pf_payload f) (emit (EmitPing (pf_payload f)) s)")
    (auto simp: handleFrame_def Let_def)

lemma handleFrame_spec:
  assumes "assembles s a" "readyState s \<noteq> CLOSED" "message_frame f"
    "spec_frame (zlib_of E) (maxPayload s) (perMessageDeflate s \<noteq> None) f a = Some (a', ms)"
  shows "assembles (fst (handleFrame E f s)) a' \<and>
    delivered (trace (fst (handleFrame E f s))) = delivered (trace s) @ ms \<and>
    readyState (fst (handleFrame E f s)) = readyState s"
proof (cases "pf_opcode f \<in> {OP_PING, OP_PONG}")
  case True
  then have q: "quiet s (fst (handleFrame E f s))" by (intro quiet_handleFrame) auto
  have "a' = a" "ms = []" using True assms(4) by (auto simp: spec_frame_def)
  with q True show ?thesis
    by (auto simp: delivered_quiet handleFrame_control intro: assembles_quiet [OF q assms(1)])
next
  case False
  have del: "delivered (map (\<lambda>(d, b). EmitMessage d b) ms) = ms" for ms
    by (induction ms) auto
  from False assms(3) have op: "pf_opcode f \<in> {OP_CONT, OP_TEXT, OP_BIN}"
    by (auto simp: message_frame_def rfc_opcode_def)
  then have "handleFrame E f s = (handleDataFrame E f s, None)" by (intro handleFrame_data) auto
  moreover have "violation (zlib_of E) (maxPayload s) (perMessageDeflate s \<noteq> None) f a = None"
    using violation_spec [OF op] assms(4) by simp
  ultimately show ?thesis using handleDataFrame_spec [OF assms(1) op refl, of E] assms(4) del by auto
qed

lemma onFrames_spec:
  assumes "assembles s a" "readyState s \<noteq> CLOSED" "\<forall>f\<in>set fs. message_frame f" "builds_control E"
    "diag_inv s" "int (wire_total (isServer s) fs) \<le> diagBytes s"
    "spec_frames (zlib_of E) (maxPayload s) (perMessageDeflate s \<noteq> None) fs a = Some (a', ms)"
  shows "assembles (fst (onFrames E fs s)) a' \<and>
    delivered (trace (fst (onFrames E fs s))) = delivered (trace s) @ ms \<and>
    readyState (fst (onFrames E fs s)) = readyState s"
  using assms
proof (induction fs arbitrary: s a a' ms)
  case Nil
  then show ?case by simp
next
  case (Cons f fs)
  have f: "message_frame f" "control_ok f" using Cons.prems(3) by (auto simp: message_frame_def)
  from onFrames_step [OF Cons.prems(5,6,4) f(2) Cons.prems(2)] obtain s1 s2 :: "'a ws" where
    s2: "onFrames E (f # fs) s = onFrames E fs s2" "quiet s s1" "trace s1 = trace s"
      "readyState s1 = readyState s" "s2 = fst (handleFrame E f s1)" "diag_inv s2"
      "isServer s2 = isServer s" "readyState s2 \<noteq> CLOSED"
      "diagBytes s2 = diagBytes s - int (frame_wire_length (isServer s) f)"
    by metis
  have same: "maxPayload s1 = maxPayload s" "perMessageDeflate s1 = perMessageDeflate s"
      "maxPayload s2 = maxPayload s" "perMessageDeflate s2 = perMessageDeflate s"
    using s2(2) ok_handleFrame [of s1 E f] s2(5) by (simp_all add: ok_step_def quiet_def same_assembly_def)
  from Cons.prems(7) obtain b ms1 ms2 where
    sp: "spec_frame (zlib_of E) (maxPayload s) (perMessageDeflate s \<noteq> None) f a = Some (b, ms1)"
      "spec_frames (zlib_of E) (maxPayload s) (perMessageDeflate s \<noteq> None) fs b = Some (a', ms2)"
      "ms = ms1 @ ms2"
    by (auto split: option.splits)
  have "assembles s2 b \<and> delivered (trace s2) = delivered (trace s) @ ms1 \<and> readyState s2 = readyState s"
    using handleFrame_spec [OF assembles_quiet [OF s2(2) Cons.prems(1)] _ f(1), of E b ms1] sp(1)
      Cons.prems(2) s2 same by simp
  moreover have "int (wire_total (isServer s2) fs) \<le> diagBytes s2"
    using Cons.prems(6) s2 by (simp add: wire_total_def)
  ultimately show ?case
    using Cons.IH [of s2 b a' ms2] Cons.prems(3,4) s2 same sp by simp
qed

text \<open>A read that the parser turns into frames.\<close>

lemma onData_frames:
  assumes "parser_push E (parser s) chunk = (res, p')" "\<not> pr_error res" "readyState s \<noteq> CLOSED" "diag_inv s"
    "int (wire_total (isServer s) (pr_frames res)) \<le> diagBytes s + int (length chunk)"
  obtains t where "onData E chunk s = onFrames E (pr_frames res) t" "quiet s t" "trace t = trace s"
    "readyState t = readyState s" "diag_inv t" "parser t = p'"
    "int (wire_total (isServer t) (pr_frames res)) \<le> diagBytes t"
    "diagBytes t = diagBytes s + int (length chunk)"
    "\<not> diagOverflow s \<Longrightarrow> diagBytes s + int (length chunk) \<le> int DIAG_BUFFER_LIMIT \<Longrightarrow>
      \<not> diagOverflow t \<and> unparsed t = unparsed s @ chunk"
proof -
  define t where "t = (recordDiagnosticBytes chunk s)\<lparr>parser := p'\<rparr>"
  note rec = recordDiagnosticBytes_diag [OF assms(4), of chunk]
  have "diag_inv t" using rec(1) by (auto simp: t_def diag_inv_def split: if_splits)
  moreover have "trace t = trace s" "readyState t = readyState s" "parser t = p'" "same_assembly s t"
    by (simp_all add: t_def recordDiagnosticBytes_def Let_def same_assembly_def)
  moreover from this have "quiet s t" by (simp add: quiet_def)
  ultimately show ?thesis
    using assms rec
    by (intro that [of t])
      (auto simp: onData_def t_def same_assembly_def unparsed_def Let_def)
qed

section \<open>Between two connections\<close>

text \<open>
  The frame one side builds is the frame the other side's parser reads.  This is what the addon
  promises of \<open>buildFrame\<close> and \<open>Parser\<close>: a server expects masked frames, a client unmasked
  ones, and lengths are encoded minimally.
\<close>

definition carries :: "'p native \<Rightarrow> 'q native \<Rightarrow> bool \<Rightarrow> 'q \<Rightarrow> nat \<Rightarrow> byte list \<Rightarrow> nat \<Rightarrow> bool" where
  "carries E F server p opcode payload rsv \<longleftrightarrow>
     (\<forall>n. \<exists>frame res p' f.
        buildFrame E opcode True payload (if server then Some (randomMaskKey E n) else None) rsv = Some frame \<and>
        parser_push F p frame = (res, p') \<and> \<not> pr_error res \<and> pr_frames res = [f] \<and>
        pf_fin f \<and> pf_opcode f = opcode \<and> pf_payload f = payload \<and> frame_rsv f = rsv \<and>
        length frame = frame_wire_length server f)"

text \<open>
  zlib: what one side deflates, the other inflates, under any positive output limit that the data
  respects.  The bytes are those of the sync flush, which end in the trailer; a stream that does
  not end in it is complete, and the trailer appended to it is ignored.
\<close>

definition zlib_ok :: "zlib \<Rightarrow> zlib \<Rightarrow> bool" where
  "zlib_ok y z \<longleftrightarrow>
     (\<forall>d m. 1 \<le> m \<and> length d \<le> m \<longrightarrow>
        inflateRawSync z
          (if \<exists>body. deflateRawSync y d = body @ TRAILER then deflateRawSync y d
           else deflateRawSync y d @ TRAILER) (Some m) = Inr d)"

lemma compressRaw_trailer:
  "compressRaw y d @ TRAILER =
     (if \<exists>body. deflateRawSync y d = body @ TRAILER then deflateRawSync y d
      else deflateRawSync y d @ TRAILER)"
proof -
  let ?c = "deflateRawSync y d"
  have "(\<exists>body. ?c = body @ TRAILER) \<longleftrightarrow> 4 \<le> length ?c \<and> drop (length ?c - 4) ?c = TRAILER"
    by (auto simp: TRAILER_def) (metis append_take_drop_id)
  moreover have "take (length ?c - 4) ?c @ TRAILER = ?c" if "drop (length ?c - 4) ?c = TRAILER"
    using that by (metis append_take_drop_id)
  ultimately show ?thesis by (simp add: compressRaw_def Let_def)
qed

lemma decompress_compress:
  assumes "zlib_ok y z" "length d \<le> m"
  shows "decompressRaw z (compressRaw y d) (Some m) = Inr d"
proof -
  have "1 \<le> max 1 m" "length d \<le> max 1 m" using assms(2) by simp_all
  then have "inflateRawSync z (compressRaw y d @ TRAILER) (Some (max 1 m)) = Inr d"
    using assms(1) unfolding zlib_ok_def compressRaw_trailer by blast
  then show ?thesis using assms(2) by (simp add: decompressRaw_def)
qed

lemma carries_build:
  assumes "carries E F (isServer r) (parser r) opcode payload rsv" "isServer r \<noteq> isServer s"
  obtains frame res p' f t where "build E opcode payload rsv s = (Some frame, t)"
    "parser_push F (parser r) frame = (res, p')" "\<not> pr_error res" "pr_frames res = [f]"
    "pf_fin f" "pf_opcode f = opcode" "pf_payload f = payload" "frame_rsv f = rsv"
    "length frame = frame_wire_length (isServer r) f"
proof -
  have "build E opcode payload rsv s = (buildFrame E opcode True payload
      (if isServer r then Some (randomMaskKey E (maskCount s)) else None) rsv,
      if isServer s then s else s\<lparr>maskCount := Suc (maskCount s)\<rparr>)"
    using assms(2) by (simp add: build_def)
  with assms(1) [unfolded carries_def, rule_format, of "maskCount s"] show ?thesis
    by (elim exE conjE) (rule that, simp_all)
qed

text \<open>What \<open>send\<close> puts on the wire.\<close>

definition sent_frame :: "'p native \<Rightarrow> byte list \<Rightarrow> SendOptions \<Rightarrow> 'p ws \<Rightarrow> byte list \<times> nat" where
  "sent_frame E payload opts s =
     (case perMessageDeflate s of
        Some pmd \<Rightarrow>
          if so_compress opts \<noteq> Some False \<and> length payload \<ge> ap_threshold pmd
          then (compressRaw (zlib_of E) payload, RSV1) else (payload, 0)
      | None \<Rightarrow> (payload, 0))"

lemma send_write:
  assumes "readyState s = OPEN" "send_payload data opts = Some (payload, opcode)"
    "sent_frame E payload opts s = (body, rsv)" "build E opcode body rsv s = (Some frame, t)"
  shows "send E data opts cb s = (emit (SocketWrite frame) t, None)" "trace t = trace s"
  using assms build_change [OF assms(4)]
  by (auto simp: send_def write_frame_def sent_frame_def split: option.splits if_splits)

text \<open>C3: round trip.  A message that an open connection sends, compressed or not, is delivered once and
  unchanged by the other side, as text or binary as it was sent, if that side is between two messages, has
  negotiated the compression too and its limit is not below the size of the message or of its frame,
  and if bytes sent as text are UTF-8.\<close>

theorem send_receive:
  assumes "readyState s = OPEN" "send_payload data opts = Some (payload, opcode)"
    and "opcode = OP_TEXT \<Longrightarrow> validate_text new_Utf8Validator payload"
    and "isServer r \<noteq> isServer s" "readyState r \<noteq> CLOSED" "assembles r None" "diag_inv r"
    and "perMessageDeflate s \<noteq> None \<longrightarrow> perMessageDeflate r \<noteq> None"
    and "zlib_ok (zlib_of E) (zlib_of F)" "builds_control F"
    and "sent_frame E payload opts s = (body, rsv)"
    and "carries E F (isServer r) (parser r) opcode body rsv"
    and "length payload \<le> maxPayload r" "length body \<le> maxPayload r"
  shows "\<exists>frame. trace (fst (send E data opts cb s)) = trace s @ [SocketWrite frame] \<and>
    snd (send E data opts cb s) = None \<and>
    delivered (trace (fst (onData F frame r))) = delivered (trace r) @ [(payload, opcode = OP_BIN)]"
proof -
  obtain frame res p' f t where
    b: "build E opcode body rsv s = (Some frame, t)"
    and f: "parser_push F (parser r) frame = (res, p')" "\<not> pr_error res" "pr_frames res = [f]"
      "pf_fin f" "pf_opcode f = opcode" "pf_payload f = body" "frame_rsv f = rsv"
      "length frame = frame_wire_length (isServer r) f"
    by (rule carries_build [OF assms(12,4)])
  have op: "opcode = OP_TEXT \<or> opcode = OP_BIN" using assms(2) by (cases data) (auto split: if_splits)
  then have mf: "message_frame f" using f(5) by (auto simp: message_frame_def rfc_opcode_def control_ok_def)
  have "int (wire_total (isServer r) (pr_frames res)) \<le> diagBytes r + int (length frame)"
    using assms(7) f by (simp add: wire_total_def diag_inv_def)
  from onData_frames [OF f(1,2) assms(5,7) this] obtain u where
    u: "onData F frame r = onFrames F [f] u" "quiet r u" "trace u = trace r" "readyState u = readyState r"
      "diag_inv u" "int (wire_total (isServer u) [f]) \<le> diagBytes u"
    using f(3) by metis
  have same: "maxPayload u = maxPayload r" "perMessageDeflate u = perMessageDeflate r"
    using u(2) by (simp_all add: quiet_def same_assembly_def)
  have cmp: "complete (zlib_of F) (maxPayload r) opcode (rsv AND RSV1 \<noteq> 0) body = Some payload"
    using assms(3,9,11,13) decompress_compress [OF assms(9,13)]
    by (auto simp: complete_def sent_frame_def split: option.splits if_splits)
  have "rsv AND RSV1 \<noteq> 0 \<longrightarrow> perMessageDeflate r \<noteq> None"
    using assms(8,11) by (auto simp: sent_frame_def split: option.splits if_splits)
  then have "spec_frames (zlib_of F) (maxPayload u) (perMessageDeflate u \<noteq> None) [f] None =
      Some (None, [(payload, opcode = OP_BIN)])"
    using op f cmp assms(14) same by (auto simp: spec_frame_def spec_start_def)
  from onFrames_spec [OF assembles_quiet [OF u(2) assms(6)] _ _ assms(10) u(5,6) this] mf
  have "delivered (trace (fst (onData F frame r))) = delivered (trace r) @ [(payload, opcode = OP_BIN)]"
    using u assms(5) by simp
  moreover note send_write(1) [OF assms(1,2,11) b, of cb] send_write(2) [OF assms(1,2,11) b]
  ultimately show ?thesis by auto
qed

lemma demo_carries:
  assumes "opcode \<in> {OP_CONT, OP_TEXT, OP_BIN, OP_CLOSE, OP_PING, OP_PONG}" "rsv \<in> {0, RSV1}"
    "length payload \<le> 125"
  shows "carries demo_native demo_native server server opcode payload rsv"
  unfolding carries_def demo_native_def demo_parse_def
  using assms by (auto simp: frame_rsv_def frame_wire_length_def rfc_opcode_def Let_def)

lemma demo_builds: "builds_control demo_native"
  by (simp add: builds_control_def demo_native_def)

lemma demo_zlib_ok: "zlib_ok (zlib_of demo_native) (zlib_of demo_native)"
  by (simp add: zlib_ok_def demo_native_def demo_zlib_def TRAILER_def)

lemma new_WebSocket_ready [simp]:
  "assembles (new_WebSocket p server mp st pmd) None" "diag_inv (new_WebSocket p server mp st pmd)"
  "unparsed (new_WebSocket p server mp st pmd) = []" "\<not> diagOverflow (new_WebSocket p server mp st pmd)"
  "isServer (new_WebSocket p server mp st pmd) = server" "parser (new_WebSocket p server mp st pmd) = p"
  "perMessageDeflate (new_WebSocket p server mp st pmd) = pmd"
  "diagBytes (new_WebSocket p server mp st pmd) = 0"
  by (simp_all add: new_WebSocket_def assembles_def diag_inv_def unparsed_def)

theorem send_receive_witness:
  "\<exists>frame. trace (fst (send demo_native (SendString (js ''hi'')) \<lparr>so_binary = None, so_compress = None\<rparr> False
        (new_WebSocket False False (Some 100) None (Some \<lparr>ap_requestNoContextTakeover = True,
          ap_responseNoContextTakeover = True, ap_threshold = 1\<rparr>)))) = [SocketWrite frame] \<and>
    delivered (trace (fst (onData demo_native frame (new_WebSocket True True (Some 100) None
      (Some \<lparr>ap_requestNoContextTakeover = True,
          ap_responseNoContextTakeover = True, ap_threshold = 1\<rparr>))))) = [(buffer_from_utf8 (js ''hi''), False)]"
proof -
  let ?pmd = "\<lparr>ap_requestNoContextTakeover = True, ap_responseNoContextTakeover = True, ap_threshold = 1\<rparr>"
  let ?s = "new_WebSocket False False (Some 100) None (Some ?pmd)"
  let ?r = "new_WebSocket True True (Some 100) None (Some ?pmd)"
  let ?opts = "\<lparr>so_binary = None, so_compress = None\<rparr>"
  have hi: "buffer_from_utf8 (js ''hi'') = [0x68, 0x69]"
    by (simp add: buffer_from_utf8_def utf8_encode_cp_def js_def byte_of_def)
  have body: "sent_frame demo_native (buffer_from_utf8 (js ''hi'')) ?opts ?s = ([0x68, 0x69], RSV1)"
    by (simp add: sent_frame_def hi compressRaw_def demo_native_def demo_zlib_def TRAILER_def)
  have "validate_text new_Utf8Validator (buffer_from_utf8 (js ''hi''))"
    by (rule buffer_from_utf8_valid) (simp add: js_def)
  moreover have "carries demo_native demo_native (isServer ?r) (parser ?r) OP_TEXT [0x68, 0x69] RSV1"
    using demo_carries [of OP_TEXT RSV1 "[0x68, 0x69]" True] by simp
  ultimately have "\<exists>frame. trace (fst (send demo_native (SendString (js ''hi'')) ?opts False ?s)) =
      trace ?s @ [SocketWrite frame] \<and> snd (send demo_native (SendString (js ''hi'')) ?opts False ?s) = None \<and>
      delivered (trace (fst (onData demo_native frame ?r))) =
        delivered (trace ?r) @ [(buffer_from_utf8 (js ''hi''), OP_TEXT = OP_BIN)]"
    by (intro send_receive [OF _ _ _ _ _ _ _ _ demo_zlib_ok demo_builds body]) (simp_all add: hi)
  then show ?thesis by auto
qed

section \<open>The close handshake\<close>

lemma close_sends:
  assumes "readyState s = OPEN" "isValidCloseCode code" "length (buffer_from_utf8 reason) \<le> 123"
    "build E OP_CLOSE (writeUInt16BE code @ buffer_from_utf8 reason) 0 s = (Some frame, t)"
  shows "close E (Some code) (Some reason) s =
    (endSocketSoon ((emit (SocketWrite frame)
       (t\<lparr>readyState := CLOSING, closeCodeSent := Some (CodeNum code)\<rparr>))\<lparr>closeFrameSent := True\<rparr>), None)"
proof -
  have "code < 0x10000" using assms(2) by (auto simp: isValidCloseCode_def split: if_splits)
  moreover have "truncateCloseReason (Some reason) = buffer_from_utf8 reason"
    using assms(3) by (auto simp: truncateCloseReason_def MAX_CLOSE_REASON_BYTES_def buffer_from_utf8_def Let_def)
  ultimately have "encodeClosePayload (Some (CodeNum code)) (Some reason) =
      Inr (writeUInt16BE code @ buffer_from_utf8 reason)"
    by (simp add: encodeClosePayload_def and_0xFFFF)
  then show ?thesis using assms by (simp add: close_def)
qed

text \<open>A close frame with a valid code and reason, read by the other side.\<close>

lemma receive_close:
  assumes "parser_push F (parser r) frame = (res, p')" "\<not> pr_error res" "pr_frames res = [f]"
    "pf_opcode f = OP_CLOSE" "pf_payload f = writeUInt16BE code @ bs"
    "length frame = frame_wire_length (isServer r) f" "readyState r \<noteq> CLOSED" "diag_inv r"
    "isValidCloseCode code" "bs = [] \<and> reason = [] \<or> bs \<noteq> [] \<and> TextDecoder_decode bs = Some reason"
    "builds_control F"
  obtains u where "fst (onData F frame r) = fst (acceptClose F code reason u)" "quiet r u"
    "trace u = trace r" "readyState u = readyState r"
proof -
  have "int (wire_total (isServer r) (pr_frames res)) \<le> diagBytes r + int (length frame)"
    using assms(8) assms(3,6) by (simp add: wire_total_def diag_inv_def)
  from onData_frames [OF assms(1,2,7,8) this] obtain u :: "'a ws" where
    u: "onData F frame r = onFrames F [f] u" "quiet r u" "trace u = trace r"
      "readyState u = readyState r" "diag_inv u" "int (wire_total (isServer u) [f]) \<le> diagBytes u"
    using assms(3) by metis
  have ok: "control_ok f" "readyState u \<noteq> CLOSED" using assms(4,7) u(4) by (simp_all add: control_ok_def)
  obtain s1 s2 :: "'a ws" where
    s: "onFrames F [f] u = onFrames F [] s2" "quiet u s1" "trace s1 = trace u" "readyState s1 = readyState u"
      "s2 = fst (handleFrame F f s1)"
    using onFrames_step [OF u(5,6) assms(11) ok] by metis
  have "code < 0x10000" using assms(9) by (auto simp: isValidCloseCode_def split: if_splits)
  then have code: "readUInt16BE (writeUInt16BE code @ bs) 0 = code" by simp
  have "handleFrame F f s1 = acceptClose F code reason s1"
    using assms(4,5,9,10) code
    by (auto simp: handleFrame_def handleCloseFrame_def Let_def)
  then show ?thesis
    using s u by (intro that [of s1]) (auto intro: quiet_trans)
qed

lemma acceptClose_open:
  assumes "readyState s = OPEN" "isValidCloseCode code" "build F OP_CLOSE (writeUInt16BE code) 0
      (s\<lparr>closeCodeReceived := Some code, closeReasonReceived := reason, readyState := CLOSING\<rparr>) = (Some frame, t)"
  shows "fst (acceptClose F code reason s) =
    endSocketSoon ((emit (SocketWrite frame) t)\<lparr>closeFrameSent := True\<rparr>)"
proof -
  have "code < 0x10000" "code \<noteq> 1005" using assms(2) by (auto simp: isValidCloseCode_def split: if_splits)
  then show ?thesis using assms
    by (simp add: acceptClose_def encodeClosePayload_def truncateCloseReason_def and_0xFFFF
        sendControl_def)
qed

lemma closed_event:
  assumes "readyState s \<noteq> CLOSED" "closeCodeReceived s = Some code" "closeReasonReceived s = reason"
  shows "trace (onSocketClose s) = trace s @ [EmitClose code reason]"
  using assms by (simp add: onSocketClose_change)

text \<open>C7: the close handshake, between two open connections, with a valid code and a well-formed reason of at
  most 123 bytes that does not start with a byte order mark.  The side that calls \<open>close(code, reason)\<close> writes one frame;
  the other side answers it with one frame and both half-close their sockets.  Once the sockets
  have closed, the peer reports exactly the code and the reason, and the caller the echoed code
  with an empty reason.\<close>

theorem close_handshake:
  assumes "readyState s = OPEN" "readyState r = OPEN" "isServer r \<noteq> isServer s"
    and "diag_inv s" "diag_inv r" "builds_control E" "builds_control F"
    and "isValidCloseCode code" "length (buffer_from_utf8 reason) \<le> 123"
    and "well_formed reason" "take 1 reason \<noteq> [0xFEFF]"
    and "carries E F (isServer r) (parser r) OP_CLOSE (writeUInt16BE code @ buffer_from_utf8 reason) 0"
    and "carries F E (isServer s) (parser s) OP_CLOSE (writeUInt16BE code) 0"
  shows "\<exists>ask answer.
    trace (fst (close E (Some code) (Some reason) s)) = trace s @ [SocketWrite ask, SocketEnd None] \<and>
    trace (fst (onData F ask r)) = trace r @ [SocketWrite answer, SocketEnd None] \<and>
    trace (onSocketClose (fst (onData F ask r))) =
      trace r @ [SocketWrite answer, SocketEnd None, EmitClose code reason] \<and>
    trace (onSocketClose (fst (onData E answer (fst (close E (Some code) (Some reason) s))))) =
      trace s @ [SocketWrite ask, SocketEnd None, SocketEnd None, EmitClose code []]"
proof -
  obtain ask res p' f t where
    ask: "build E OP_CLOSE (writeUInt16BE code @ buffer_from_utf8 reason) 0 s = (Some ask, t)"
    and f: "parser_push F (parser r) ask = (res, p')" "\<not> pr_error res" "pr_frames res = [f]"
      "pf_fin f" "pf_opcode f = OP_CLOSE" "pf_payload f = writeUInt16BE code @ buffer_from_utf8 reason"
      "frame_rsv f = 0" "length ask = frame_wire_length (isServer r) f"
    by (rule carries_build [OF assms(12,3)])
  define s' where "s' = fst (close E (Some code) (Some reason) s)"
  have s': "trace s' = trace s @ [SocketWrite ask, SocketEnd None]" "readyState s' = CLOSING"
      "diag_inv s'" "isServer s' = isServer s" "parser s' = parser s"
    unfolding s'_def close_sends [OF assms(1,8,9) ask]
    using build_change [OF ask] ask assms(4)
    by (auto simp: endSocketSoon_def same_assembly_def build_def diag_inv_def split: if_splits)
  have dec: "buffer_from_utf8 reason = [] \<and> reason = [] \<or>
      buffer_from_utf8 reason \<noteq> [] \<and> TextDecoder_decode (buffer_from_utf8 reason) = Some reason"
    using TextDecoder_roundtrip [OF assms(10,11)]
    by (cases "buffer_from_utf8 reason = []") (auto simp: TextDecoder_decode_def)
  obtain u where u: "fst (onData F ask r) = fst (acceptClose F code reason u)" "quiet r u"
      "trace u = trace r" "readyState u = readyState r"
    by (rule receive_close [OF f(1,2,3,5,6,8) _ assms(5,8) dec assms(7)]) (use assms(2) in simp)
  define v where "v = u\<lparr>closeCodeReceived := Some code, closeReasonReceived := reason, readyState := CLOSING\<rparr>"
  have vs: "isServer s \<noteq> isServer v" using u(2) assms(3) by (simp add: v_def quiet_def same_assembly_def)
  obtain answer res2 p2 f2 w where
    answer: "build F OP_CLOSE (writeUInt16BE code) 0 v = (Some answer, w)"
    and f2: "parser_push E (parser s) answer = (res2, p2)" "\<not> pr_error res2" "pr_frames res2 = [f2]"
      "pf_fin f2" "pf_opcode f2 = OP_CLOSE" "pf_payload f2 = writeUInt16BE code"
      "frame_rsv f2 = 0" "length answer = frame_wire_length (isServer s) f2"
    by (rule carries_build [OF assms(13) vs])
  have r': "fst (onData F ask r) = endSocketSoon ((emit (SocketWrite answer) w)\<lparr>closeFrameSent := True\<rparr>)"
    using acceptClose_open [of u code F reason answer w] u assms(2,8) answer by (simp add: v_def)
  have w: "trace w = trace r" "readyState w = CLOSING" "closeCodeReceived w = Some code"
      "closeReasonReceived w = reason"
    using build_change [OF answer] u by (auto simp: v_def)
  obtain x where x: "fst (onData E answer s') = fst (acceptClose E code [] x)" "quiet s' x"
      "trace x = trace s'" "readyState x = readyState s'"
    by (rule receive_close [of E s' answer res2 p2 f2 code "[]" "[]"])
      (use f2 s' assms(6,8) in simp_all)
  have s'': "fst (onData E answer s') =
      endSocketSoon (x\<lparr>closeCodeReceived := Some code, closeReasonReceived := []\<rparr>)"
    using x s' by (simp add: acceptClose_def)
  show ?thesis
    unfolding s'_def [symmetric]
    by (rule exI [of _ ask], rule exI [of _ answer], insert s' w x(3,4))
      (simp add: r' s'' closed_event endSocketSoon_def)
qed

theorem close_handshake_witness:
  "\<exists>ask answer.
    trace (onSocketClose (fst (onData demo_native ask (new_WebSocket True True (Some 100) None None)))) =
      [SocketWrite answer, SocketEnd None, EmitClose 4000 (js ''bye'')]"
proof -
  let ?s = "new_WebSocket False False (Some 100) None None" and ?r = "new_WebSocket True True (Some 100) None None"
  have bye: "buffer_from_utf8 (js ''bye'') = [0x62, 0x79, 0x65]"
    by (simp add: buffer_from_utf8_def utf8_encode_cp_def js_def byte_of_def)
  have "carries demo_native demo_native (isServer ?r) (parser ?r) OP_CLOSE
      (writeUInt16BE 4000 @ buffer_from_utf8 (js ''bye'')) 0"
    "carries demo_native demo_native (isServer ?s) (parser ?s) OP_CLOSE (writeUInt16BE 4000) 0"
    using demo_carries [of OP_CLOSE 0 "writeUInt16BE 4000 @ buffer_from_utf8 (js ''bye'')" True]
      demo_carries [of OP_CLOSE 0 "writeUInt16BE 4000" False] by (simp_all add: bye)
  note hs = close_handshake [OF _ _ _ _ _ demo_builds demo_builds _ _ _ _ this]
  have "length (buffer_from_utf8 (js ''bye'')) \<le> 123" by (simp add: bye)
  moreover have "isValidCloseCode 4000" "well_formed (js ''bye'')" "take 1 (js ''bye'') \<noteq> [0xFEFF]"
    by (simp_all add: isValidCloseCode_def js_def)
  ultimately show ?thesis using hs by (simp del: take_Suc) blast
qed

section \<open>Properties of a read\<close>

text \<open>C2: refinement.  When the frames of a read are a legal continuation of the message under
  assembly, the connection delivers exactly the messages of the abstract reassembler, in order,
  with pings and pongs between the fragments, and its state is again an implementation of the
  reassembler's; no exception escapes.\<close>

theorem onData_refines_reassembler:
  assumes "assembles s a" "readyState s \<noteq> CLOSED" "builds_control E" "diag_inv s"
    and "parser_push E (parser s) chunk = (res, p')" "\<not> pr_error res" "\<forall>f\<in>set (pr_frames res). message_frame f"
    and "int (wire_total (isServer s) (pr_frames res)) \<le> diagBytes s + int (length chunk)"
    and "spec_frames (zlib_of E) (maxPayload s) (perMessageDeflate s \<noteq> None) (pr_frames res) a = Some (a', ms)"
  shows "snd (onData E chunk s) = None \<and> assembles (fst (onData E chunk s)) a' \<and>
    delivered (trace (fst (onData E chunk s))) = delivered (trace s) @ ms \<and>
    readyState (fst (onData E chunk s)) = readyState s"
proof -
  obtain t where t: "onData E chunk s = onFrames E (pr_frames res) t" "quiet s t" "trace t = trace s"
    "readyState t = readyState s" "diag_inv t" "int (wire_total (isServer t) (pr_frames res)) \<le> diagBytes t"
    using onData_frames [OF assms(5,6,2,4,8)] by metis
  have same: "maxPayload t = maxPayload s" "perMessageDeflate t = perMessageDeflate s"
    using t(2) by (simp_all add: quiet_def same_assembly_def)
  have "\<forall>f\<in>set (pr_frames res). control_ok f" using assms(7) by (simp add: message_frame_def)
  then have "snd (onFrames E (pr_frames res) t) = None"
    using onFrames_diag [OF t(5,6) assms(3)] t(4) assms(2) by simp
  with onFrames_spec [OF assembles_quiet [OF t(2) assms(1)] _ assms(7,3) t(5,6), of a' ms]
  show ?thesis using t assms(2,9) same by simp
qed

text \<open>A text message in three fragments, a ping between them, in one read.\<close>

definition demo_fragments :: "ParsedFrame list" where
  "demo_fragments =
     [\<lparr>pf_fin = False, pf_opcode = OP_TEXT, pf_payload = [0x68], pf_rsv = None\<rparr>,
      \<lparr>pf_fin = True, pf_opcode = OP_PING, pf_payload = [], pf_rsv = None\<rparr>,
      \<lparr>pf_fin = False, pf_opcode = OP_CONT, pf_payload = [], pf_rsv = None\<rparr>,
      \<lparr>pf_fin = True, pf_opcode = OP_CONT, pf_payload = [0x69], pf_rsv = None\<rparr>]"

definition demo_batch :: "bool native" where
  "demo_batch = demo_native\<lparr>parser_push := \<lambda>p chunk.
     (\<lparr>pr_frames = demo_fragments, pr_error = False, pr_code = None, pr_message = None\<rparr>, p)\<rparr>"

theorem onData_refines_reassembler_witness:
  "delivered (trace (fst (onData demo_batch (replicate 10 0) (new_WebSocket False False (Some 100) None None)))) =
    [([0x68, 0x69], False)]"
proof -
  let ?s = "new_WebSocket False False (Some 100) None None"
  have "validate_text new_Utf8Validator [0x68, 0x69]" by (simp add: new_Utf8Validator_def utf8_byte_def)
  then have "spec_frames (zlib_of demo_batch) 100 False demo_fragments None = Some (None, [([0x68, 0x69], False)])"
    by (simp add: demo_fragments_def spec_frame_def spec_start_def frame_rsv_def complete_def)
  moreover have "builds_control demo_batch" using demo_builds by (simp add: builds_control_def demo_batch_def)
  moreover have "parser_push demo_batch (parser ?s) (replicate 10 0) =
      (\<lparr>pr_frames = demo_fragments, pr_error = False, pr_code = None, pr_message = None\<rparr>, False)"
    by (simp add: demo_batch_def)
  moreover have "\<forall>f\<in>set demo_fragments. message_frame f"
    by (simp add: demo_fragments_def message_frame_def rfc_opcode_def control_ok_def)
  moreover have "wire_total False demo_fragments = 10"
    by (simp add: wire_total_def demo_fragments_def frame_wire_length_def)
  ultimately show ?thesis
    using onData_refines_reassembler [of ?s None demo_batch "replicate 10 0" _ False None "[([0x68, 0x69], False)]"] by simp
qed

lemma handleFrame_violation:
  assumes "assembles s a" "readyState s \<noteq> CLOSED" "pf_opcode f \<in> {OP_CONT, OP_TEXT, OP_BIN}" "builds_control E"
    "pmd = (perMessageDeflate s \<noteq> None)"
  shows "case violation (zlib_of E) (maxPayload s) pmd f a of
      Some (code, reason) \<Rightarrow>
        spec_frame (zlib_of E) (maxPayload s) pmd f a = None \<and>
        (\<exists>payload frame. encodeClosePayload (Some code) (Some reason) = Inr payload \<and>
          buildFrame E OP_CLOSE True payload (mask_key E s) 0 = Some frame \<and>
          trace (fst (handleFrame E f s)) = trace s @ [EmitError code reason, SocketEnd (Some frame)] \<and>
          readyState (fst (handleFrame E f s)) = CLOSING)
    | None \<Rightarrow> \<exists>a' ms.
        spec_frame (zlib_of E) (maxPayload s) pmd f a = Some (a', ms) \<and>
        trace (fst (handleFrame E f s)) = trace s @ map (\<lambda>(d, b). EmitMessage d b) ms \<and>
        readyState (fst (handleFrame E f s)) = readyState s"
proof -
  have h: "handleFrame E f s = (handleDataFrame E f s, None)" using assms(3) by (intro handleFrame_data) auto
  note spec = handleDataFrame_spec [OF assms(1,3,5), of E]
  show ?thesis
  proof (cases "violation (zlib_of E) (maxPayload s) pmd f a")
    case None
    then show ?thesis using spec h by auto
  next
    case (Some cr)
    obtain code reason where cr: "cr = (code, reason)" by (cases cr)
    with spec Some obtain t where t: "handleDataFrame E f s = failConnection E code reason t"
      "trace t = trace s" "readyState t = readyState s" "mask_key E t = mask_key E s" by auto
    have "readyState t \<noteq> CLOSED" using t(3) assms(2) by simp
    then obtain payload frame where "encodeClosePayload (Some code) (Some reason) = Inr payload"
      "buildFrame E OP_CLOSE True payload (mask_key E t) 0 = Some frame"
      "trace (failConnection E code reason t) = trace t @ [EmitError code reason, SocketEnd (Some frame)]"
      "readyState (failConnection E code reason t) = CLOSING"
      by (rule failConnection_frame [OF assms(4)])
    moreover have "spec_frame (zlib_of E) (maxPayload s) pmd f a = None"
      using violation_spec [OF assms(3), of "zlib_of E" "maxPayload s" pmd a] Some
      by (simp del: not_None_eq)
    ultimately show ?thesis using h t Some cr by auto
  qed
qed

text \<open>C9: error behaviour.  A data frame that the abstract reassembler rejects (a fragment out of
  place, RSV bits not negotiated, a message above the cap, a payload that does not inflate, text
  that is not UTF-8) is answered with one error event and one close frame, both with the code and
  the reason of that violation; the frame ends the socket, the connection is closing and nothing
  is delivered.  A frame that it accepts delivers the completed message and nothing else, and the
  ready state stays.\<close>

theorem data_frame_errors:
  assumes "assembles s a" "readyState s \<noteq> CLOSED" "pf_opcode f \<in> {OP_CONT, OP_TEXT, OP_BIN}" "builds_control E"
  shows "case violation (zlib_of E) (maxPayload s) (perMessageDeflate s \<noteq> None) f a of
      Some (code, reason) \<Rightarrow>
        spec_frame (zlib_of E) (maxPayload s) (perMessageDeflate s \<noteq> None) f a = None \<and>
        (\<exists>payload frame. encodeClosePayload (Some code) (Some reason) = Inr payload \<and>
          buildFrame E OP_CLOSE True payload (mask_key E s) 0 = Some frame \<and>
          trace (fst (handleFrame E f s)) = trace s @ [EmitError code reason, SocketEnd (Some frame)] \<and>
          readyState (fst (handleFrame E f s)) = CLOSING)
    | None \<Rightarrow> \<exists>a' ms.
        spec_frame (zlib_of E) (maxPayload s) (perMessageDeflate s \<noteq> None) f a = Some (a', ms) \<and>
        trace (fst (handleFrame E f s)) = trace s @ map (\<lambda>(d, b). EmitMessage d b) ms \<and>
        readyState (fst (handleFrame E f s)) = readyState s"
  by (rule handleFrame_violation [OF assms refl])

theorem data_frame_errors_witness:
  "\<exists>frame. trace (fst (handleFrame demo_native
      \<lparr>pf_fin = True, pf_opcode = OP_CONT, pf_payload = [1], pf_rsv = None\<rparr>
      (new_WebSocket True True (Some 100) None None))) =
    [EmitError (CodeNum 1002) (js ''Continuation frame without active message''), SocketEnd (Some frame)]"
  using data_frame_errors [of "new_WebSocket True True (Some 100) None None" None
      "\<lparr>pf_fin = True, pf_opcode = OP_CONT, pf_payload = [1], pf_rsv = None\<rparr>" demo_native] demo_builds
  by (auto simp: violation_def)

text \<open>The diagnostic buffer follows the parser.  After a read whose frames account for some
  of the pending bytes, the buffer holds exactly the bytes behind them, as long as the pending
  bytes stay within the budget.\<close>

lemma diagnostic_bytes_unparsed:
  assumes "readyState s \<noteq> CLOSED" "builds_control E" "diag_inv s" "\<not> diagOverflow s"
    and "length (unparsed s) + length chunk \<le> DIAG_BUFFER_LIMIT"
    and "parser_push E (parser s) chunk = (res, p')" "\<not> pr_error res" "\<forall>f\<in>set (pr_frames res). control_ok f"
    and "wire_total (isServer s) (pr_frames res) \<le> length (unparsed s) + length chunk"
  shows "diag_inv (fst (onData E chunk s)) \<and> \<not> diagOverflow (fst (onData E chunk s)) \<and>
    unparsed (fst (onData E chunk s)) = drop (wire_total (isServer s) (pr_frames res)) (unparsed s @ chunk)"
proof -
  have d: "diagBytes s = int (length (unparsed s))" using assms(3,4) by (simp add: diag_inv_def unparsed_def)
  have "int (wire_total (isServer s) (pr_frames res)) \<le> diagBytes s + int (length chunk)"
    using assms(9) d by simp
  from onData_frames [OF assms(6,7,1,3) this] obtain t :: "'a ws" where
    t: "onData E chunk s = onFrames E (pr_frames res) t" "quiet s t" "readyState t = readyState s" "diag_inv t"
      "int (wire_total (isServer t) (pr_frames res)) \<le> diagBytes t"
      "\<not> diagOverflow t \<and> unparsed t = unparsed s @ chunk"
    using assms(4,5) d by (metis of_nat_add of_nat_le_iff)
  have "isServer t = isServer s" using t(2) by (simp add: quiet_def same_assembly_def)
  with onFrames_diag [OF t(4,5) assms(2,8)] t assms(1) show ?thesis by simp
qed

text \<open>An oversized frame is reported with its real size.  When the pending bytes are any
  number of acceptable frames followed by the header of a data frame above the cap, and the
  parser refuses them with code 1009, the error the listeners get names the payload size that
  header announces, the message type and the cap.\<close>

lemma oversized_frame_reported:
  assumes "readyState s \<noteq> CLOSED" "diag_inv s" "\<not> diagOverflow s" "chunk \<noteq> []"
    and "length (unparsed s) + length chunk \<le> DIAG_BUFFER_LIMIT"
    and "unparsed s @ chunk = concat (map wire fs) @ wire_header first mk len @ rest"
    and "\<forall>f\<in>set fs. length (wf_payload f) \<le> maxPayload s \<and> length (wf_payload f) < 2 ^ 53 \<and> mask_ok (wf_mask f)"
    and "maxPayload s < len" "len < 2 ^ 53" "mask_ok mk" "unat first mod 16 = op" "op = OP_TEXT \<or> op = OP_BIN"
    and "parser_push E (parser s) chunk = (res, p')" "pr_error res" "pr_code res = Some 1009"
      "pr_message res = Some message" "message \<noteq> []"
  shows "\<exists>frame. trace (fst (onData E chunk s)) = trace s @
    [EmitError (CodeNum 1009) (message @ js '': '' @ decimal len @ js '' B '' @ opcodeLabel op @
       js '' frame exceeds the '' @ decimal (maxPayload s) @ js '' byte limit (maxPayloadBytes)''),
     SocketEnd frame]"
proof -
  define t where "t = (recordDiagnosticBytes chunk s)\<lparr>parser := p'\<rparr>"
  have d: "diagBytes s = int (length (unparsed s))" using assms(2,3) by (simp add: diag_inv_def unparsed_def)
  note rec = recordDiagnosticBytes_diag [OF assms(2), of chunk]
  have t: "\<not> diagOverflow t" "unparsed t = unparsed s @ chunk" "diagBytes t = int (length (unparsed s @ chunk))"
    "maxPayload t = maxPayload s" "trace t = trace s" "readyState t = readyState s"
    using rec(2,3) assms(3,5) d
    by (simp_all add: t_def unparsed_def) (simp_all add: recordDiagnosticBytes_def Let_def)
  have "join_chunks (diagChunks t) (nat (diagBytes t)) = unparsed s @ chunk"
    using t(2,3) join_chunks_concat [of "diagChunks t"]
    by (simp add: unparsed_def nat_int_add)
  moreover have "diagChunks t \<noteq> []" using t(2) assms(4) by (auto simp: unparsed_def)
  ultimately have "scanDiagnosticBytes t = Some \<lparr>fh_opcode = op, fh_payloadBytes = len\<rparr>"
    using t scan_finds [OF assms(7-12), of rest] assms(6) by (simp add: scanDiagnosticBytes_def)
  then have desc: "describeParseError res t =
      (message @ js '': '' @ decimal len @ js '' B '' @ opcodeLabel op @
       js '' frame exceeds the '' @ decimal (maxPayload s) @ js '' byte limit (maxPayloadBytes)'',
       resetDiagnosticBytes t)"
    using assms(15-17) t by (simp add: describeParseError_def)
  have r: "readyState (resetDiagnosticBytes t) \<noteq> CLOSED" "trace (resetDiagnosticBytes t) = trace s"
    using t assms(1) by (simp_all add: resetDiagnosticBytes_def)
  show ?thesis
    using failConnection_change [of "resetDiagnosticBytes t" E "CodeNum 1009"] r assms(1,13,14,15) desc
    by (auto simp: onData_def Let_def simp flip: t_def)
qed

end
