(* ===== verification/Ws_Handshake.thy ===== *)
theory Ws_Handshake
  imports Ws_Session
begin

text \<open>
  The opening handshake: \<open>WebSocketServer\<close> (packages/websocket/src/server.ts) and
  \<open>WebSocketClient\<close> (client.ts).  Node's HTTP parser hands the server a request with lower-case
  header names; the client reads the response itself.  \<open>computeAcceptKey\<close> and the parser
  constructor of the native addon, the URL parser and the random key are parameters.
\<close>

unbundle bit_operations_syntax

section \<open>Text on the socket\<close>

text \<open>A string written to a socket is sent as UTF-8; \<open>toString('latin1')\<close> reads bytes as characters.\<close>

definition socket_text :: "string \<Rightarrow> byte list" where
  "socket_text s = buffer_from_utf8 (js s)"

definition latin1 :: "byte list \<Rightarrow> string" where
  "latin1 bs = map (\<lambda>b. char_of (unat b)) bs"

abbreviation (input) CRLF :: string where
  "CRLF \<equiv> [CHR 0x0D, CHR 0x0A]"

text \<open>\<open>indexOf\<close> and \<open>split\<close> with a separator of several characters.\<close>

fun find_sub :: "'a list \<Rightarrow> 'a list \<Rightarrow> nat option" where
  "find_sub sep xs =
     (if take (length sep) xs = sep then Some 0
      else case xs of [] \<Rightarrow> None | _ # ys \<Rightarrow> map_option Suc (find_sub sep ys))"

declare find_sub.simps [simp del]

lemma find_sub_bound: "find_sub sep xs = Some i \<Longrightarrow> i + length sep \<le> length xs"
proof (induction xs arbitrary: i)
  case Nil
  then show ?case by (auto simp: find_sub.simps [of sep "[]"] split: if_splits)
next
  case (Cons x xs)
  then show ?case
    by (auto simp: find_sub.simps [of sep "x # xs"] split: if_splits)
      (metis length_Cons length_take min.cobounded1)
qed

lemma find_sub_drop:
  assumes "find_sub sep xs = Some i" "sep \<noteq> []"
  shows "length (drop (i + length sep) xs) < length xs"
  using find_sub_bound [OF assms(1)] assms(2) by (cases sep) auto

function split_str :: "'a list \<Rightarrow> 'a list \<Rightarrow> 'a list list" where
  "split_str sep xs =
     (case find_sub sep xs of
        None \<Rightarrow> [xs]
      | Some i \<Rightarrow> if sep = [] then [xs] else take i xs # split_str sep (drop (i + length sep) xs))"
  by pat_completeness auto
termination
  by (relation "measure (\<lambda>(sep, xs). length xs)") (auto simp del: length_drop intro: find_sub_drop)

declare split_str.simps [simp del]

text \<open>\<open>/\bupgrade\b/i\<close>\<close>

definition word_char :: "char \<Rightarrow> bool" where
  "word_char c = (let n = (of_char c :: nat) in
     (48 \<le> n \<and> n \<le> 57) \<or> (65 \<le> n \<and> n \<le> 90) \<or> (97 \<le> n \<and> n \<le> 122) \<or> n = 95)"

fun has_word_from :: "bool \<Rightarrow> string \<Rightarrow> string \<Rightarrow> bool" where
  "has_word_from in_word w s =
     ((\<not> in_word \<and> take (length w) s = w \<and>
       (case drop (length w) s of [] \<Rightarrow> True | c # _ \<Rightarrow> \<not> word_char c)) \<or>
      (case s of [] \<Rightarrow> False | c # cs \<Rightarrow> has_word_from (word_char c) w cs))"

declare has_word_from.simps [simp del]

definition has_upgrade :: "string \<Rightarrow> bool" where
  "has_upgrade s = has_word_from False ''upgrade'' (toLowerCase s)"

section \<open>The server's side of an upgrade\<close>

text \<open>\<open>http.STATUS_CODES\<close>\<close>

definition STATUS_CODES :: "(nat \<times> string) list" where
  "STATUS_CODES =
    [(100, ''Continue''), (101, ''Switching Protocols''), (102, ''Processing''), (103, ''Early Hints''),
     (200, ''OK''), (201, ''Created''), (202, ''Accepted''), (203, ''Non-Authoritative Information''),
     (204, ''No Content''), (205, ''Reset Content''), (206, ''Partial Content''), (207, ''Multi-Status''),
     (208, ''Already Reported''), (226, ''IM Used''), (300, ''Multiple Choices''),
     (301, ''Moved Permanently''), (302, ''Found''), (303, ''See Other''), (304, ''Not Modified''),
     (305, ''Use Proxy''), (307, ''Temporary Redirect''), (308, ''Permanent Redirect''),
     (400, ''Bad Request''), (401, ''Unauthorized''), (402, ''Payment Required''), (403, ''Forbidden''),
     (404, ''Not Found''), (405, ''Method Not Allowed''), (406, ''Not Acceptable''),
     (407, ''Proxy Authentication Required''), (408, ''Request Timeout''), (409, ''Conflict''),
     (410, ''Gone''), (411, ''Length Required''), (412, ''Precondition Failed''),
     (413, ''Payload Too Large''), (414, ''URI Too Long''), (415, ''Unsupported Media Type''),
     (416, ''Range Not Satisfiable''), (417, ''Expectation Failed''),
     (418, ''I'' @ [CHR 0x27] @ ''m a Teapot''), (421, ''Misdirected Request''),
     (422, ''Unprocessable Entity''), (423, ''Locked''), (424, ''Failed Dependency''), (425, ''Too Early''),
     (426, ''Upgrade Required''), (428, ''Precondition Required''), (429, ''Too Many Requests''),
     (431, ''Request Header Fields Too Large''), (451, ''Unavailable For Legal Reasons''),
     (500, ''Internal Server Error''), (501, ''Not Implemented''), (502, ''Bad Gateway''),
     (503, ''Service Unavailable''), (504, ''Gateway Timeout''), (505, ''HTTP Version Not Supported''),
     (506, ''Variant Also Negotiates''), (507, ''Insufficient Storage''), (508, ''Loop Detected''),
     (509, ''Bandwidth Limit Exceeded''), (510, ''Not Extended''), (511, ''Network Authentication Required'')]"

datatype up_effect = UpWrite "byte list" | UpDestroy

text \<open>An undefined or empty message falls back to the status text.\<close>

definition abort_body :: "nat \<Rightarrow> jstr option \<Rightarrow> jstr" where
  "abort_body status message =
     (case message of
        Some m \<Rightarrow> if m \<noteq> [] then m
                   else js (case map_of STATUS_CODES status of None \<Rightarrow> [] | Some t \<Rightarrow> t)
      | None \<Rightarrow> js (case map_of STATUS_CODES status of None \<Rightarrow> [] | Some t \<Rightarrow> t))"

text \<open>\<open>try { socket.write(text) } catch {}\<close>, then \<open>socket.destroy()\<close>.\<close>

definition write_destroy :: "bool \<Rightarrow> byte list \<Rightarrow> up_effect list" where
  "write_destroy write_throws bytes = (if write_throws then [] else [UpWrite bytes]) @ [UpDestroy]"

definition abortUpgrade :: "bool \<Rightarrow> nat \<Rightarrow> jstr option \<Rightarrow> up_effect list" where
  "abortUpgrade write_throws status message =
     (let body = abort_body status message;
          head = js ''HTTP/1.1 '' @ decimal status @ js '' '' @
            js (case map_of STATUS_CODES status of None \<Rightarrow> ''Error'' | Some t \<Rightarrow> t) @ js CRLF @
            js ''Connection: close'' @ js CRLF @
            js ''Content-Length: '' @ decimal (length (buffer_from_utf8 body)) @ js CRLF @
            js ''Content-Type: text/plain'' @ js CRLF @ js CRLF
      in write_destroy write_throws (buffer_from_utf8 (head @ body)))"

datatype header_value = HString string | HArray "string list"

record upgrade_request =
  rq_method :: string
  rq_url :: "string option"
  rq_upgrade :: "string option"
  rq_connection :: "header_value option"
  rq_version :: "string option"
  rq_key :: "string option"
  rq_extensions :: "string option"
  rq_protocol :: "string option"
  rq_origin :: "string option"

text \<open>
  \<open>verifyClient\<close> with one argument answers at once; with two it calls back, here exactly once
  and before the socket has other events.
\<close>

record verify_info =
  vi_origin :: "string option"
  vi_secure :: bool
  vi_req :: upgrade_request

datatype verify_client =
    NoVerify
  | VerifySync "verify_info \<Rightarrow> bool"
  | VerifyCallback "verify_info \<Rightarrow> bool \<times> nat option \<times> jstr option"

record server_options =
  so_path :: "string option"
  so_maxPayload :: "nat option"
  so_verifyClient :: verify_client
  so_protocols :: protocols_option
  so_perMessageDeflate :: pmd_option

record 'p addon =
  ad_native :: "'p native"
  computeAcceptKey :: "string \<Rightarrow> string"
  newParser :: "bool \<Rightarrow> nat \<Rightarrow> nat \<Rightarrow> 'p"     \<comment> \<open>isServer, maxPayload, allowedRsv\<close>

text \<open>\<open>new WebSocket(socket, options)\<close> with the parser its constructor makes.\<close>

definition make_WebSocket ::
    "'p addon \<Rightarrow> bool \<Rightarrow> nat option \<Rightarrow> accepted_pmd option \<Rightarrow> 'p ws" where
  "make_WebSocket A server maxP pmd =
     new_WebSocket
       (newParser A server (case maxP of None \<Rightarrow> DEFAULT_MAX_PAYLOAD_BYTES | Some m \<Rightarrow> m)
          (if pmd = None then 0 else RSV1))
       server maxP (Some OPEN) pmd"

definition key_char :: "char \<Rightarrow> bool" where
  "key_char c = (let n = (of_char c :: nat) in
     n = 43 \<or> n = 47 \<or> (48 \<le> n \<and> n \<le> 57) \<or> (65 \<le> n \<and> n \<le> 90) \<or> (97 \<le> n \<and> n \<le> 122))"

definition valid_key :: "string \<Rightarrow> bool" where
  "valid_key key \<longleftrightarrow> length key = 24 \<and> list_all key_char (take 22 key) \<and> drop 22 key = ''==''"

text \<open>\<open>doAccept\<close>: the response, and the connection unless the write throws.\<close>

definition accept_response ::
    "'p addon \<Rightarrow> server_options \<Rightarrow> upgrade_request \<Rightarrow> string \<Rightarrow> string" where
  "accept_response A opts req key =
     join_with CRLF
       ([''HTTP/1.1 101 Switching Protocols'', ''Upgrade: websocket'', ''Connection: Upgrade'',
         ''Sec-WebSocket-Accept: '' @ computeAcceptKey A key] @
        (case acceptPerMessageDeflate (rq_extensions req) (so_perMessageDeflate opts) of
           None \<Rightarrow> [] | Some (hdr, _) \<Rightarrow> [''Sec-WebSocket-Extensions: '' @ hdr]) @
        (case chooseSubprotocol (rq_protocol req) (so_protocols opts) of
           None \<Rightarrow> [] | Some p \<Rightarrow> if p = [] then [] else [''Sec-WebSocket-Protocol: '' @ p])) @
     CRLF @ CRLF"

record 'p accepted =
  ac_ws :: "'p ws"
  ac_protocol :: string
  ac_error :: "ws_error option"    \<comment> \<open>an exception of \<open>_onData(head)\<close>, which skips the callback\<close>

definition doAccept ::
    "'p addon \<Rightarrow> server_options \<Rightarrow> bool \<Rightarrow> upgrade_request \<Rightarrow> string \<Rightarrow> byte list \<Rightarrow>
     up_effect list \<times> 'p accepted option" where
  "doAccept A opts write_throws req key head =
     (if write_throws then ([UpDestroy], None)
      else
        let pmd = map_option snd (acceptPerMessageDeflate (rq_extensions req) (so_perMessageDeflate opts));
            ws = make_WebSocket A True (so_maxPayload opts) pmd;
            r = (if head = [] then (ws, None) else onData (ad_native A) head ws)
        in ([UpWrite (socket_text (accept_response A opts req key))],
            Some \<lparr>ac_ws = fst r,
                  ac_protocol = (case chooseSubprotocol (rq_protocol req) (so_protocols opts) of
                    None \<Rightarrow> [] | Some p \<Rightarrow> p),
                  ac_error = snd r\<rparr>))"

definition handleUpgrade ::
    "'p addon \<Rightarrow> server_options \<Rightarrow> bool \<Rightarrow> bool \<Rightarrow> upgrade_request \<Rightarrow> byte list \<Rightarrow>
     up_effect list \<times> 'p accepted option" where
  "handleUpgrade A opts write_throws secure req head =
     (let upgrade = toLowerCase (case rq_upgrade req of None \<Rightarrow> [] | Some u \<Rightarrow> u);
          connection = toLowerCase (case rq_connection req of
             None \<Rightarrow> [] | Some (HString s) \<Rightarrow> s | Some (HArray ss) \<Rightarrow> join_with '','' ss);
          refuse = (\<lambda>status message. (abortUpgrade write_throws status message, None))
      in
        if rq_method req \<noteq> ''GET'' then refuse 405 (Some (js ''Method not allowed''))
        else if upgrade \<noteq> ''websocket'' then refuse 400 (Some (js ''Upgrade header must be websocket''))
        else if \<not> has_upgrade connection then
          refuse 400 (Some (js (''Connection header must contain '' @ [CHR 0x22] @ ''upgrade'' @ [CHR 0x22])))
        else if rq_version req \<noteq> Some ''13'' then
          (write_destroy write_throws (socket_text (''HTTP/1.1 426 Upgrade Required'' @ CRLF @
              ''Sec-WebSocket-Version: 13'' @ CRLF @ ''Connection: close'' @ CRLF @ CRLF)), None)
        else
          case rq_key req of
            None \<Rightarrow> refuse 400 (Some (js ''Invalid Sec-WebSocket-Key''))
          | Some key \<Rightarrow>
              if \<not> valid_key key then refuse 400 (Some (js ''Invalid Sec-WebSocket-Key''))
              else
                let info = \<lparr>vi_origin = rq_origin req, vi_secure = secure, vi_req = req\<rparr>;
                    go = doAccept A opts write_throws req key head
                in case so_verifyClient opts of
                     NoVerify \<Rightarrow> go
                   | VerifySync f \<Rightarrow> if \<not> f info then refuse 401 (Some (js ''Unauthorized'')) else go
                   | VerifyCallback f \<Rightarrow>
                       (case f info of
                          (allow, code, message) \<Rightarrow>
                            if \<not> allow
                            then refuse (case code of None \<Rightarrow> 401 | Some c \<Rightarrow> if c = 0 then 401 else c) message
                            else go))"

section \<open>The server\<close>

text \<open>
  The TLS options of a server: the known keys that are set on the options object, overridden by
  the entries of its \<open>tls\<close> object.  Values are opaque.
\<close>

definition TLS_OPTION_KEYS :: "string list" where
  "TLS_OPTION_KEYS =
     [''ALPNProtocols'', ''SNICallback'', ''ca'', ''cert'', ''ciphers'', ''clientCertEngine'', ''crl'',
      ''dhparam'', ''ecdhCurve'', ''honorCipherOrder'', ''key'', ''maxVersion'', ''minVersion'',
      ''passphrase'', ''pfx'', ''privateKeyEngine'', ''privateKeyIdentifier'', ''requestCert'',
      ''rejectUnauthorized'', ''secureOptions'', ''secureProtocol'', ''sessionIdContext'', ''sigalgs'',
      ''ticketKeys'']"

definition getTlsOptions ::
    "(string \<times> 'v) list \<Rightarrow> (string \<times> 'v) list option \<Rightarrow> (string \<times> 'v) list" where
  "getTlsOptions options tls =
     fold (\<lambda>(k, v) m. AList.update k v m) (case tls of None \<Rightarrow> [] | Some entries \<Rightarrow> entries)
       (List.map_filter (\<lambda>key. map_option (Pair key) (map_of options key)) TLS_OPTION_KEYS)"

lemma getTlsOptions_None:
  "map_of (getTlsOptions options None) k = (if k \<in> set TLS_OPTION_KEYS then map_of options k else None)"
proof -
  have "map_of (List.map_filter (\<lambda>key. map_option (Pair key) (map_of options key)) keys) k =
      (if k \<in> set keys then map_of options k else None)" for keys
    by (induction keys) (auto simp: List.map_filter_def split: option.splits)
  then show ?thesis by (simp add: getTlsOptions_def)
qed

datatype server_effect =
    EmitConnection nat | HttpListen nat | HttpClose | HttpCloseAllConnections
  | OnUpgrade | RemoveUpgradeListener | CloseCallbackSoon | SocketEffects "up_effect list"

record 'p wss =
  ss_options :: server_options
  ss_clients :: "(nat \<times> 'p ws) list"     \<comment> \<open>the Set, in insertion order\<close>
  ss_next :: nat
  ss_server :: bool                     \<comment> \<open>owns an HTTP server\<close>
  ss_externalServer :: bool
  ss_upgradeHandler :: bool
  ss_log :: "server_effect list"

definition slog :: "server_effect \<Rightarrow> 'p wss \<Rightarrow> 'p wss" where
  "slog x S = S\<lparr>ss_log := ss_log S @ [x]\<rparr>"

text \<open>The constructor; \<open>None\<close> is the exception for options that name no server.\<close>

definition new_WebSocketServer ::
    "server_options \<Rightarrow> bool \<Rightarrow> bool \<Rightarrow> nat option \<Rightarrow> 'p wss option" where
  "new_WebSocketServer opts noServer server port =
     (let S = \<lparr>ss_options = opts, ss_clients = [], ss_next = 0, ss_server = False,
               ss_externalServer = False, ss_upgradeHandler = False, ss_log = []\<rparr>
      in if noServer then Some S
         else if server then
           Some (slog OnUpgrade (S\<lparr>ss_externalServer := True, ss_upgradeHandler := True\<rparr>))
         else case port of
           Some p \<Rightarrow>
             Some (slog (HttpListen p) (slog OnUpgrade (S\<lparr>ss_server := True, ss_upgradeHandler := True\<rparr>)))
         | None \<Rightarrow> None)"

definition upgrade_client ::
    "'p addon \<Rightarrow> bool \<Rightarrow> bool \<Rightarrow> upgrade_request \<Rightarrow> byte list \<Rightarrow> 'p wss \<Rightarrow> 'p wss" where
  "upgrade_client A write_throws secure req head S =
     (case handleUpgrade A (ss_options S) write_throws secure req head of
        (effs, None) \<Rightarrow> slog (SocketEffects effs) S
      | (effs, Some a) \<Rightarrow>
          let S1 = (slog (SocketEffects effs) S)
                     \<lparr>ss_clients := ss_clients S @ [(ss_next S, ac_ws a)], ss_next := Suc (ss_next S)\<rparr>
          in if ac_error a = None then slog (EmitConnection (ss_next S)) S1 else S1)"

text \<open>The listener of the HTTP server; \<open>listeners\<close> is \<open>server.listenerCount('upgrade')\<close>.\<close>

definition onUpgrade ::
    "'p addon \<Rightarrow> nat \<Rightarrow> bool \<Rightarrow> bool \<Rightarrow> upgrade_request \<Rightarrow> byte list \<Rightarrow> 'p wss \<Rightarrow> 'p wss" where
  "onUpgrade A listeners write_throws secure req head S =
     (let urlPath = hd (split_on (CHR ''?'') (case rq_url req of None \<Rightarrow> ''/'' | Some u \<Rightarrow> u))
      in case so_path (ss_options S) of
           Some path \<Rightarrow>
             if path \<noteq> [] \<and> urlPath \<noteq> path then
               (if listeners = 1 then
                  slog (SocketEffects (abortUpgrade write_throws 400 (Some (js ''Bad path for WebSocket'')))) S
                else S)
             else upgrade_client A write_throws secure req head S
         | None \<Rightarrow> upgrade_client A write_throws secure req head S)"

text \<open>An event of a client connection; its close event takes it out of \<open>clients\<close>.\<close>

definition client_event :: "'p addon \<Rightarrow> nat \<Rightarrow> ws_event \<Rightarrow> 'p wss \<Rightarrow> 'p wss" where
  "client_event A i ev S =
     (case map_of (ss_clients S) i of
        None \<Rightarrow> S
      | Some ws \<Rightarrow>
          let ws' = ws_step (ad_native A) ev ws in
          S\<lparr>ss_clients :=
              (if list_ex is_close_event (drop (length (trace ws)) (trace ws'))
               then filter (\<lambda>(j, _). j \<noteq> i) (ss_clients S)
               else map (\<lambda>(j, w). if j = i then (j, ws') else (j, w)) (ss_clients S))\<rparr>)"

definition removeUpgradeListener :: "'p wss \<Rightarrow> 'p wss" where
  "removeUpgradeListener S =
     (if ss_externalServer S \<and> ss_upgradeHandler S
      then slog RemoveUpgradeListener (S\<lparr>ss_upgradeHandler := False\<rparr>) else S)"

definition server_close :: "'p addon \<Rightarrow> bool \<Rightarrow> 'p wss \<Rightarrow> 'p wss" where
  "server_close A has_cb S =
     (let S1 = removeUpgradeListener S;
          S2 = S1\<lparr>ss_clients := map (\<lambda>(i, ws).
                 (i, fst (close (ad_native A) (Some 1001) (Some (js ''Server shutting down'')) ws)))
                 (ss_clients S1)\<rparr>
      in if ss_server S2 then slog HttpClose S2
         else if has_cb then slog CloseCallbackSoon S2 else S2)"

definition server_destroy :: "'p wss \<Rightarrow> 'p wss" where
  "server_destroy S =
     (let S1 = S\<lparr>ss_clients := map (\<lambda>(i, ws). (i, terminate ws)) (ss_clients S)\<rparr>;
          S2 = removeUpgradeListener S1
      in if ss_server S2
         then (slog HttpClose (slog HttpCloseAllConnections S2))\<lparr>ss_server := False\<rparr> else S2)"

section \<open>The client\<close>

text \<open>\<open>new URL(address)\<close> is a parameter; these are the parts of its result the client reads.\<close>

record url =
  url_protocol :: string
  url_hostname :: string
  url_port :: string
  url_pathname :: string
  url_search :: string

datatype client_error =
    HandshakeFailed string
  | SocketFailed
  | ClosedBeforeHandshake
  | TerminatedBeforeHandshake
  | ClientNotOpen
  | OnlyWsUrls
  | BadCloseCode nat
  | WsThrew ws_error
  | ConnectionFailed close_code jstr     \<comment> \<open>an error event of the connection\<close>

datatype client_effect =
    CWrite "byte list" | CDestroy | CEmitUpgrade | CEmitOpen
  | CEmitError client_error | CEmitClose nat jstr
  | CNextTick client_error | CCallback client_error
  | CEmitMessage "byte list" bool | CEmitPing "byte list" | CEmitPong "byte list"

record 'p wsc =
  c_url :: url
  c_readyState :: ready_state
  c_maxPayload :: "nat option"
  c_perMessageDeflate :: pmd_option
  c_protocols :: "string list option"
  c_headers :: "(string \<times> string) list"
  c_ws :: "'p ws option"
  c_pendingQueue :: "(send_data \<times> SendOptions \<times> bool) list"
  c_handshakeBuf :: "byte list"
  c_wsKey :: string
  c_expectedAccept :: string
  c_protocol :: string
  c_extensions :: string
  c_log :: "client_effect list"

definition clog :: "client_effect \<Rightarrow> 'p wsc \<Rightarrow> 'p wsc" where
  "clog x c = c\<lparr>c_log := c_log c @ [x]\<rparr>"

definition c_secure :: "'p wsc \<Rightarrow> bool" where
  "c_secure c \<longleftrightarrow> url_protocol (c_url c) = ''wss:''"

definition new_WebSocketClient ::
    "'p addon \<Rightarrow> url \<Rightarrow> string list option \<Rightarrow> nat option \<Rightarrow> pmd_option \<Rightarrow> (string \<times> string) list \<Rightarrow>
     string \<Rightarrow> client_error + 'p wsc" where
  "new_WebSocketClient A u protocols maxP pmd headers key =
     (if url_protocol u \<noteq> ''ws:'' \<and> url_protocol u \<noteq> ''wss:'' then Inl OnlyWsUrls
      else Inr \<lparr>c_url = u, c_readyState = CONNECTING, c_maxPayload = maxP, c_perMessageDeflate = pmd,
        c_protocols = protocols, c_headers = headers, c_ws = None, c_pendingQueue = [], c_handshakeBuf = [],
        c_wsKey = key, c_expectedAccept = computeAcceptKey A key, c_protocol = [], c_extensions = [],
        c_log = []\<rparr>)"

text \<open>\<open>Number(port)\<close> of a URL port, which is empty or decimal digits.\<close>

definition port_number :: "string \<Rightarrow> nat" where
  "port_number s = foldl (\<lambda>n c. 10 * n + (of_char c - 48)) 0 s"

definition request_text :: "'p wsc \<Rightarrow> string" where
  "request_text c =
     (let u = c_url c;
          pathAndQuery = (if url_pathname u = [] then ''/'' else url_pathname u) @ url_search u;
          hostHeader = (if url_port u \<noteq> [] \<and> port_number (url_port u) \<noteq> (if c_secure c then 443 else 80)
                        then url_hostname u @ '':'' @ url_port u else url_hostname u)
      in join_with CRLF
           ([''GET '' @ pathAndQuery @ '' HTTP/1.1'', ''Host: '' @ hostHeader, ''Upgrade: websocket'',
             ''Connection: Upgrade'', ''Sec-WebSocket-Key: '' @ c_wsKey c, ''Sec-WebSocket-Version: 13''] @
            (case c_protocols c of
               None \<Rightarrow> [] | Some ps \<Rightarrow> if ps = [] then [] else [''Sec-WebSocket-Protocol: '' @ join_with '', '' ps]) @
            (case offerPerMessageDeflate (c_perMessageDeflate c) of
               None \<Rightarrow> [] | Some offer \<Rightarrow> [''Sec-WebSocket-Extensions: '' @ offer]) @
            map (\<lambda>(k, v). k @ '': '' @ v) (c_headers c) @ [[], []]))"

definition onConnect :: "'p wsc \<Rightarrow> 'p wsc" where
  "onConnect c =
     (if c_readyState c \<noteq> CONNECTING then c else clog (CWrite (socket_text (request_text c))) c)"

subsection \<open>Reading the response\<close>

record handshake_response =
  hr_statusCode :: nat
  hr_statusMessage :: string
  hr_headers :: "(string \<times> string) list"     \<comment> \<open>latest first\<close>

definition digit :: "char \<Rightarrow> bool" where
  "digit c = (let n = (of_char c :: nat) in 48 \<le> n \<and> n \<le> 57)"

text \<open>
  \<open>/^HTTP\/1\.1\s+(\d+)\s*(.*)$/\<close>: the greedy choice is the only one that can match, since
  \<open>.\<close> stops at a line terminator.
\<close>

definition match_status :: "string \<Rightarrow> (nat \<times> string) option" where
  "match_status status =
     (if take 8 status \<noteq> ''HTTP/1.1'' then None
      else
        let r1 = drop 8 status;
            r2 = dropWhile js_space r1;
            ds = takeWhile digit r2;
            rest = dropWhile js_space (dropWhile digit r2)
        in if r1 = r2 \<or> ds = [] \<or> CHR 0x0A \<in> set rest \<or> CHR 0x0D \<in> set rest then None
           else Some (port_number ds, rest))"

definition parse_header_line :: "string \<Rightarrow> (string \<times> string) option" where
  "parse_header_line line =
     (case index_of (CHR '':'') line of
        None \<Rightarrow> None
      | Some idx \<Rightarrow> Some (toLowerCase (trim (take idx line)), trim (drop (Suc idx) line)))"

definition parseHeaders :: "string \<Rightarrow> client_error + handshake_response" where
  "parseHeaders headerBlock =
     (let lines = split_str CRLF headerBlock; status = hd lines in
      case match_status status of
        None \<Rightarrow> Inl (HandshakeFailed (''Bad HTTP status line: '' @ status))
      | Some (code, message) \<Rightarrow>
          Inr \<lparr>hr_statusCode = code, hr_statusMessage = message,
                hr_headers = rev (List.map_filter parse_header_line (filter (\<lambda>l. l \<noteq> []) (tl lines)))\<rparr>)"

definition header :: "handshake_response \<Rightarrow> string \<Rightarrow> string" where
  "header r k = (case map_of (hr_headers r) k of None \<Rightarrow> [] | Some v \<Rightarrow> v)"

subsection \<open>Failing and closing before the handshake is done\<close>

definition failPendingSends :: "client_error \<Rightarrow> 'p wsc \<Rightarrow> 'p wsc" where
  "failPendingSends err c =
     c\<lparr>c_pendingQueue := [],
       c_log := c_log c @ map (\<lambda>_. CNextTick err) (filter (\<lambda>(_, _, cb). cb) (c_pendingQueue c))\<rparr>"

definition stopHandshake :: "client_error \<Rightarrow> 'p wsc \<Rightarrow> 'p wsc" where
  "stopHandshake err c =
     (if c_readyState c \<noteq> CONNECTING then c
      else clog CDestroy (failPendingSends err (c\<lparr>c_readyState := CLOSING, c_handshakeBuf := []\<rparr>)))"

definition onEarlyError :: "client_error \<Rightarrow> 'p wsc \<Rightarrow> 'p wsc" where
  "onEarlyError err c =
     (if c_ws c \<noteq> None \<or> c_readyState c = CLOSED then c
      else clog (CEmitError err) (stopHandshake err c))"

definition onEarlyClose :: "'p wsc \<Rightarrow> 'p wsc" where
  "onEarlyClose c =
     (if c_ws c \<noteq> None \<or> c_readyState c = CLOSED then c
      else clog (CEmitClose 1006 []) ((stopHandshake ClosedBeforeHandshake c)\<lparr>c_readyState := CLOSED\<rparr>))"

definition abort :: "string \<Rightarrow> 'p wsc \<Rightarrow> 'p wsc" where
  "abort msg c = onEarlyClose (onEarlyError (HandshakeFailed msg) c)"

subsection \<open>Completing the handshake\<close>

text \<open>
  The checks on a complete response, in the order of the code: the reason for \<open>_abort\<close>, or what
  has been negotiated.
\<close>

definition extension_error_message :: "extension_error \<Rightarrow> string" where
  "extension_error_message e =
     (case e of UnsupportedDeflateParameter key \<Rightarrow>
        ''Unsupported permessage-deflate parameter: '' @ key)"

definition check_response ::
    "'p wsc \<Rightarrow> handshake_response \<Rightarrow> string + (accepted_pmd option \<times> string)" where
  "check_response c r =
     (if hr_statusCode r \<noteq> 101 then
        Inl (''Unexpected response status '' @ map char_of (decimal (hr_statusCode r)))
      else if toLowerCase (header r ''upgrade'') \<noteq> ''websocket'' then Inl ''Missing/invalid Upgrade header''
      else if \<not> has_upgrade (header r ''connection'') then Inl ''Missing Connection: Upgrade header''
      else if map_of (hr_headers r) ''sec-websocket-accept'' \<noteq> Some (c_expectedAccept c) then
        Inl ''Invalid Sec-WebSocket-Accept''
      else
        case parseAcceptedPerMessageDeflate (map_of (hr_headers r) ''sec-websocket-extensions'')
               (c_perMessageDeflate c) of
          Inl e \<Rightarrow> Inl (extension_error_message e)
        | Inr acc \<Rightarrow>
            if header r ''sec-websocket-extensions'' \<noteq> [] \<and> acc = None then
              Inl ''Unexpected Sec-WebSocket-Extensions''
            else
              let protocol = header r ''sec-websocket-protocol'' in
              if protocol \<noteq> [] \<and>
                 (case c_protocols c of None \<Rightarrow> True | Some ps \<Rightarrow> protocol \<notin> set ps) then
                Inl ''Unexpected Sec-WebSocket-Protocol''
              else Inr (acc, protocol))"

text \<open>\<open>for (const entry of pending) this._ws.send(...)\<close>; an exception ends the loop.\<close>

fun flush_pending ::
    "'p native \<Rightarrow> (send_data \<times> SendOptions \<times> bool) list \<Rightarrow> 'p ws \<Rightarrow> 'p ws \<times> ws_error option" where
  "flush_pending E [] w = (w, None)"
| "flush_pending E ((data, opts, cb) # rest) w =
     (case send E data opts cb w of
        (w', Some e) \<Rightarrow> (w', Some e)
      | (w', None) \<Rightarrow> flush_pending E rest w')"

definition openSession ::
    "'p addon \<Rightarrow> accepted_pmd option \<Rightarrow> string \<Rightarrow> byte list \<Rightarrow> 'p wsc \<Rightarrow> 'p wsc \<times> ws_error option" where
  "openSession A acc protocol rest c =
     (let ws = make_WebSocket A False (c_maxPayload c) acc;
          c1 = clog CEmitOpen (clog CEmitUpgrade
                 (c\<lparr>c_handshakeBuf := [], c_readyState := OPEN, c_ws := Some ws, c_protocol := protocol,
                    c_extensions := (if acc = None then [] else PMD)\<rparr>));
          r = (if rest = [] then (ws, None) else onData (ad_native A) rest ws);
          c2 = c1\<lparr>c_ws := Some (fst r)\<rparr>
      in if snd r \<noteq> None then (c2, snd r)
         else if readyState (fst r) \<noteq> OPEN then (failPendingSends ClientNotOpen c2, None)
         else
           let q = flush_pending (ad_native A) (c_pendingQueue c) (fst r)
           in (c2\<lparr>c_pendingQueue := [], c_ws := Some (fst q)\<rparr>, snd q))"

text \<open>
  The listeners that \<open>_onHandshakeData\<close> puts on the connection pass its events on to the client's
  own listeners.  The connection emits only after the client's own events up to \<open>open\<close>, and the
  client emits none of its own afterwards, so the two sequences follow one another.
\<close>

fun forwarded :: "ws_effect \<Rightarrow> client_effect list" where
  "forwarded (EmitMessage d isBinary) = [CEmitMessage d isBinary]"
| "forwarded (EmitPing d) = [CEmitPing d]"
| "forwarded (EmitPong d) = [CEmitPong d]"
| "forwarded (EmitClose c r) = [CEmitClose c r]"
| "forwarded (EmitError code reason) = [CEmitError (ConnectionFailed code reason)]"
| "forwarded EmitSocketError = [CEmitError SocketFailed]"
| "forwarded _ = []"

fun is_client_event :: "client_effect \<Rightarrow> bool" where
  "is_client_event (CWrite b) = False"
| "is_client_event CDestroy = False"
| "is_client_event (CNextTick e) = False"
| "is_client_event (CCallback e) = False"
| "is_client_event _ = True"

definition client_events :: "'p wsc \<Rightarrow> client_effect list" where
  "client_events c = filter is_client_event (c_log c) @
     (case c_ws c of None \<Rightarrow> [] | Some w \<Rightarrow> concat (map forwarded (trace w)))"

definition blank_line :: "byte list" where
  "blank_line = map (\<lambda>ch. byte_of (of_char ch)) (CRLF @ CRLF)"

definition onHandshakeData :: "'p addon \<Rightarrow> byte list \<Rightarrow> 'p wsc \<Rightarrow> 'p wsc \<times> ws_error option" where
  "onHandshakeData A chunk c =
     (if c_readyState c \<noteq> CONNECTING then (c, None)
      else
        let buf = c_handshakeBuf c @ chunk; c1 = c\<lparr>c_handshakeBuf := buf\<rparr> in
        case find_sub blank_line buf of
          None \<Rightarrow>
            if length buf > 16384 then (abort ''Handshake response too large'' c1, None) else (c1, None)
        | Some idx \<Rightarrow>
            (case parseHeaders (latin1 (take idx buf)) of
               Inl (HandshakeFailed msg) \<Rightarrow> (abort msg c1, None)
             | Inl e \<Rightarrow> (c1, None)
             | Inr r \<Rightarrow>
                 (case check_response c1 r of
                    Inl msg \<Rightarrow> (abort msg c1, None)
                  | Inr (acc, protocol) \<Rightarrow> openSession A acc protocol (drop (idx + 4) buf) c1)))"

subsection \<open>Public methods\<close>

definition client_send ::
    "'p addon \<Rightarrow> send_data \<Rightarrow> SendOptions \<Rightarrow> bool \<Rightarrow> 'p wsc \<Rightarrow> 'p wsc \<times> client_error option" where
  "client_send A data opts cb c =
     (case c_ws c of
        Some w \<Rightarrow>
          (case send (ad_native A) data opts cb w of
             (w', e) \<Rightarrow> (c\<lparr>c_ws := Some w'\<rparr>, map_option WsThrew e))
      | None \<Rightarrow>
          if c_readyState c \<noteq> CONNECTING then
            (if cb then (clog (CCallback ClientNotOpen) c, None) else (c, Some ClientNotOpen))
          else (c\<lparr>c_pendingQueue := c_pendingQueue c @ [(data, opts, cb)]\<rparr>, None))"

definition client_ping :: "'p addon \<Rightarrow> control_data \<Rightarrow> bool \<Rightarrow> 'p wsc \<Rightarrow> 'p wsc \<times> client_error option" where
  "client_ping A data cb c =
     (case c_ws c of
        None \<Rightarrow> (c, None)
      | Some w \<Rightarrow> (case ping (ad_native A) data cb w of (w', e) \<Rightarrow> (c\<lparr>c_ws := Some w'\<rparr>, map_option WsThrew e)))"

definition client_pong :: "'p addon \<Rightarrow> control_data \<Rightarrow> bool \<Rightarrow> 'p wsc \<Rightarrow> 'p wsc \<times> client_error option" where
  "client_pong A data cb c =
     (case c_ws c of
        None \<Rightarrow> (c, None)
      | Some w \<Rightarrow> (case pong (ad_native A) data cb w of (w', e) \<Rightarrow> (c\<lparr>c_ws := Some w'\<rparr>, map_option WsThrew e)))"

definition client_close ::
    "'p addon \<Rightarrow> nat option \<Rightarrow> jstr option \<Rightarrow> 'p wsc \<Rightarrow> 'p wsc \<times> client_error option" where
  "client_close A code reason c =
     (case (case code of Some k \<Rightarrow> if \<not> isValidCloseCode k then Some (BadCloseCode k) else None
            | None \<Rightarrow> None) of
        Some e \<Rightarrow> (c, Some e)
      | None \<Rightarrow>
          (case c_ws c of
             Some w \<Rightarrow>
               (case close (ad_native A) code reason w of
                  (w', e) \<Rightarrow> (c\<lparr>c_ws := Some w'\<rparr>, map_option WsThrew e))
           | None \<Rightarrow> (stopHandshake ClosedBeforeHandshake c, None)))"

definition client_terminate :: "'p wsc \<Rightarrow> 'p wsc" where
  "client_terminate c =
     (case c_ws c of
        Some w \<Rightarrow> c\<lparr>c_ws := Some (terminate w)\<rparr>
      | None \<Rightarrow> stopHandshake TerminatedBeforeHandshake c)"

definition client_readyState :: "'p wsc \<Rightarrow> ready_state" where
  "client_readyState c = (case c_ws c of Some w \<Rightarrow> readyState w | None \<Rightarrow> c_readyState c)"

end
