(* ===== verification/Ws_Upgrade.thy ===== *)
theory Ws_Upgrade
  imports Ws_Handshake
begin

text \<open>
  What the opening handshake guarantees: the response a server writes is read back by the client
  as it was meant, the two ends agree on extension and subprotocol, and the life cycles of the
  client object and of the server's client set keep their invariants.
\<close>

section \<open>Reading back what was written\<close>

definition ascii :: "string \<Rightarrow> bool" where
  "ascii s \<longleftrightarrow> (\<forall>c\<in>set s. (of_char c :: nat) < 128)"

abbreviation char_byte :: "char \<Rightarrow> byte" where
  "char_byte c \<equiv> byte_of (of_char c)"

lemma code_points_ascii: "\<forall>u\<in>set s. u < 128 \<Longrightarrow> code_points s = s"
  by (induction s rule: code_points.induct) auto

lemma socket_text_ascii:
  assumes "ascii s"
  shows "socket_text s = map char_byte s"
proof -
  have "code_points (js s) = js s"
    using assms by (intro code_points_ascii) (auto simp: js_def ascii_def)
  moreover have "concat (map utf8_encode_cp (js s)) = map char_byte s"
    using assms by (induction s) (auto simp: js_def ascii_def utf8_encode_cp_def)
  ultimately show ?thesis by (simp add: socket_text_def buffer_from_utf8_def)
qed

lemma latin1_char_byte [simp]: "latin1 (map char_byte s) = s"
  by (induction s) (simp_all add: latin1_def)

lemma char_byte_inj: "inj char_byte"
proof (rule injI)
  fix a b assume "char_byte a = char_byte b"
  then have "latin1 (map char_byte [a]) = latin1 (map char_byte [b])" by simp
  then show "a = b" by (simp only: latin1_char_byte list.inject)
qed

lemma find_sub_Nil: "find_sub sep [] = (if sep = [] then Some 0 else None)"
  by (simp add: find_sub.simps)

lemma find_sub_Cons: "find_sub sep (x # xs) =
    (if take (length sep) (x # xs) = sep then Some 0 else map_option Suc (find_sub sep xs))"
  by (subst find_sub.simps) simp

lemma find_sub_map:
  assumes "inj f"
  shows "find_sub (map f sep) (map f xs) = find_sub sep xs"
proof (induction xs)
  case (Cons x xs)
  have "take (length sep) (map f (x # xs)) = map f sep \<longleftrightarrow> take (length sep) (x # xs) = sep"
    using assms by (simp only: take_map inj_map_eq_map)
  with Cons show ?case by (simp add: find_sub_Cons)
qed (simp add: find_sub_Nil)

lemma find_sub_skip:
  assumes "sep = c # cs" "c \<notin> set l"
  shows "find_sub sep (l @ ys) = map_option ((+) (length l)) (find_sub sep ys)"
  using assms(2)
proof (induction l)
  case (Cons a l)
  then show ?case
    by (cases "find_sub sep ys") (auto simp: find_sub_Cons assms(1))
qed (cases "find_sub sep ys"; simp)

lemma find_sub_here: "find_sub sep (sep @ ys) = Some 0"
  by (simp add: find_sub.simps)

lemma split_str_Cons:
  assumes "sep = c # cs" "c \<notin> set l"
  shows "split_str sep (l @ sep @ ys) = l # split_str sep ys"
  using find_sub_skip [OF assms, of "sep @ ys"] assms(1)
  by (subst split_str.simps) (simp add: find_sub_here [of "c # cs", simplified])

lemma find_sub_absent: "c \<notin> set l \<Longrightarrow> find_sub (c # cs) l = None"
  by (induction l) (auto simp: find_sub_Nil find_sub_Cons)

lemma split_str_last: "c \<notin> set l \<Longrightarrow> split_str (c # cs) l = [l]"
  by (subst split_str.simps) (simp add: find_sub_absent)

lemma split_str_join:
  assumes "ls \<noteq> []" "\<forall>l\<in>set ls. c \<notin> set l"
  shows "split_str (c # cs) (join_with (c # cs) ls) = ls"
  using assms
proof (induction ls)
  case (Cons l ls)
  show ?case
  proof (cases "ls = []")
    case True
    with Cons.prems show ?thesis by (simp add: split_str_last)
  next
    case False
    with Cons show ?thesis
      using split_str_Cons [of "c # cs" c cs l] by (simp add: join_with_Cons)
  qed
qed simp

text \<open>The blank line that ends a header block is the first one.\<close>

lemma find_sub_blank_line:
  assumes "ls \<noteq> []" "\<forall>l\<in>set ls. CHR 0x0D \<notin> set l \<and> l \<noteq> []"
  shows "find_sub (CRLF @ CRLF) (join_with CRLF ls @ CRLF @ CRLF @ rest) = Some (length (join_with CRLF ls))"
  using assms
proof (induction ls)
  case (Cons l ls)
  have skip: "find_sub (CRLF @ CRLF) (l @ ys) = map_option ((+) (length l)) (find_sub (CRLF @ CRLF) ys)" for ys
    using Cons.prems by (intro find_sub_skip) auto
  show ?case
  proof (cases ls)
    case Nil
    then show ?thesis using skip [of "CRLF @ CRLF @ rest"] find_sub_here [of "CRLF @ CRLF" rest] by simp
  next
    case (Cons m ms)
    obtain x xs where m: "m = x # xs" "x \<noteq> CHR 0x0D" using Cons.prems Cons by (cases m) auto
    have "\<exists>ys. join_with CRLF (m # ms) @ CRLF @ CRLF @ rest = x # ys"
      using m(1) by (cases ms) auto
    then obtain ys where ys: "join_with CRLF (m # ms) @ CRLF @ CRLF @ rest = x # ys" by blast
    have "find_sub (CRLF @ CRLF) (CRLF @ x # ys) = map_option (\<lambda>n. Suc (Suc n)) (find_sub (CRLF @ CRLF) (x # ys))"
      using m(2) by (subst find_sub.simps, simp, subst find_sub.simps) (simp add: option.map_comp o_def)
    moreover have "find_sub (CRLF @ CRLF) (x # ys) = Some (length (join_with CRLF (m # ms)))"
      using Cons.IH Cons.prems Cons ys by simp
    ultimately show ?thesis
      using skip [of "CRLF @ x # ys"] Cons ys by (simp add: join_with_Cons)
  qed
qed simp

section \<open>Parsing the server's response\<close>

text \<open>Text without blanks and control characters, as base64 and tokens are.\<close>

definition plain :: "string \<Rightarrow> bool" where
  "plain s \<longleftrightarrow> (\<forall>c\<in>set s. 33 \<le> (of_char c :: nat) \<and> (of_char c :: nat) < 127)"

lemma plain_no_space: "plain s \<Longrightarrow> c \<in> set s \<Longrightarrow> \<not> js_space c"
  by (auto simp: plain_def js_space_def Let_def)

lemma trim_plain:
  assumes "plain s" "s \<noteq> []"
  shows "trim (CHR '' '' # s) = s"
proof -
  have "js_space (CHR '' '')" by (simp add: js_space_def)
  moreover have "dropWhile js_space s = s" "dropWhile js_space (rev s) = rev s"
    using assms(2) plain_no_space [OF assms(1)] by (simp_all add: dropWhile_eq_self_iff hd_rev)
  ultimately show ?thesis by (simp add: trim_def)
qed

lemma parse_header_line_plain:
  assumes "CHR '':'' \<notin> set name" "plain v" "v \<noteq> []"
  shows "parse_header_line (name @ '': '' @ v) = Some (toLowerCase (trim name), v)"
  using index_of_append [OF assms(1), of "CHR '' '' # v"] trim_plain [OF assms(2,3)]
  by (simp add: parse_header_line_def)

lemma plain_no_CR: "plain s \<Longrightarrow> CHR 0x0D \<notin> set s \<and> ascii s"
  by (auto simp: plain_def ascii_def)

lemma map_filter_simps:
  "List.map_filter f [] = []"
  "List.map_filter f (x # xs) = (case f x of None \<Rightarrow> List.map_filter f xs | Some y \<Rightarrow> y # List.map_filter f xs)"
  by (simp_all add: List.map_filter_def split: option.splits)

text \<open>The lines of a response, and the headers they give.\<close>

definition response_lines :: "string \<Rightarrow> string option \<Rightarrow> string option \<Rightarrow> string list" where
  "response_lines acc ext proto =
     [''HTTP/1.1 101 Switching Protocols'', ''Upgrade: websocket'', ''Connection: Upgrade'',
      ''Sec-WebSocket-Accept: '' @ acc] @
     (case ext of None \<Rightarrow> [] | Some h \<Rightarrow> [''Sec-WebSocket-Extensions: '' @ h]) @
     (case proto of None \<Rightarrow> [] | Some p \<Rightarrow> [''Sec-WebSocket-Protocol: '' @ p])"

lemma status_line: "match_status ''HTTP/1.1 101 Switching Protocols'' = Some (101, ''Switching Protocols'')"
  by code_simp

lemma fixed_lines:
  "parse_header_line ''Upgrade: websocket'' = Some (''upgrade'', ''websocket'')"
  "parse_header_line ''Connection: Upgrade'' = Some (''connection'', ''Upgrade'')"
  "toLowerCase (trim ''Sec-WebSocket-Accept'') = ''sec-websocket-accept''"
  "toLowerCase (trim ''Sec-WebSocket-Protocol'') = ''sec-websocket-protocol''"
  "has_upgrade ''Upgrade''" "toLowerCase ''websocket'' = ''websocket''"
  by code_simp+

lemma extension_line:
  "parse_header_line (''Sec-WebSocket-Extensions: '' @ pmd_header f c s) =
     Some (''sec-websocket-extensions'', pmd_header f c s)"
  "CHR 0x0D \<notin> set (pmd_header f c s)" "ascii (pmd_header f c s)" "pmd_header f c s \<noteq> []"
  by (cases f; cases c; cases s; simp only:; code_simp)+

definition ext_ok :: "string option \<Rightarrow> bool" where
  "ext_ok ext \<longleftrightarrow> (\<forall>h. ext = Some h \<longrightarrow> (\<exists>f c s. h = pmd_header f c s))"

definition proto_ok :: "string option \<Rightarrow> bool" where
  "proto_ok proto \<longleftrightarrow> (\<forall>p. proto = Some p \<longrightarrow> plain p \<and> p \<noteq> [])"

lemma response_lines_ok:
  assumes "plain acc" "ext_ok ext" "proto_ok proto"
  shows "\<forall>l\<in>set (response_lines acc ext proto). CHR 0x0D \<notin> set l \<and> l \<noteq> [] \<and> ascii l"
  using assms plain_no_CR [OF assms(1)] extension_line(2,3)
  by (auto simp: response_lines_def ext_ok_def proto_ok_def ascii_def dest!: plain_no_CR split: option.splits)

lemma response_headers:
  assumes "plain acc" "acc \<noteq> []" "ext_ok ext" "proto_ok proto"
  shows "List.map_filter parse_header_line (filter (\<lambda>l. l \<noteq> []) (tl (response_lines acc ext proto))) =
    [(''upgrade'', ''websocket''), (''connection'', ''Upgrade''), (''sec-websocket-accept'', acc)] @
    (case ext of None \<Rightarrow> [] | Some h \<Rightarrow> [(''sec-websocket-extensions'', h)]) @
    (case proto of None \<Rightarrow> [] | Some p \<Rightarrow> [(''sec-websocket-protocol'', p)])"
proof -
  have a: "parse_header_line (''Sec-WebSocket-Accept: '' @ acc) = Some (''sec-websocket-accept'', acc)"
    using parse_header_line_plain [of "''Sec-WebSocket-Accept''" acc] assms(1,2) fixed_lines(3) by simp
  have p: "parse_header_line (''Sec-WebSocket-Protocol: '' @ q) = Some (''sec-websocket-protocol'', q)"
    if "proto = Some q" for q
    using parse_header_line_plain [of "''Sec-WebSocket-Protocol''" q] that assms(4) fixed_lines(4)
    by (simp add: proto_ok_def)
  have e: "parse_header_line (''Sec-WebSocket-Extensions: '' @ h) = Some (''sec-websocket-extensions'', h)"
    if "ext = Some h" for h
    using that assms(3) extension_line(1) by (auto simp: ext_ok_def simp del: append.simps)
  show ?thesis
    using a p e fixed_lines(1,2)
    by (simp add: response_lines_def map_filter_simps split: option.splits)
qed

definition response_of :: "string \<Rightarrow> string option \<Rightarrow> string option \<Rightarrow> handshake_response" where
  "response_of acc ext proto =
    \<lparr>hr_statusCode = 101, hr_statusMessage = ''Switching Protocols'',
      hr_headers = rev ([(''upgrade'', ''websocket''), (''connection'', ''Upgrade''), (''sec-websocket-accept'', acc)] @
        (case ext of None \<Rightarrow> [] | Some h \<Rightarrow> [(''sec-websocket-extensions'', h)]) @
        (case proto of None \<Rightarrow> [] | Some p \<Rightarrow> [(''sec-websocket-protocol'', p)]))\<rparr>"

lemma parse_response:
  assumes "plain acc" "acc \<noteq> []" "ext_ok ext" "proto_ok proto"
  shows "parseHeaders (join_with CRLF (response_lines acc ext proto)) =
    Inr (response_of acc ext proto)"
proof -
  have "split_str CRLF (join_with CRLF (response_lines acc ext proto)) = response_lines acc ext proto"
    using response_lines_ok [OF assms(1,3,4)] by (intro split_str_join) (auto simp: response_lines_def)
  moreover have "hd (response_lines acc ext proto) = ''HTTP/1.1 101 Switching Protocols''"
    by (simp add: response_lines_def)
  ultimately show ?thesis
    by (simp only: parseHeaders_def Let_def status_line option.case prod.case response_headers [OF assms]
        response_of_def)
qed

lemma header_lookup:
  fixes ext proto :: "string option" and acc :: string
  defines "hs \<equiv> hr_headers (response_of acc ext proto)"
  shows "map_of hs ''upgrade'' = Some ''websocket''" "map_of hs ''connection'' = Some ''Upgrade''"
    "map_of hs ''sec-websocket-accept'' = Some acc" "map_of hs ''sec-websocket-extensions'' = ext"
    "map_of hs ''sec-websocket-protocol'' = proto"
  by (simp_all add: hs_def response_of_def split: option.splits)

lemma join_ascii: "\<forall>l\<in>set ls. ascii l \<Longrightarrow> ascii (join_with CRLF ls @ CRLF @ CRLF)"
  by (induction CRLF ls rule: join_with.induct) (auto simp: ascii_def)

text \<open>A response that arrives whole.\<close>

lemma onHandshakeData_response:
  assumes "c_readyState c = CONNECTING" "c_handshakeBuf c = []"
    "plain acc" "acc \<noteq> []" "ext_ok ext" "proto_ok proto"
  defines "text \<equiv> join_with CRLF (response_lines acc ext proto) @ CRLF @ CRLF"
  assumes "check_response (c\<lparr>c_handshakeBuf := socket_text text\<rparr>) (response_of acc ext proto) = Inr (pmd, protocol)"
  shows "onHandshakeData A (socket_text text) c =
    openSession A pmd protocol [] (c\<lparr>c_handshakeBuf := socket_text text\<rparr>)"
proof -
  let ?J = "join_with CRLF (response_lines acc ext proto)"
  note ok = response_lines_ok [OF assms(3,5,6)]
  have b: "socket_text text = map char_byte text"
    unfolding text_def by (intro socket_text_ascii join_ascii) (use ok in blast)
  have "find_sub (CRLF @ CRLF) text = Some (length ?J)"
    using find_sub_blank_line [of "response_lines acc ext proto" "[]"] ok
    by (simp add: text_def response_lines_def)
  then have f: "find_sub blank_line (socket_text text) = Some (length ?J)"
    unfolding b blank_line_def find_sub_map [OF char_byte_inj] .
  have t: "latin1 (take (length ?J) (socket_text text)) = ?J"
    unfolding b take_map latin1_char_byte by (simp add: text_def)
  have d: "drop (length ?J + 4) (socket_text text) = []"
    unfolding b by (simp add: text_def)
  show ?thesis
    using f t d assms(1,2,8) parse_response [OF assms(3-6)]
    by (simp add: onHandshakeData_def)
qed

section \<open>Subprotocol lists\<close>

definition token :: "string \<Rightarrow> bool" where
  "token p \<longleftrightarrow> plain p \<and> p \<noteq> [] \<and> CHR '','' \<notin> set p"

lemma trim_token: "token p \<Longrightarrow> trim p = p" "token p \<Longrightarrow> trim (CHR '' '' # p) = p"
proof -
  assume t: "token p"
  then have "dropWhile js_space p = p" "dropWhile js_space (rev p) = rev p"
    using plain_no_space by (auto simp: token_def dropWhile_eq_self_iff hd_rev)
  then show "trim p = p" by (simp add: trim_def)
  show "trim (CHR '' '' # p) = p" using t by (simp add: token_def trim_plain)
qed

lemma split_join_list:
  assumes "\<forall>p\<in>set (q # ps). token p"
  shows "split_on (CHR '','') (join_with '', '' (q # ps)) = q # map (\<lambda>p. CHR '' '' # p) ps"
  using assms
proof (induction ps arbitrary: q)
  case Nil
  then show ?case by (simp add: split_on_id token_def)
next
  case (Cons p ps)
  have "split_on (CHR '','') (q @ CHR '','' # CHR '' '' # join_with '', '' (p # ps)) =
      q # split_on (CHR '','') (CHR '' '' # join_with '', '' (p # ps))"
    using Cons.prems by (intro split_on_append) (simp add: token_def)
  also have "split_on (CHR '','') (CHR '' '' # join_with '', '' (p # ps)) =
      (CHR '' '' # p) # map (\<lambda>p. CHR '' '' # p) ps"
    using Cons by simp
  finally show ?case by simp
qed

lemma requested_tokens:
  assumes "ps \<noteq> []" "\<forall>p\<in>set ps. token p"
  shows "normalizeProtocolList (ProtocolsString (join_with '', '' ps)) = ps"
proof -
  obtain q qs where ps: "ps = q # qs" using assms(1) by (cases ps) auto
  have "map trim (q # map (\<lambda>p. CHR '' '' # p) qs) = ps"
    using assms(2) ps by (simp add: trim_token o_def map_idI)
  moreover have "join_with '', '' ps \<noteq> []"
    using assms(2) ps by (cases qs) (auto simp: token_def)
  moreover have "filter (\<lambda>p. p \<noteq> []) ps = ps"
    using assms(2) by (intro filter_True) (auto simp: token_def)
  ultimately show ?thesis
    using split_join_list [of q qs] assms(2) ps by (simp add: trimmed_def del: list.map)
qed

lemma chosen_requested:
  assumes "chooseSubprotocol (Some (join_with '', '' ps)) protos = Some p" "ps \<noteq> []" "\<forall>p\<in>set ps. token p"
  shows "p \<in> set ps"
  using assms(1) requested_tokens [OF assms(2,3)]
  by (auto simp: chooseSubprotocol_def Let_def find_Some_iff split: protocols_option.splits option.splits if_splits)

lemma choose_none: "chooseSubprotocol None protos = None"
  by (cases protos) (auto simp: chooseSubprotocol_def split: option.splits)

lemma accept_none: "acceptPerMessageDeflate None opts = None"
  by (simp add: acceptPerMessageDeflate_def parseHeader_def find_pmd_def split: option.splits)

lemma parse_accepted_none: "parseAcceptedPerMessageDeflate None opts = Inr None"
  by (simp add: parseAcceptedPerMessageDeflate_def parseHeader_def find_pmd_def split: option.splits)

lemma parsed_extension:
  assumes "acceptPerMessageDeflate (offerPerMessageDeflate cli) srv = ext"
  shows "\<exists>pmd. parseAcceptedPerMessageDeflate (map_option fst ext) cli = Inr pmd \<and> (pmd = None \<longleftrightarrow> ext = None) \<and>
    map_option (\<lambda>p. (ap_requestNoContextTakeover p, ap_responseNoContextTakeover p)) pmd =
    map_option (\<lambda>p. (ap_responseNoContextTakeover p, ap_requestNoContextTakeover p)) (map_option snd ext)"
proof (cases ext)
  case None
  then show ?thesis by (simp add: parse_accepted_none)
next
  case (Some e)
  obtain hdr acc where e: "e = (hdr, acc)" by (cases e)
  from Some assms have "offerPerMessageDeflate cli \<noteq> None"
    by (cases "offerPerMessageDeflate cli") (auto simp: accept_none)
  then obtain config where "normalizePerMessageDeflateOptions cli = Some config" by (auto simp: offer_header)
  from parse_accept [OF this] Some e assms show ?thesis by simp
qed

section \<open>The two ends together\<close>

definition client_request :: "'q wsc \<Rightarrow> upgrade_request \<Rightarrow> bool" where
  "client_request c req \<longleftrightarrow>
     rq_key req = Some (c_wsKey c) \<and>
     rq_extensions req = offerPerMessageDeflate (c_perMessageDeflate c) \<and>
     rq_protocol req = (case c_protocols c of
       None \<Rightarrow> None | Some ps \<Rightarrow> if ps = [] then None else Some (join_with '', '' ps))"

lemma handleUpgrade_accepted:
  assumes "handleUpgrade A opts wt secure req head = (effs, Some a)"
  obtains key where "rq_key req = Some key" "doAccept A opts wt req key head = (effs, Some a)"
    "rq_method req = ''GET''" "rq_version req = Some ''13''" "valid_key key"
  using assms by (auto simp: handleUpgrade_def Let_def split: if_splits option.splits verify_client.splits prod.splits)

lemma flush_quiet: "readyState w = OPEN \<Longrightarrow> quiet w (fst (flush_pending E q w)) \<and> readyState (fst (flush_pending E q w)) = OPEN"
proof (induction E q w rule: flush_pending.induct)
  case (2 E data opts cb rest w)
  obtain w' e where w': "send E data opts cb w = (w', e)" by fastforce
  have "readyState w' = readyState w"
    using w' by (auto simp: send_def write_frame_def reject_def dest: build_change(3)
        split: if_splits option.splits prod.splits)
  moreover have "quiet w w'" using quiet_send [of w E data opts cb] w' by simp
  ultimately show ?case
    using 2 w' by (auto split: option.splits intro: quiet_trans)
qed (simp add: quiet_refl)

lemma make_WebSocket_sel [simp]:
  "readyState (make_WebSocket A server mp pmd) = OPEN"
  "perMessageDeflate (make_WebSocket A server mp pmd) = pmd"
  "trace (make_WebSocket A server mp pmd) = []"
  by (simp_all add: make_WebSocket_def new_WebSocket_def)

lemma openSession_rest_empty:
  "c_protocol (fst (openSession A pmd protocol [] c)) = protocol"
  "c_pendingQueue (fst (openSession A pmd protocol [] c)) = []"
  "\<exists>w. c_ws (fst (openSession A pmd protocol [] c)) = Some w \<and> readyState w = OPEN \<and> perMessageDeflate w = pmd"
proof -
  let ?w = "make_WebSocket A False (c_maxPayload c) pmd"
  have w: "readyState ?w = OPEN" "perMessageDeflate ?w = pmd"
    by simp_all
  note q = flush_quiet [OF w(1), of "ad_native A" "c_pendingQueue c"]
  show "c_protocol (fst (openSession A pmd protocol [] c)) = protocol"
    "c_pendingQueue (fst (openSession A pmd protocol [] c)) = []"
    "\<exists>w. c_ws (fst (openSession A pmd protocol [] c)) = Some w \<and> readyState w = OPEN \<and> perMessageDeflate w = pmd"
    using w q by (auto simp: openSession_def clog_def Let_def quiet_def same_assembly_def)
qed

lemma accept_response_lines:
  assumes "chooseSubprotocol (rq_protocol req) (so_protocols opts) \<noteq> Some []"
  shows "accept_response A opts req key =
    join_with CRLF (response_lines (computeAcceptKey A key)
      (map_option fst (acceptPerMessageDeflate (rq_extensions req) (so_perMessageDeflate opts)))
      (chooseSubprotocol (rq_protocol req) (so_protocols opts))) @ CRLF @ CRLF"
  using assms by (auto simp: accept_response_def response_lines_def split: option.splits)

text \<open>C4: the two ends of the opening handshake agree.  When the server accepts the request a
  client makes, the client accepts the server's response: both connections are open, they use the
  same subprotocol, and permessage-deflate is on for both or for neither, with the two
  no-context-takeover flags mirrored.\<close>

theorem handshake_agrees:
  fixes A :: "'p addon" and B :: "'q addon"
  assumes "c_readyState c = CONNECTING" "c_handshakeBuf c = []" "client_request c req"
    and "c_expectedAccept c = computeAcceptKey A (c_wsKey c)" "plain (c_expectedAccept c)" "c_expectedAccept c \<noteq> []"
    and "\<forall>ps. c_protocols c = Some ps \<longrightarrow> (\<forall>p\<in>set ps. token p)"
    and "handleUpgrade A opts False secure req [] = (effs, Some a)"
  shows "\<exists>resp w. effs = [UpWrite resp] \<and> c_ws (fst (onHandshakeData B resp c)) = Some w \<and>
    readyState w = OPEN \<and> readyState (ac_ws a) = OPEN \<and>
    c_protocol (fst (onHandshakeData B resp c)) = ac_protocol a \<and>
    map_option (\<lambda>p. (ap_requestNoContextTakeover p, ap_responseNoContextTakeover p)) (perMessageDeflate w) =
    map_option (\<lambda>p. (ap_responseNoContextTakeover p, ap_requestNoContextTakeover p)) (perMessageDeflate (ac_ws a))"
proof -
  define ext where "ext = acceptPerMessageDeflate (rq_extensions req) (so_perMessageDeflate opts)"
  define proto where "proto = chooseSubprotocol (rq_protocol req) (so_protocols opts)"
  obtain key where key: "rq_key req = Some key" "doAccept A opts False req key [] = (effs, Some a)"
    by (rule handleUpgrade_accepted [OF assms(8)])
  have k: "key = c_wsKey c" using key(1) assms(3) by (simp add: client_request_def)
  have po: "proto = Some p \<Longrightarrow> \<exists>ps. c_protocols c = Some ps \<and> p \<in> set ps \<and> token p" for p
  proof -
    assume p: "proto = Some p"
    then obtain ps where ps: "c_protocols c = Some ps" "ps \<noteq> []" "rq_protocol req = Some (join_with '', '' ps)"
      using assms(3) choose_none unfolding proto_def client_request_def
      by (cases "c_protocols c"; simp split: if_splits)
    with assms(7) have "\<forall>p\<in>set ps. token p" by simp
    with p ps chosen_requested [of ps "so_protocols opts" p] show ?thesis by (auto simp: proto_def)
  qed
  then have proto_ok: "proto_ok proto" "proto \<noteq> Some []" by (auto simp: proto_ok_def token_def)
  have ext_ok: "ext_ok (map_option fst ext)"
    using accept_header [of "rq_extensions req" "so_perMessageDeflate opts"] by (fastforce simp: ext_ok_def ext_def)
  let ?acc = "c_expectedAccept c"
  let ?T = "socket_text (join_with CRLF (response_lines ?acc (map_option fst ext) proto) @ CRLF @ CRLF)"
  let ?c = "c\<lparr>c_handshakeBuf := ?T\<rparr>"
  have server: "effs = [UpWrite ?T]" "ac_protocol a = (case proto of None \<Rightarrow> [] | Some p \<Rightarrow> p)"
      "ac_ws a = make_WebSocket A True (so_maxPayload opts) (map_option snd ext)"
    using key(2) accept_response_lines [of req opts A key] proto_ok(2) assms(4) k
    by (auto simp: doAccept_def ext_def proto_def)
  obtain pmd where pmd: "parseAcceptedPerMessageDeflate (map_option fst ext) (c_perMessageDeflate c) = Inr pmd"
      "pmd = None \<longleftrightarrow> ext = None"
      "map_option (\<lambda>p. (ap_requestNoContextTakeover p, ap_responseNoContextTakeover p)) pmd =
       map_option (\<lambda>p. (ap_responseNoContextTakeover p, ap_requestNoContextTakeover p)) (map_option snd ext)"
    using parsed_extension [of "c_perMessageDeflate c" "so_perMessageDeflate opts" ext] assms(3)
    by (auto simp: ext_def client_request_def)
  have "check_response ?c (response_of ?acc (map_option fst ext) proto) =
      Inr (pmd, case proto of None \<Rightarrow> [] | Some p \<Rightarrow> p)"
    using pmd(1,2) po
    by (auto simp: check_response_def header_def header_lookup fixed_lines Let_def response_of_def [where ext = e for e]
        split: option.splits)
  from onHandshakeData_response [OF assms(1,2,5,6) ext_ok proto_ok(1) this, of B]
  have "onHandshakeData B ?T c = openSession B pmd (case proto of None \<Rightarrow> [] | Some p \<Rightarrow> p) [] ?c" .
  moreover note openSession_rest_empty [of B pmd "case proto of None \<Rightarrow> [] | Some p \<Rightarrow> p" ?c]
  ultimately show ?thesis
    using server pmd(3) by auto
qed

definition demo_addon :: "bool addon" where
  "demo_addon = \<lparr>ad_native = demo_native, computeAcceptKey = \<lambda>key. ''s3pPLMBiTxaQ9kYGzzhZRbK+xOo='',
     newParser = \<lambda>server m rsv. server\<rparr>"

definition demo_client :: "bool wsc" where
  "demo_client = \<lparr>c_url = \<lparr>url_protocol = ''ws:'', url_hostname = ''h'', url_port = [], url_pathname = ''/'', url_search = []\<rparr>,
     c_readyState = CONNECTING, c_maxPayload = Some 100, c_perMessageDeflate = PmdOn, c_protocols = Some [''a'', ''b''],
     c_headers = [], c_ws = None, c_pendingQueue = [], c_handshakeBuf = [], c_wsKey = ''dGhlIHNhbXBsZSBub25jZQ=='',
     c_expectedAccept = ''s3pPLMBiTxaQ9kYGzzhZRbK+xOo='', c_protocol = [], c_extensions = [], c_log = []\<rparr>"

definition demo_request :: upgrade_request where
  "demo_request = \<lparr>rq_method = ''GET'', rq_url = Some ''/'', rq_upgrade = Some ''websocket'',
     rq_connection = Some (HString ''Upgrade''), rq_version = Some ''13'',
     rq_key = Some ''dGhlIHNhbXBsZSBub25jZQ=='', rq_extensions = offerPerMessageDeflate PmdOn,
     rq_protocol = Some ''a, b'', rq_origin = None\<rparr>"

definition demo_server :: server_options where
  "demo_server = \<lparr>so_path = None, so_maxPayload = Some 100, so_verifyClient = NoVerify,
     so_protocols = ProtocolsString ''b'', so_perMessageDeflate = PmdOn\<rparr>"

lemma demo_accepts:
  obtains effs a where "handleUpgrade demo_addon demo_server False False demo_request [] = (effs, Some a)"
    "perMessageDeflate (ac_ws a) \<noteq> None"
proof -
  have "toLowerCase ''websocket'' = ''websocket''" "has_upgrade (toLowerCase ''Upgrade'')"
    "valid_key ''dGhlIHNhbXBsZSBub25jZQ==''" by code_simp+
  moreover obtain hdr acc where "acceptPerMessageDeflate (offerPerMessageDeflate PmdOn) PmdOn = Some (hdr, acc)"
    using accept_offer [of PmdOn PmdOn] by auto
  ultimately show ?thesis
    by (intro that) (auto simp: handleUpgrade_def demo_request_def demo_server_def doAccept_def)
qed

theorem handshake_agrees_witness:
  "\<exists>resp w. c_ws (fst (onHandshakeData demo_addon resp demo_client)) = Some w \<and> readyState w = OPEN \<and>
     perMessageDeflate w \<noteq> None"
proof -
  obtain effs a where h: "handleUpgrade demo_addon demo_server False False demo_request [] = (effs, Some a)"
    and p: "perMessageDeflate (ac_ws a) \<noteq> None" by (rule demo_accepts)
  have "client_request demo_client demo_request"
    by (simp add: client_request_def demo_client_def demo_request_def)
  moreover have "c_expectedAccept demo_client = computeAcceptKey demo_addon (c_wsKey demo_client)"
    "c_expectedAccept demo_client \<noteq> []" "c_readyState demo_client = CONNECTING" "c_handshakeBuf demo_client = []"
    by (simp_all add: demo_client_def demo_addon_def)
  moreover have "plain (c_expectedAccept demo_client)" by (simp add: demo_client_def plain_def)
  moreover have "\<forall>ps. c_protocols demo_client = Some ps \<longrightarrow> (\<forall>p\<in>set ps. token p)"
    by (simp add: demo_client_def token_def plain_def)
  ultimately show ?thesis
    using handshake_agrees [of demo_client demo_request demo_addon demo_server False effs a demo_addon, OF _ _ _ _ _ _ _ h] p
    by fastforce
qed

section \<open>What each end accepts\<close>

text \<open>C10: the server completes an upgrade exactly for a GET request with the upgrade headers,
  version 13 and a well-formed key that \<open>verifyClient\<close> lets pass, and only then creates a
  connection; every other request gets one response and loses its socket.\<close>

theorem handleUpgrade_accepts_iff:
  "(snd (handleUpgrade A opts False secure req head) \<noteq> None \<longleftrightarrow>
     rq_method req = ''GET'' \<and>
     toLowerCase (case rq_upgrade req of None \<Rightarrow> [] | Some u \<Rightarrow> u) = ''websocket'' \<and>
     has_upgrade (toLowerCase (case rq_connection req of
        None \<Rightarrow> [] | Some (HString s) \<Rightarrow> s | Some (HArray ss) \<Rightarrow> join_with '','' ss)) \<and>
     rq_version req = Some ''13'' \<and> (\<exists>key. rq_key req = Some key \<and> valid_key key) \<and>
     (case so_verifyClient opts of
        NoVerify \<Rightarrow> True
      | VerifySync f \<Rightarrow> f \<lparr>vi_origin = rq_origin req, vi_secure = secure, vi_req = req\<rparr>
      | VerifyCallback f \<Rightarrow> fst (f \<lparr>vi_origin = rq_origin req, vi_secure = secure, vi_req = req\<rparr>))) \<and>
   (snd (handleUpgrade A opts False secure req head) = None \<longleftrightarrow>
     (\<exists>bytes. fst (handleUpgrade A opts False secure req head) = [UpWrite bytes, UpDestroy]))"
proof -
  have ab: "\<exists>bytes. abortUpgrade False st m = [UpWrite bytes, UpDestroy]" for st m
    by (simp add: abortUpgrade_def write_destroy_def Let_def)
  have ac: "snd (doAccept A opts False req key head) \<noteq> None \<and>
      (\<nexists>bytes. fst (doAccept A opts False req key head) = [UpWrite bytes, UpDestroy])" for key
    by (simp add: doAccept_def Let_def)
  show ?thesis
    using ab ac
    by (auto simp: handleUpgrade_def Let_def write_destroy_def
        split: option.splits verify_client.splits prod.splits if_splits)
qed

lemma accepted_extension:
  assumes "parseAcceptedPerMessageDeflate h opts = Inr acc"
  shows "acc = None \<or> normalizePerMessageDeflateOptions opts \<noteq> None \<and>
    (\<exists>offer \<in> set (parseHeader h). po_name offer = PMD \<and>
       (\<forall>key \<in> fst ` set (po_params offer). key = CLIENT_NCT \<or> key = SERVER_NCT))"
proof (cases acc)
  case (Some a)
  with assms obtain offer where offer: "find_pmd (parseHeader h) = Some offer"
    "List.find (\<lambda>key. key \<noteq> CLIENT_NCT \<and> key \<noteq> SERVER_NCT) (map fst (po_params offer)) = None"
    "normalizePerMessageDeflateOptions opts \<noteq> None"
    by (auto simp: parseAcceptedPerMessageDeflate_def split: option.splits)
  then have "offer \<in> set (parseHeader h)" "po_name offer = PMD"
    by (auto simp: find_pmd_def find_Some_iff)
  moreover from offer(2) have "\<forall>key \<in> fst ` set (po_params offer). key = CLIENT_NCT \<or> key = SERVER_NCT"
    by (simp add: find_None_iff)
  ultimately show ?thesis using offer(3) by blast
qed simp

lemma accepted_response:
  assumes "check_response c r = Inr (acc, protocol)"
  shows "hr_statusCode r = 101" "toLowerCase (header r ''upgrade'') = ''websocket''"
    "has_upgrade (header r ''connection'')" "protocol = header r ''sec-websocket-protocol''"
    "map_of (hr_headers r) ''sec-websocket-accept'' = Some (c_expectedAccept c)"
    "header r ''sec-websocket-protocol'' \<noteq> [] \<longrightarrow>
       (\<exists>ps. c_protocols c = Some ps \<and> header r ''sec-websocket-protocol'' \<in> set ps)"
    "acc = None \<longleftrightarrow> header r ''sec-websocket-extensions'' = []"
    "header r ''sec-websocket-extensions'' \<noteq> [] \<longrightarrow>
       normalizePerMessageDeflateOptions (c_perMessageDeflate c) \<noteq> None \<and>
       (\<exists>offer \<in> set (parseHeader (Some (header r ''sec-websocket-extensions''))).
          po_name offer = PMD \<and>
          (\<forall>key \<in> fst ` set (po_params offer). key = CLIENT_NCT \<or> key = SERVER_NCT))"
proof -
  note cr = assms [unfolded check_response_def Let_def]
  show "hr_statusCode r = 101" "toLowerCase (header r ''upgrade'') = ''websocket''"
    "has_upgrade (header r ''connection'')" "protocol = header r ''sec-websocket-protocol''"
    "map_of (hr_headers r) ''sec-websocket-accept'' = Some (c_expectedAccept c)"
    "header r ''sec-websocket-protocol'' \<noteq> [] \<longrightarrow>
       (\<exists>ps. c_protocols c = Some ps \<and> header r ''sec-websocket-protocol'' \<in> set ps)"
    using cr by (auto split: if_splits sum.splits option.splits)
  from cr have acc: "parseAcceptedPerMessageDeflate (map_of (hr_headers r) ''sec-websocket-extensions'')
      (c_perMessageDeflate c) = Inr acc" "header r ''sec-websocket-extensions'' \<noteq> [] \<longrightarrow> acc \<noteq> None"
    by (auto split: if_splits sum.splits)
  show "acc = None \<longleftrightarrow> header r ''sec-websocket-extensions'' = []"
    using accepted_extension [OF acc(1)] acc(2) by (auto simp: header_def parseHeader_def split: option.splits if_splits)
  show "header r ''sec-websocket-extensions'' \<noteq> [] \<longrightarrow>
       normalizePerMessageDeflateOptions (c_perMessageDeflate c) \<noteq> None \<and>
       (\<exists>offer \<in> set (parseHeader (Some (header r ''sec-websocket-extensions''))).
          po_name offer = PMD \<and>
          (\<forall>key \<in> fst ` set (po_params offer). key = CLIENT_NCT \<or> key = SERVER_NCT))"
    using accepted_extension [OF acc(1)] acc(2) by (auto simp: header_def split: option.splits)
qed

lemma openSession_reports:
  "c_extensions (fst (openSession A acc protocol rest c)) = (if acc = None then [] else PMD)"
  "c_protocol (fst (openSession A acc protocol rest c)) = protocol"
  by (simp_all add: openSession_def failPendingSends_def clog_def Let_def)

text \<open>C15: the client opens a connection only on a 101 response whose accept value is the one
  computed from its own key and with the upgrade headers.  A response with extensions must name
  permessage-deflate, which the client has to be configured for, with no parameter but the two
  no-context-takeover ones, and a subprotocol must be one of those the client asked for; the
  client then reports exactly this extension and this subprotocol.\<close>

theorem client_opens_only_if:
  assumes "c_ws c = None" "c_ws (fst (onHandshakeData A chunk c)) \<noteq> None"
  shows "\<exists>idx r. find_sub blank_line (c_handshakeBuf c @ chunk) = Some idx \<and>
    parseHeaders (latin1 (take idx (c_handshakeBuf c @ chunk))) = Inr r \<and> hr_statusCode r = 101 \<and>
    map_of (hr_headers r) ''sec-websocket-accept'' = Some (c_expectedAccept c) \<and>
    toLowerCase (header r ''upgrade'') = ''websocket'' \<and> has_upgrade (header r ''connection'') \<and>
    (header r ''sec-websocket-extensions'' \<noteq> [] \<longrightarrow>
       normalizePerMessageDeflateOptions (c_perMessageDeflate c) \<noteq> None \<and>
       (\<exists>offer \<in> set (parseHeader (Some (header r ''sec-websocket-extensions''))).
          po_name offer = PMD \<and>
          (\<forall>key \<in> fst ` set (po_params offer). key = CLIENT_NCT \<or> key = SERVER_NCT))) \<and>
    (header r ''sec-websocket-protocol'' \<noteq> [] \<longrightarrow>
       (\<exists>ps. c_protocols c = Some ps \<and> header r ''sec-websocket-protocol'' \<in> set ps)) \<and>
    c_extensions (fst (onHandshakeData A chunk c)) =
      (if header r ''sec-websocket-extensions'' = [] then [] else PMD) \<and>
    c_protocol (fst (onHandshakeData A chunk c)) = header r ''sec-websocket-protocol''"
proof -
  have ab: "c_ws (abort msg d) = c_ws d" for msg and d :: "'a wsc"
    by (simp add: abort_def onEarlyClose_def onEarlyError_def stopHandshake_def failPendingSends_def clog_def)
  from assms ab obtain idx r acc protocol where
    r: "find_sub blank_line (c_handshakeBuf c @ chunk) = Some idx"
      "parseHeaders (latin1 (take idx (c_handshakeBuf c @ chunk))) = Inr r"
      "check_response (c\<lparr>c_handshakeBuf := c_handshakeBuf c @ chunk\<rparr>) r = Inr (acc, protocol)"
    and h: "onHandshakeData A chunk c = openSession A acc protocol (drop (idx + 4) (c_handshakeBuf c @ chunk))
        (c\<lparr>c_handshakeBuf := c_handshakeBuf c @ chunk\<rparr>)"
    by (auto simp: onHandshakeData_def Let_def split: if_splits option.splits sum.splits client_error.splits)
  from accepted_response [OF r(3)] h openSession_reports [of A acc protocol] r(1,2) show ?thesis
    by (intro exI [of _ idx] exI [of _ r]) simp
qed

theorem client_opens_only_if_witness:
  "\<exists>chunk idx r. parseHeaders (latin1 (take idx chunk)) = Inr r \<and>
     map_of (hr_headers r) ''sec-websocket-accept'' = Some (c_expectedAccept demo_client)"
proof -
  let ?T = "socket_text (join_with CRLF (response_lines (c_expectedAccept demo_client) None None) @ CRLF @ CRLF)"
  have "c_readyState demo_client = CONNECTING" "c_handshakeBuf demo_client = []" "c_expectedAccept demo_client \<noteq> []"
    "plain (c_expectedAccept demo_client)" "ext_ok None" "proto_ok None"
    by (simp_all add: demo_client_def plain_def ext_ok_def proto_ok_def)
  moreover have "check_response (demo_client\<lparr>c_handshakeBuf := ?T\<rparr>)
      (response_of (c_expectedAccept demo_client) None None) = Inr (None, [])"
    by (simp add: check_response_def header_def header_lookup fixed_lines parse_accepted_none response_of_def [where ext = e for e])
  ultimately have "onHandshakeData demo_addon ?T demo_client =
      openSession demo_addon None [] [] (demo_client\<lparr>c_handshakeBuf := ?T\<rparr>)"
    by (intro onHandshakeData_response)
  then have "c_ws (fst (onHandshakeData demo_addon ?T demo_client)) \<noteq> None"
    using openSession_rest_empty(3) [of demo_addon None "[]" "demo_client\<lparr>c_handshakeBuf := ?T\<rparr>"] by auto
  from client_opens_only_if [OF _ this] show ?thesis
    using \<open>c_handshakeBuf demo_client = []\<close> by (simp add: demo_client_def) blast
qed

section \<open>A response in pieces\<close>

lemma find_sub_append: "find_sub sep xs \<noteq> None \<Longrightarrow> find_sub sep (xs @ ys) \<noteq> None"
proof (induction xs)
  case Nil
  then have "sep = []" by (simp add: find_sub_Nil split: if_splits)
  then show ?case by (cases ys) (simp_all add: find_sub_Nil find_sub_Cons)
next
  case (Cons x xs)
  have "take (length sep) ((x # xs) @ ys) = sep" if "take (length sep) (x # xs) = sep"
  proof -
    from that have "length sep \<le> length (x # xs)" by (metis length_take min.cobounded1)
    with that show ?thesis by (simp only: take_append) simp
  qed
  with Cons show ?case
    by (cases "take (length sep) (x # xs) = sep") (auto simp: find_sub_Cons split: if_splits)
qed

lemma onHandshakeData_collect:
  assumes "c_readyState c = CONNECTING" "find_sub blank_line (c_handshakeBuf c @ p) = None"
    "length (c_handshakeBuf c @ p) \<le> 16384"
  shows "onHandshakeData A p c = (c\<lparr>c_handshakeBuf := c_handshakeBuf c @ p\<rparr>, None)"
  using assms by (simp add: onHandshakeData_def)

lemma onHandshakeData_buffered:
  "c_readyState c = CONNECTING \<Longrightarrow>
     onHandshakeData A chunk (c\<lparr>c_handshakeBuf := c_handshakeBuf c @ p\<rparr>) = onHandshakeData A (p @ chunk) c"
  by (simp add: onHandshakeData_def)

text \<open>The client reads the response in whatever pieces it arrives.  Pieces that do not yet
  hold the end of the header block, and stay within 16384 bytes, are only collected, so that the
  piece with the end of the block has the effect of the whole response read at once.\<close>

lemma handshake_in_pieces:
  assumes "c_readyState c = CONNECTING"
    and "find_sub blank_line (c_handshakeBuf c @ concat pieces) = None"
    and "length (c_handshakeBuf c @ concat pieces) \<le> 16384"
  shows "onHandshakeData A last_piece (fold (\<lambda>p d. fst (onHandshakeData A p d)) pieces c) =
    onHandshakeData A (concat pieces @ last_piece) c"
  using assms
proof (induction pieces arbitrary: c)
  case (Cons p pieces)
  have "find_sub blank_line (c_handshakeBuf c @ p) = None"
    using Cons.prems(2) find_sub_append [of blank_line "c_handshakeBuf c @ p" "concat pieces"]
    by (metis append_assoc concat.simps(2))
  then have c: "onHandshakeData A p c = (c\<lparr>c_handshakeBuf := c_handshakeBuf c @ p\<rparr>, None)"
    using Cons.prems by (intro onHandshakeData_collect) auto
  with Cons.IH [of "c\<lparr>c_handshakeBuf := c_handshakeBuf c @ p\<rparr>"] Cons.prems show ?case
    using onHandshakeData_buffered [OF Cons.prems(1), of A "concat pieces @ last_piece" p] by simp
qed simp

section \<open>The life of a client\<close>





















text \<open>
  The sends that a run has queued, which is what it does with them while the client is connecting.
\<close>

type_synonym send_queue = "(send_data \<times> SendOptions \<times> bool) list"



text \<open>
  What has become of them: they wait; or each callback has been given an error on the next tick;
  or they were all sent in their order on the open connection.
\<close>

fun is_tick :: "client_effect \<Rightarrow> bool" where
  "is_tick (CNextTick e) = True"
| "is_tick _ = False"

definition ticks :: "'q wsc \<Rightarrow> nat" where
  "ticks c = length (filter is_tick (c_log c))"

definition callbacks :: "send_queue \<Rightarrow> nat" where
  "callbacks q = length (filter (\<lambda>(_, _, cb). cb) q)"



lemma filter_const_all: "P x \<Longrightarrow> filter P (map (\<lambda>_. x) xs) = map (\<lambda>_. x) xs"
  by (induction xs) auto

lemma ticks_simps [simp]:
  "ticks (clog x c) = ticks c + (if is_tick x then 1 else 0)"
  "ticks (failPendingSends err c) = ticks c + callbacks (c_pendingQueue c)"
  "ticks (c\<lparr>c_ws := v\<rparr>) = ticks c" "ticks (c\<lparr>c_readyState := r\<rparr>) = ticks c"
  "ticks (c\<lparr>c_handshakeBuf := b\<rparr>) = ticks c" "ticks (c\<lparr>c_pendingQueue := q\<rparr>) = ticks c"
  "ticks (c\<lparr>c_protocol := p\<rparr>) = ticks c" "ticks (c\<lparr>c_extensions := p\<rparr>) = ticks c"
  by (simp_all add: ticks_def clog_def failPendingSends_def callbacks_def filter_const_all)


















section \<open>The clients of a server\<close>

datatype server_event =
    SvUpgrade nat bool bool upgrade_request "byte list"
  | SvClient nat ws_event
  | SvClose bool
  | SvDestroy

fun server_step :: "'p addon \<Rightarrow> server_event \<Rightarrow> 'p wss \<Rightarrow> 'p wss" where
  "server_step A (SvUpgrade listeners wt secure req head) S = onUpgrade A listeners wt secure req head S"
| "server_step A (SvClient i ev) S = client_event A i ev S"
| "server_step A (SvClose cb) S = server_close A cb S"
| "server_step A SvDestroy S = server_destroy S"

definition clients_inv :: "'p wss \<Rightarrow> bool" where
  "clients_inv S \<longleftrightarrow> distinct (map fst (ss_clients S)) \<and>
     (\<forall>(i, w)\<in>set (ss_clients S). i < ss_next S \<and> \<not> list_ex is_close_event (trace w))"

lemma quiet_no_close: "ok_step w w' \<Longrightarrow> list_ex is_close_event (trace w') = list_ex is_close_event (trace w)"
  by (auto simp: ok_step_def promises_def list_ex_iff)

lemma slog_sel [simp]:
  "ss_clients (slog x S) = ss_clients S" "ss_next (slog x S) = ss_next S"
  "ss_clients (removeUpgradeListener S) = ss_clients S" "ss_next (removeUpgradeListener S) = ss_next S"
  by (simp_all add: slog_def removeUpgradeListener_def)

lemma accepted_no_close:
  assumes "handleUpgrade A opts wt secure req head = (effs, Some a)"
  shows "\<not> list_ex is_close_event (trace (ac_ws a))"
proof -
  obtain key where "doAccept A opts wt req key head = (effs, Some a)"
    by (rule handleUpgrade_accepted [OF assms])
  then have "\<exists>w. trace w = [] \<and> (ac_ws a = w \<or> ac_ws a = fst (onData (ad_native A) head w))"
    by (auto simp: doAccept_def Let_def split: if_splits) (use make_WebSocket_sel(3) in blast)+
  then show ?thesis using quiet_no_close [OF ok_onData] by fastforce
qed

lemma clients_inv_upgrade: "clients_inv S \<Longrightarrow> clients_inv (upgrade_client A wt secure req head S)"
  by (auto simp: upgrade_client_def clients_inv_def Let_def split: prod.splits option.splits
      dest: accepted_no_close)

lemma clients_inv_event: "clients_inv S \<Longrightarrow> clients_inv (client_event A i ev S)"
proof (cases "map_of (ss_clients S) i")
  case (Some w)
  assume S: "clients_inv S"
  have w: "(i, w) \<in> set (ss_clients S)" using Some by (rule map_of_SomeD)
  obtain new where new: "trace (ws_step (ad_native A) ev w) = trace w @ new"
    by (rule ws_step_trace [of "ad_native A" ev w])
  define cs where "cs = ss_clients (client_event A i ev S)"
  define w' where "w' = ws_step (ad_native A) ev w"
  have cs: "cs = (if list_ex is_close_event new then filter (\<lambda>(j, _). j \<noteq> i) (ss_clients S)
      else map (\<lambda>(j, v). if j = i then (j, w') else (j, v)) (ss_clients S))"
    using Some new by (simp add: cs_def client_event_def Let_def flip: w'_def)
  have "map fst (map (\<lambda>(j, v). if j = i then (j, w') else (j, v)) (ss_clients S)) = map fst (ss_clients S)"
    by (induction "ss_clients S") auto
  then have d: "distinct (map fst cs)"
    using S unfolding cs clients_inv_def by (simp add: distinct_map_filter del: map_map)
  have "\<not> list_ex is_close_event (trace w)" using S w by (auto simp: clients_inv_def)
  then have n: "\<not> list_ex is_close_event new \<Longrightarrow> \<not> list_ex is_close_event (trace w')"
    using new by (simp add: w'_def)
  have "\<forall>(j, v)\<in>set cs. j < ss_next S \<and> \<not> list_ex is_close_event (trace v)"
    using S n unfolding cs clients_inv_def by (auto split: if_splits)
  moreover have "ss_next (client_event A i ev S) = ss_next S" by (simp add: client_event_def Let_def split: option.splits)
  ultimately show ?thesis using d by (simp add: clients_inv_def cs_def)
qed (simp add: client_event_def)

lemma clients_inv_map:
  assumes "clients_inv S" "\<And>w. list_ex is_close_event (trace (f w)) = list_ex is_close_event (trace w)"
    "ss_clients T = map (\<lambda>(i, w). (i, f w)) (ss_clients S)" "ss_next T = ss_next S"
  shows "clients_inv T"
proof -
  have "map fst (ss_clients T) = map fst (ss_clients S)" using assms(3) by (simp add: case_prod_beta)
  moreover have "\<forall>(i, w)\<in>set (ss_clients T). i < ss_next T \<and> \<not> list_ex is_close_event (trace w)"
    using assms by (auto simp: clients_inv_def)
  ultimately show ?thesis using assms(1) by (simp add: clients_inv_def)
qed

lemma clients_inv_step: "clients_inv S \<Longrightarrow> clients_inv (server_step A ev S)"
proof (cases ev)
  case (SvUpgrade listeners wt secure req head)
  assume S: "clients_inv S"
  have "clients_inv (slog x S)" for x using S by (simp add: clients_inv_def)
  with S SvUpgrade show ?thesis
    by (auto simp: onUpgrade_def Let_def clients_inv_upgrade split: option.splits)
next
  case (SvClose cb)
  assume S: "clients_inv S"
  show ?thesis unfolding SvClose server_step.simps
    by (rule clients_inv_map [OF S, of "\<lambda>w. fst (close (ad_native A) (Some 1001) (Some (js ''Server shutting down'')) w)"])
      (auto simp: server_close_def Let_def quiet_no_close [OF quiet_ok [OF quiet_close]])
next
  case SvDestroy
  assume S: "clients_inv S"
  show ?thesis unfolding SvDestroy server_step.simps
    by (rule clients_inv_map [OF S, of terminate])
      (auto simp: server_destroy_def Let_def terminate_change)
qed (simp add: clients_inv_event)

interpretation srv: safe_machine "server_step A" clients_inv "\<lambda>_. []" "\<lambda>_ _. True" for A
  by standard (simp_all add: clients_inv_step)

text \<open>C16: the client set of a server.  After any sequence of upgrades, client events, \<open>close\<close> and
  \<open>destroy\<close>, every connection is in the set at most once, and none of those in it has emitted its
  close event yet.\<close>

theorem server_clients:
  assumes "new_WebSocketServer opts noServer server port = Some S0"
  shows "distinct (map fst (ss_clients (fold (server_step A) evs S0))) \<and>
    list_all (\<lambda>(i, w). \<not> list_ex is_close_event (trace w)) (ss_clients (fold (server_step A) evs S0))"
proof -
  have "clients_inv S0"
    using assms by (auto simp: new_WebSocketServer_def clients_inv_def Let_def split: if_splits option.splits)
  from srv.run_inv [OF this, of A evs] show ?thesis by (auto simp: clients_inv_def list_all_iff)
qed

theorem server_clients_witness:
  "\<exists>S0. new_WebSocketServer demo_server False False (Some 80) = Some S0 \<and>
     distinct (map fst (ss_clients (fold (server_step demo_addon)
       [SvUpgrade 1 False False demo_request [], SvClient 0 SocketClose, SvClose True] S0)))"
  using server_clients [of demo_server False False "Some 80" _ demo_addon
      "[SvUpgrade 1 False False demo_request [], SvClient 0 SocketClose, SvClose True]"]
  by (simp add: new_WebSocketServer_def Let_def)

text \<open>Closing the server starts the close handshake on every client: afterwards none of its
  connections is open.\<close>

lemma server_close_all:
  assumes "builds_control (ad_native A)"
  shows "list_all (\<lambda>(i, w). CLOSING \<le> readyState w) (ss_clients (server_close A cb S))"
proof -
  have len: "length (buffer_from_utf8 (js ''Server shutting down'')) \<le> 123"
    by (simp add: buffer_from_utf8_def utf8_encode_cp_def js_def)
  have "CLOSING \<le> readyState (fst (close (ad_native A) (Some 1001) (Some (js ''Server shutting down'')) w))" for w
  proof (cases "CLOSING \<le> readyState w")
    case False
    let ?payload = "writeUInt16BE 1001 @ buffer_from_utf8 (js ''Server shutting down'')"
    have e: "encodeClosePayload (Some (CodeNum 1001)) (Some (js ''Server shutting down'')) = Inr ?payload"
      using len by (simp add: encodeClosePayload_def truncateCloseReason_def MAX_CLOSE_REASON_BYTES_def and_0xFFFF Let_def js_def)
    obtain frame t where "build (ad_native A) OP_CLOSE ?payload 0 w = (Some frame, t)"
      by (rule build_control [OF assms, of OP_CLOSE ?payload w]) (use len in simp_all)
    with False e len show ?thesis
      by (simp add: close_def isValidCloseCode_def endSocketSoon_def)
  next
    case True
    then show ?thesis by (auto simp: close_def)
  qed
  then show ?thesis by (auto simp: server_close_def Let_def list_all_iff)
qed

end
