(* ===== verification/Cq_Codec.thy ===== *)
theory Cq_Codec
  imports SL_Prelude
begin

text \<open>
  CQ codes: the bracketed text form of a message.  This theory holds what the server
  (packages/onebot/src/helper/cq.ts, message-parser.ts) and the client library
  (packages/sdk/src/messages/cq.ts, cq-format.ts) share: the escapes, the parameter list and the
  scanner.  Strings are lists of UTF-16 units.
\<close>

section \<open>Replacing text\<close>

text \<open>\<open>replaceAll(pat, rep)\<close> and \<open>replace(/pat/g, rep)\<close> for a non-empty literal pattern.\<close>

function replace_all :: "nat list \<Rightarrow> nat list \<Rightarrow> jstr \<Rightarrow> jstr" where
  "replace_all pat rep s =
     (case s of
        [] \<Rightarrow> []
      | c # cs \<Rightarrow>
          if pat \<noteq> [] \<and> take (length pat) s = pat then rep @ replace_all pat rep (drop (length pat) s)
          else c # replace_all pat rep cs)"
  by pat_completeness auto
termination
  by (relation "measure (\<lambda>(pat, rep, s). length s)") auto

declare replace_all.simps [simp del]

lemma replace_all_Nil [simp]: "replace_all pat rep [] = []"
  by (simp add: replace_all.simps)

lemma replace_all_other: "s \<noteq> [] \<Longrightarrow> take (length pat) s \<noteq> pat \<Longrightarrow>
    replace_all pat rep s = hd s # replace_all pat rep (tl s)"
  by (subst replace_all.simps) (cases s; simp)

lemma replace_all_match: "pat \<noteq> [] \<Longrightarrow> replace_all pat rep (pat @ s) = rep @ replace_all pat rep s"
  by (subst replace_all.simps) (cases pat; simp)

lemma replace_char: "replace_all [c] rep s = concat (map (\<lambda>x. if x = c then rep else [x]) s)"
proof (induction s)
  case (Cons x s)
  then show ?case
    using replace_all_match [of "[c]" rep s] replace_all_other [of "x # s" "[c]" rep] by auto
qed simp

section \<open>Entities\<close>

abbreviation (input) AMP :: nat where "AMP \<equiv> 38"
abbreviation (input) LBR :: nat where "LBR \<equiv> 91"
abbreviation (input) RBR :: nat where "RBR \<equiv> 93"
abbreviation (input) COMMA :: nat where "COMMA \<equiv> 44"

definition ent_amp :: jstr where "ent_amp = js ''&amp;''"
definition ent_lbr :: jstr where "ent_lbr = js ''&#91;''"
definition ent_rbr :: jstr where "ent_rbr = js ''&#93;''"
definition ent_comma :: jstr where "ent_comma = js ''&#44;''"

text \<open>helper/cq.ts\<close>

definition cqEscape :: "jstr \<Rightarrow> jstr" where
  "cqEscape s = replace_all [COMMA] ent_comma (replace_all [RBR] ent_rbr
     (replace_all [LBR] ent_lbr (replace_all [AMP] ent_amp s)))"

definition cqUnescape :: "jstr \<Rightarrow> jstr" where
  "cqUnescape s = replace_all ent_amp [AMP] (replace_all ent_comma [COMMA]
     (replace_all ent_rbr [RBR] (replace_all ent_lbr [LBR] s)))"

text \<open>cq-format.ts and cq.ts of the client library: text keeps its commas, parameters do not.\<close>

definition escapeCqText :: "jstr \<Rightarrow> jstr" where
  "escapeCqText s = replace_all [RBR] ent_rbr (replace_all [LBR] ent_lbr (replace_all [AMP] ent_amp s))"

definition escapeCqParam :: "jstr \<Rightarrow> jstr" where
  "escapeCqParam s = replace_all [COMMA] ent_comma (escapeCqText s)"

definition sdk_cqUnescape :: "jstr \<Rightarrow> jstr" where
  "sdk_cqUnescape s = replace_all ent_amp [AMP] (replace_all ent_rbr [RBR] (replace_all ent_lbr [LBR] s))"

definition cqUnescapeParam :: "jstr \<Rightarrow> jstr" where
  "cqUnescapeParam s = sdk_cqUnescape (replace_all ent_comma [COMMA] s)"

section \<open>The escapes as codecs\<close>

text \<open>
  A text cut into tokens: single units other than the ampersand, and entities.  Replacing one
  entity touches exactly its tokens, because no entity is a prefix of another.
\<close>

definition entities :: "jstr set" where
  "entities = {ent_amp, ent_lbr, ent_rbr, ent_comma}"

definition tokens_ok :: "jstr list \<Rightarrow> bool" where
  "tokens_ok ts \<longleftrightarrow> (\<forall>t\<in>set ts. t \<in> entities \<or> (\<exists>c. t = [c] \<and> c \<noteq> AMP))"

lemma ents: "ent_amp = [38, 97, 109, 112, 59]" "ent_lbr = [38, 35, 57, 49, 59]"
  "ent_rbr = [38, 35, 57, 51, 59]" "ent_comma = [38, 35, 52, 52, 59]"
  by (simp_all add: ent_amp_def ent_lbr_def ent_rbr_def ent_comma_def js_def)

lemma entity_shape: "t \<in> entities \<Longrightarrow> length t = 5 \<and> hd t = AMP \<and> AMP \<notin> set (tl t)"
  by (auto simp: entities_def ents)

lemma replace_skip:
  assumes "hd pat = AMP" "pat \<noteq> []" "AMP \<notin> set t"
  shows "replace_all pat rep (t @ s) = t @ replace_all pat rep s"
  using assms(3)
proof (induction t)
  case (Cons x t)
  obtain ps where p: "pat = AMP # ps" using assms(1,2) by (cases pat) auto
  have "take (length pat) (x # t @ s) \<noteq> pat" using Cons.prems by (auto simp: p)
  with Cons show ?case by (simp add: replace_all_other)
qed simp

lemma replace_tokens:
  assumes "pat \<in> entities" "tokens_ok ts"
  shows "replace_all pat rep (concat ts) = concat (map (\<lambda>t. if t = pat then rep else t) ts)"
  using assms(2)
proof (induction ts)
  case (Cons t ts)
  have pat: "length pat = 5" "hd pat = AMP" "pat \<noteq> []" using entity_shape [OF assms(1)] by auto
  have IH: "replace_all pat rep (concat ts) = concat (map (\<lambda>t. if t = pat then rep else t) ts)"
    using Cons by (simp add: tokens_ok_def)
  consider "t = pat" | "t \<noteq> pat" "t \<in> entities" | c where "t = [c]" "c \<noteq> AMP"
    using Cons.prems by (auto simp: tokens_ok_def)
  then show ?case
  proof cases
    case 1
    then show ?thesis using IH pat(3) by (simp add: replace_all_match)
  next
    case 2
    have t: "length t = 5" "hd t = AMP" "AMP \<notin> set (tl t)" "t \<noteq> []" using entity_shape [OF 2(2)] by auto
    have "take (length pat) (t @ concat ts) = t" using t(1) pat(1) by simp
    then have "replace_all pat rep (t @ concat ts) = hd t # replace_all pat rep (tl t @ concat ts)"
      using 2(1) t(4) by (subst replace_all_other) auto
    also have "\<dots> = hd t # tl t @ replace_all pat rep (concat ts)"
      using replace_skip [OF pat(2,3) t(3)] by simp
    finally show ?thesis using 2(1) IH t(4) by simp
  next
    case 3
    then have "t \<noteq> pat" using pat(1) by auto
    then show ?thesis using 3 IH replace_skip [OF pat(2,3), of "[c]" rep "concat ts"] by auto
  qed
qed simp

text \<open>One unit, escaped.\<close>

definition enc :: "nat set \<Rightarrow> nat \<Rightarrow> jstr" where
  "enc S c = (if c \<notin> S then [c] else if c = AMP then ent_amp else if c = LBR then ent_lbr
     else if c = RBR then ent_rbr else if c = COMMA then ent_comma else [c])"

abbreviation enc_text :: "nat set \<Rightarrow> jstr \<Rightarrow> jstr" where
  "enc_text S s \<equiv> concat (map (enc S) s)"

lemma escapes_enc:
  "escapeCqText s = enc_text {AMP, LBR, RBR} s" "escapeCqParam s = enc_text {AMP, LBR, RBR, COMMA} s"
  "cqEscape s = enc_text {AMP, LBR, RBR, COMMA} s"
proof -
  show t: "escapeCqText s = enc_text {AMP, LBR, RBR} s"
    unfolding escapeCqText_def replace_char by (induction s) (auto simp: enc_def ents)
  show "escapeCqParam s = enc_text {AMP, LBR, RBR, COMMA} s"
    unfolding escapeCqParam_def t replace_char by (induction s) (auto simp: enc_def ents)
  show "cqEscape s = enc_text {AMP, LBR, RBR, COMMA} s"
    unfolding cqEscape_def replace_char by (induction s) (auto simp: enc_def ents)
qed

lemma enc_tokens: "AMP \<in> S \<Longrightarrow> tokens_ok (map (enc S) s)"
  by (auto simp: tokens_ok_def enc_def entities_def)

lemma unenc:
  assumes "AMP \<in> S"
  shows "replace_all ent_lbr [LBR] (enc_text S s) = enc_text (S - {LBR}) s"
    "replace_all ent_rbr [RBR] (enc_text S s) = enc_text (S - {RBR}) s"
    "replace_all ent_comma [COMMA] (enc_text S s) = enc_text (S - {COMMA}) s"
    "replace_all ent_amp [AMP] (enc_text S s) = enc_text (S - {AMP}) s"
proof -
  have r: "replace_all pat rep (enc_text S s) = concat (map (\<lambda>c. if enc S c = pat then rep else enc S c) s)"
    if "pat \<in> entities" for pat rep
    using replace_tokens [OF that enc_tokens [OF assms], of rep s] by (simp add: o_def)
  show "replace_all ent_lbr [LBR] (enc_text S s) = enc_text (S - {LBR}) s"
    by (subst r) (auto simp: entities_def enc_def ents intro!: arg_cong [where f = concat])
  show "replace_all ent_rbr [RBR] (enc_text S s) = enc_text (S - {RBR}) s"
    by (subst r) (auto simp: entities_def enc_def ents intro!: arg_cong [where f = concat])
  show "replace_all ent_comma [COMMA] (enc_text S s) = enc_text (S - {COMMA}) s"
    by (subst r) (auto simp: entities_def enc_def ents intro!: arg_cong [where f = concat])
  show "replace_all ent_amp [AMP] (enc_text S s) = enc_text (S - {AMP}) s"
    by (subst r) (auto simp: entities_def enc_def ents intro!: arg_cong [where f = concat])
qed

lemma enc_text_empty: "enc_text {} s = s"
  by (induction s) (auto simp: enc_def)

text \<open>An escape: it can be undone, and its result has none of the units that are special.\<close>

locale escape_codec =
  fixes esc :: "jstr \<Rightarrow> jstr" and unesc :: "jstr \<Rightarrow> jstr" and special :: "nat set"
  assumes unesc_esc: "unesc (esc s) = s"
    and esc_special: "c \<in> special \<Longrightarrow> c \<notin> set (esc s)"
    and esc_Nil: "esc s = [] \<longleftrightarrow> s = []"
begin

lemma esc_inj: "esc s = esc t \<longleftrightarrow> s = t"
  by (metis unesc_esc)

end

lemma enc_special: "c \<in> S \<Longrightarrow> S \<subseteq> {AMP, LBR, RBR, COMMA} \<Longrightarrow> c \<noteq> AMP \<Longrightarrow> c \<notin> set (enc_text S s)"
  by (auto simp: enc_def ents split: if_splits)

lemma enc_Nil: "enc_text S s = [] \<longleftrightarrow> s = []"
  by (cases s) (auto simp: enc_def ents split: if_splits)

interpretation onebot_cq: escape_codec cqEscape cqUnescape "{LBR, RBR, COMMA}"
proof
  show "cqUnescape (cqEscape s) = s" for s
    by (simp add: cqUnescape_def escapes_enc unenc insert_Diff_if enc_text_empty)
  show "c \<in> {LBR, RBR, COMMA} \<Longrightarrow> c \<notin> set (cqEscape s)" for c s
    unfolding escapes_enc by (rule enc_special) auto
  show "cqEscape s = [] \<longleftrightarrow> s = []" for s by (simp only: escapes_enc enc_Nil)
qed

interpretation sdk_text: escape_codec escapeCqText sdk_cqUnescape "{LBR, RBR}"
proof
  show "sdk_cqUnescape (escapeCqText s) = s" for s
    by (simp add: sdk_cqUnescape_def escapes_enc unenc insert_Diff_if enc_text_empty)
  show "c \<in> {LBR, RBR} \<Longrightarrow> c \<notin> set (escapeCqText s)" for c s
    unfolding escapes_enc by (rule enc_special) auto
  show "escapeCqText s = [] \<longleftrightarrow> s = []" for s by (simp only: escapes_enc enc_Nil)
qed

interpretation sdk_param: escape_codec escapeCqParam cqUnescapeParam "{LBR, RBR, COMMA}"
proof
  show "cqUnescapeParam (escapeCqParam s) = s" for s
    by (simp add: cqUnescapeParam_def sdk_cqUnescape_def escapes_enc unenc insert_Diff_if enc_text_empty)
  show "c \<in> {LBR, RBR, COMMA} \<Longrightarrow> c \<notin> set (escapeCqParam s)" for c s
    unfolding escapes_enc by (rule enc_special) auto
  show "escapeCqParam s = [] \<longleftrightarrow> s = []" for s by (simp only: escapes_enc enc_Nil)
qed

section \<open>Parameter lists\<close>

text \<open>
  Objects are association lists in insertion order.  Assigning a string to \<open>__proto__\<close> of a
  plain object has no effect.
\<close>

type_synonym 'v obj = "(jstr \<times> 'v) list"

definition set_prop :: "jstr \<Rightarrow> 'v \<Rightarrow> 'v obj \<Rightarrow> 'v obj" where
  "set_prop k v obj = (if k = js ''__proto__'' then obj else AList.update k v obj)"

abbreviation (input) EQ :: nat where "EQ \<equiv> 61"

definition parse_pair :: "(jstr \<Rightarrow> jstr) \<Rightarrow> jstr \<Rightarrow> jstr obj \<Rightarrow> jstr obj" where
  "parse_pair unesc pair params =
     (case index_of EQ pair of
        None \<Rightarrow> params
      | Some eq \<Rightarrow>
          if eq = 0 then params else set_prop (take eq pair) (unesc (drop (Suc eq) pair)) params)"

definition parse_params :: "(jstr \<Rightarrow> jstr) \<Rightarrow> jstr \<Rightarrow> jstr obj" where
  "parse_params unesc raw = (if raw = [] then [] else fold (parse_pair unesc) (split_on COMMA raw) [])"

text \<open>The two copies of the function in the source differ in the unescaping they call.\<close>

definition parseCQParams :: "jstr \<Rightarrow> jstr obj" where
  "parseCQParams raw = parse_params cqUnescape raw"

definition sdk_parseCQParams :: "jstr \<Rightarrow> jstr obj" where
  "sdk_parseCQParams raw = parse_params cqUnescapeParam raw"

definition key_ok :: "jstr \<Rightarrow> bool" where
  "key_ok k \<longleftrightarrow> k \<noteq> [] \<and> EQ \<notin> set k \<and> COMMA \<notin> set k \<and> RBR \<notin> set k \<and> k \<noteq> js ''__proto__''"

definition print_params :: "(jstr \<Rightarrow> jstr) \<Rightarrow> jstr obj \<Rightarrow> jstr" where
  "print_params esc kvs = join_with [COMMA] (map (\<lambda>(k, v). k @ [EQ] @ esc v) kvs)"

locale param_codec = escape_codec +
  assumes comma_special: "COMMA \<in> special"
    and bracket_special: "RBR \<in> special"
begin

lemma parse_pair_print:
  "key_ok k \<Longrightarrow> parse_pair unesc (k @ [EQ] @ esc v) obj = AList.update k v obj"
  by (auto simp: parse_pair_def key_ok_def index_of_append unesc_esc set_prop_def)

lemma fold_parse_pairs:
  assumes "\<forall>(k, v)\<in>set kvs. key_ok k" "distinct (map fst acc @ map fst kvs)"
  shows "fold (parse_pair unesc) (map (\<lambda>(k, v). k @ [EQ] @ esc v) kvs) acc = acc @ kvs"
  using assms
proof (induction kvs arbitrary: acc)
  case (Cons kv kvs)
  obtain k v where kv: "kv = (k, v)" by (cases kv)
  have upd: "AList.update k v acc = acc @ [(k, v)]"
    using Cons.prems(2) kv by (intro alist_update_new) auto
  with Cons kv show ?case using parse_pair_print [of k v acc] by simp
qed simp

lemma parse_print_params:
  assumes "\<forall>(k, v)\<in>set kvs. key_ok k" "distinct (map fst kvs)"
  shows "parse_params unesc (print_params esc kvs) = kvs"
proof (cases "kvs = []")
  case False
  let ?ps = "map (\<lambda>(k, v). k @ [EQ] @ esc v) kvs"
  have "\<forall>p\<in>set ?ps. COMMA \<notin> set p"
    using assms(1) esc_special [OF comma_special] by (auto simp: key_ok_def)
  then have "split_on COMMA (print_params esc kvs) = ?ps"
    unfolding print_params_def using False by (intro split_join) auto
  moreover have "print_params esc kvs \<noteq> []"
    using False by (cases kvs rule: list.exhaust; cases "tl kvs") (auto simp: print_params_def)
  ultimately show ?thesis
    using fold_parse_pairs [of kvs "[]"] assms by (simp add: parse_params_def)
qed (simp add: print_params_def parse_params_def)

lemma print_params_bracket:
  "\<forall>(k, v)\<in>set kvs. key_ok k \<Longrightarrow> RBR \<notin> set (print_params esc kvs)"
proof (induction kvs)
  case (Cons kv kvs)
  then show ?case using esc_special [OF bracket_special]
    by (cases kvs) (auto simp: print_params_def key_ok_def)
qed (simp add: print_params_def)

end

interpretation onebot_params: param_codec cqEscape cqUnescape "{LBR, RBR, COMMA}"
  by unfold_locales auto

interpretation sdk_params: param_codec escapeCqParam cqUnescapeParam "{LBR, RBR, COMMA}"
  by unfold_locales auto

section \<open>Scanning\<close>

text \<open>
  \<open>matchAll\<close> of \<open>\[CQ:(type)(?:,([^\]]*))?\]\<close>: the pieces of text and the codes of a message in
  order.  \<open>first\<close> and \<open>more\<close> are the classes of the first and of all units of a type.  Neither the
  comma nor the bracket is in them, so the greedy match is the only one.
\<close>

datatype cq_token = CqText jstr | CqCode jstr "jstr option"

definition match_code ::
    "(nat \<Rightarrow> bool) \<Rightarrow> (nat \<Rightarrow> bool) \<Rightarrow> jstr \<Rightarrow> (jstr \<times> jstr option \<times> jstr) option" where
  "match_code first more s =
     (let r = drop 4 s; ty = takeWhile more r in
      if take 4 s \<noteq> js ''[CQ:'' \<or> ty = [] \<or> \<not> first (hd ty) then None
      else case dropWhile more r of
        [] \<Rightarrow> None
      | c # r1 \<Rightarrow>
          if c = RBR then Some (ty, None, r1)
          else if c = COMMA then
            (case dropWhile (\<lambda>x. x \<noteq> RBR) r1 of
               [] \<Rightarrow> None
             | _ # r2 \<Rightarrow> Some (ty, Some (takeWhile (\<lambda>x. x \<noteq> RBR) r1), r2))
          else None)"

lemma length_dropWhile: "length (dropWhile P xs) \<le> length xs"
  by (induction xs) auto

lemma match_code_shorter: "match_code first more s = Some (ty, ps, rest) \<Longrightarrow> length rest < length s"
proof -
  assume m: "match_code first more s = Some (ty, ps, rest)"
  obtain c r1 where r1: "dropWhile more (drop 4 s) = c # r1"
    using m by (auto simp: match_code_def Let_def split: if_splits list.splits)
  have a: "length (c # r1) \<le> length (drop 4 s)" using length_dropWhile [of more "drop 4 s"] r1 by simp
  have b: "length (dropWhile (\<lambda>x. x \<noteq> RBR) r1) \<le> length r1" by (rule length_dropWhile)
  show ?thesis using m r1 a b
    by (auto simp: match_code_def Let_def split: if_splits list.splits)
qed

function cq_tokens :: "(nat \<Rightarrow> bool) \<Rightarrow> (nat \<Rightarrow> bool) \<Rightarrow> jstr \<Rightarrow> jstr \<Rightarrow> cq_token list" where
  "cq_tokens first more acc [] = (if acc = [] then [] else [CqText acc])"
| "cq_tokens first more acc (c # cs) =
     (case match_code first more (c # cs) of
        None \<Rightarrow> cq_tokens first more (acc @ [c]) cs
      | Some (ty, ps, rest) \<Rightarrow>
          (if acc = [] then [] else [CqText acc]) @ CqCode ty ps # cq_tokens first more [] rest)"
  by pat_completeness auto
termination
  by (relation "measure (\<lambda>(first, more, acc, s). length s)")
    (auto dest!: match_code_shorter)

definition letter :: "nat \<Rightarrow> bool" where
  "letter c \<longleftrightarrow> (65 \<le> c \<and> c \<le> 90) \<or> (97 \<le> c \<and> c \<le> 122)"

definition cq_type_char :: "nat \<Rightarrow> bool" where
  "cq_type_char c \<longleftrightarrow> letter c \<or> (48 \<le> c \<and> c \<le> 57) \<or> c = 95"

definition sdk_type_char :: "nat \<Rightarrow> bool" where
  "sdk_type_char c \<longleftrightarrow> cq_type_char c \<or> c = 46 \<or> c = 45"

text \<open>A code as it is printed, and what the scanner makes of it.\<close>

definition cq_code :: "jstr \<Rightarrow> jstr option \<Rightarrow> jstr" where
  "cq_code ty ps = js ''[CQ:'' @ ty @ (case ps of None \<Rightarrow> [] | Some p \<Rightarrow> COMMA # p) @ [RBR]"

lemma match_cq_code:
  assumes "ty \<noteq> []" "first (hd ty)" "\<forall>c\<in>set ty. more c" "\<not> more RBR" "\<not> more COMMA"
    "\<forall>p. ps = Some p \<longrightarrow> RBR \<notin> set p"
  shows "match_code first more (cq_code ty ps @ rest) = Some (ty, ps, rest)"
proof -
  have four: "length (js ''[CQ:'') = 4" by (simp add: js_def)
  have tw: "takeWhile more (ty @ x # xs) = ty" "dropWhile more (ty @ x # xs) = x # xs" if "\<not> more x" for x xs
    using assms(3) that by (simp_all add: takeWhile_append2 dropWhile_append2)
  show ?thesis
  proof (cases ps)
    case None
    with assms tw(1) [OF assms(4), of rest] tw(2) [OF assms(4), of rest] four show ?thesis
      by (simp add: match_code_def cq_code_def Let_def)
  next
    case (Some p)
    have p: "\<forall>c\<in>set p. c \<noteq> RBR" using assms(6) Some by auto
    have "takeWhile (\<lambda>x. x \<noteq> RBR) (p @ RBR # rest) = p" "dropWhile (\<lambda>x. x \<noteq> RBR) (p @ RBR # rest) = RBR # rest"
      using p by (simp_all add: takeWhile_append2 dropWhile_append2)
    with assms tw(1) [OF assms(5), of "p @ RBR # rest"] tw(2) [OF assms(5), of "p @ RBR # rest"] four Some
    show ?thesis by (simp add: match_code_def cq_code_def Let_def)
  qed
qed

lemma tokens_text: "LBR \<notin> set t \<Longrightarrow> cq_tokens first more acc (t @ s) = cq_tokens first more (acc @ t) s"
proof (induction t arbitrary: acc)
  case (Cons c t)
  have "match_code first more (c # t @ s) = None"
    using Cons.prems by (auto simp: match_code_def js_def Let_def)
  with Cons show ?case by simp
qed simp

lemma tokens_code:
  assumes "ty \<noteq> []" "first (hd ty)" "\<forall>c\<in>set ty. more c" "\<not> more RBR" "\<not> more COMMA"
    "\<forall>p. ps = Some p \<longrightarrow> RBR \<notin> set p"
  shows "cq_tokens first more acc (cq_code ty ps @ s) =
    (if acc = [] then [] else [CqText acc]) @ CqCode ty ps # cq_tokens first more [] s"
proof -
  obtain c cs where c: "cq_code ty ps @ s = c # cs" by (simp add: cq_code_def js_def)
  then have "match_code first more (c # cs) = Some (ty, ps, s)"
    using match_cq_code [of ty first more ps s] assms by simp
  with c show ?thesis by simp
qed

text \<open>Printed tokens are scanned back, as long as no two pieces of text meet.\<close>

fun show_token :: "cq_token \<Rightarrow> jstr" where
  "show_token (CqText t) = t"
| "show_token (CqCode ty ps) = cq_code ty ps"

fun is_text :: "cq_token \<Rightarrow> bool" where
  "is_text (CqText t) = True"
| "is_text (CqCode ty ps) = False"

fun token_ok :: "(nat \<Rightarrow> bool) \<Rightarrow> (nat \<Rightarrow> bool) \<Rightarrow> cq_token \<Rightarrow> bool" where
  "token_ok first more (CqText t) = (t \<noteq> [] \<and> LBR \<notin> set t)"
| "token_ok first more (CqCode ty ps) = (ty \<noteq> [] \<and> first (hd ty) \<and> list_all more ty \<and>
     (case ps of None \<Rightarrow> True | Some p \<Rightarrow> RBR \<notin> set p))"

definition no_text_pair :: "cq_token list \<Rightarrow> bool" where
  "no_text_pair ts \<longleftrightarrow> successively (\<lambda>a b. \<not> (is_text a \<and> is_text b)) ts"

lemma tokens_print:
  assumes "\<forall>t\<in>set ts. token_ok first more t" "no_text_pair ts" "\<not> more RBR" "\<not> more COMMA"
  shows "cq_tokens first more [] (concat (map show_token ts)) = ts"
proof -
  have "(acc = [] \<longrightarrow> cq_tokens first more acc (concat (map show_token ts)) = ts) \<and>
    (acc \<noteq> [] \<and> (ts = [] \<or> \<not> is_text (hd ts)) \<longrightarrow>
       cq_tokens first more acc (concat (map show_token ts)) = CqText acc # ts)" for acc
    using assms(1,2)
  proof (induction ts arbitrary: acc)
    case (Cons t ts)
    have np: "no_text_pair ts" "is_text t \<longrightarrow> ts = [] \<or> \<not> is_text (hd ts)"
      using Cons.prems(2) by (cases ts; simp add: no_text_pair_def)+
    note IH = Cons.IH [OF _ np(1)]
    show ?case
    proof (cases t)
      case (CqText x)
      with Cons.prems np(2) IH [of x] show ?thesis by (auto simp: tokens_text)
    next
      case (CqCode ty ps)
      have "cq_tokens first more acc (cq_code ty ps @ concat (map show_token ts)) =
          (if acc = [] then [] else [CqText acc]) @ CqCode ty ps # cq_tokens first more [] (concat (map show_token ts))"
        using Cons.prems(1) CqCode assms(3,4)
        by (intro tokens_code) (auto simp: list_all_iff split: option.splits)
      with CqCode IH [of "[]"] Cons.prems(1) show ?thesis by auto
    qed
  qed simp
  then show ?thesis by blast
qed

section \<open>Printing received segments\<close>

text \<open>
  JSON values.  A number is kept as the text \<open>String(n)\<close> gives; an object prints as
  \<open>[object Object]\<close>, an array as its elements joined by commas, \<open>null\<close> among them as nothing.
\<close>

datatype jval = JStr jstr | JNum jstr | JBool bool | JNull | JArr "jval list" | JObj

fun str_val :: "jval \<Rightarrow> jstr" and str_elem :: "jval \<Rightarrow> jstr" where
  "str_val (JStr s) = s"
| "str_val (JNum s) = s"
| "str_val (JBool b) = (if b then js ''true'' else js ''false'')"
| "str_val JNull = js ''null''"
| "str_val (JArr vs) = join_with [COMMA] (map str_elem vs)"
| "str_val JObj = js ''[object Object]''"
| "str_elem v = (if v = JNull then [] else str_val v)"

text \<open>\<open>String(data.k ?? d)\<close>\<close>

definition field :: "jval obj \<Rightarrow> string \<Rightarrow> string \<Rightarrow> jstr" where
  "field data k d =
     (case map_of data (js k) of
        None \<Rightarrow> js d
      | Some v \<Rightarrow> if v = JNull then js d else str_val v)"

definition segmentToCQ :: "jstr \<Rightarrow> jval obj \<Rightarrow> jstr" where
  "segmentToCQ type data =
     (let esc = (\<lambda>k. cqEscape (field data k []));
          media = (\<lambda>t. js ''[CQ:'' @ type @ js '',file='' @ esc ''file'' @ js '',url='' @ esc ''url'' @ js '']'')
      in
        if type = js ''text'' then esc ''text''
        else if type = js ''face'' then
          js ''[CQ:face,id='' @ field data ''id'' ''0'' @
            (case map_of data (js ''resultId'') of
               None \<Rightarrow> [] | Some v \<Rightarrow> js '',resultId='' @ cqEscape (str_val v)) @ js '']''
        else if type = js ''image'' \<or> type = js ''record'' \<or> type = js ''video'' then media type
        else if type = js ''at'' then js ''[CQ:at,qq='' @ field data ''qq'' [] @ js '']''
        else if type = js ''reply'' then js ''[CQ:reply,id='' @ field data ''id'' ''0'' @ js '']''
        else if type = js ''json'' \<or> type = js ''xml'' then
          js ''[CQ:'' @ type @ js '',data='' @ esc ''data'' @ js '']''
        else if type = js ''forward'' then js ''[CQ:forward,id='' @ esc ''id'' @ js '']''
        else if type = js ''mface'' then js ''[CQ:mface,name='' @ esc ''name'' @ js '']''
        else if type = js ''poke'' then js ''[CQ:poke,type='' @ field data ''type'' ''0'' @ js '']''
        else if type = js ''file'' then
          js ''[CQ:file,name='' @ esc ''name'' @ js '',size='' @ field data ''size'' ''0'' @ js '',id='' @
            esc ''id'' @ js '',url='' @ esc ''url'' @ js '']''
        else js ''[CQ:'' @ type @ js '']'')"

definition segmentsToRawMessage :: "(jstr \<times> jval obj) list \<Rightarrow> jstr" where
  "segmentsToRawMessage segs = concat (map (\<lambda>(type, data). segmentToCQ type data) segs)"

text \<open>
  The segments \<open>parseFromCQString\<close> reads from a message, as the type and the parameters it hands to
  \<open>segmentToElement\<close>; pieces of text are text elements.
\<close>

definition cq_calls :: "jstr \<Rightarrow> (jstr \<times> jstr obj) list" where
  "cq_calls message =
     concat (map (\<lambda>t. case t of
         CqText s \<Rightarrow> (let text = cqUnescape s in if text = [] then [] else [(js ''text'', [(js ''text'', text)])])
       | CqCode ty ps \<Rightarrow> [(ty, parseCQParams (case ps of None \<Rightarrow> [] | Some p \<Rightarrow> p))])
       (cq_tokens letter cq_type_char [] message))"

section \<open>Round trip of received messages\<close>

text \<open>The fields of a segment that its code carries.\<close>

definition raw_fields :: "jstr \<Rightarrow> jval obj \<Rightarrow> jstr obj" where
  "raw_fields type data =
     (let f = (\<lambda>k d. (js k, field data k d)) in
      if type = js ''text'' then [f ''text'' []]
      else if type = js ''face'' then f ''id'' ''0'' #
        (case map_of data (js ''resultId'') of None \<Rightarrow> [] | Some v \<Rightarrow> [(js ''resultId'', str_val v)])
      else if type = js ''image'' \<or> type = js ''record'' \<or> type = js ''video'' then [f ''file'' [], f ''url'' []]
      else if type = js ''at'' then [f ''qq'' []]
      else if type = js ''reply'' then [f ''id'' ''0'']
      else if type = js ''json'' \<or> type = js ''xml'' then [f ''data'' []]
      else if type = js ''forward'' then [f ''id'' []]
      else if type = js ''mface'' then [f ''name'' []]
      else if type = js ''poke'' then [f ''type'' ''0'']
      else if type = js ''file'' then [f ''name'' [], f ''size'' ''0'', f ''id'' [], f ''url'' []]
      else [])"

text \<open>
  Numbers and ids are printed without escaping; they have to be free of the special units for the
  code to be read back.
\<close>

definition plain_field :: "jstr \<Rightarrow> bool" where
  "plain_field v \<longleftrightarrow> set v \<inter> {AMP, LBR, RBR, COMMA} = {}"

definition raw_ok :: "jstr \<times> jval obj \<Rightarrow> bool" where
  "raw_ok = (\<lambda>(type, data).
     if type = js ''text'' then field data ''text'' [] \<noteq> []
     else type \<noteq> [] \<and> letter (hd type) \<and> list_all cq_type_char type \<and>
       (type \<in> {js ''face'', js ''reply''} \<longrightarrow> plain_field (field data ''id'' ''0'')) \<and>
       (type = js ''at'' \<longrightarrow> plain_field (field data ''qq'' [])) \<and>
       (type = js ''poke'' \<longrightarrow> plain_field (field data ''type'' ''0'')) \<and>
       (type = js ''file'' \<longrightarrow> plain_field (field data ''size'' ''0'')))"

lemma cqEscape_plain: "plain_field v \<Longrightarrow> cqEscape v = v"
  unfolding escapes_enc by (induction v) (auto simp: plain_field_def enc_def)

definition raw_token :: "jstr \<times> jval obj \<Rightarrow> cq_token" where
  "raw_token = (\<lambda>(type, data).
     if type = js ''text'' then CqText (cqEscape (field data ''text'' []))
     else CqCode type (if raw_fields type data = [] then None
       else Some (print_params cqEscape (raw_fields type data))))"

lemma js_append: "js a @ js b @ s = js (a @ b) @ s" "js a @ js b = js (a @ b)"
  by (simp_all add: js_def)

lemma segment_types:
  obtains (plain_text) "type = js ''text''" | (face) "type = js ''face''"
  | (media) "type = js ''image'' \<or> type = js ''record'' \<or> type = js ''video''"
  | (mention) "type = js ''at''" | (reply) "type = js ''reply''" | (card) "type = js ''json'' \<or> type = js ''xml''"
  | (forward) "type = js ''forward''" | (mface) "type = js ''mface''" | (poke) "type = js ''poke''"
  | (a_file) "type = js ''file''"
  | (other) "type \<notin> {js ''text'', js ''face'', js ''image'', js ''record'', js ''video'', js ''at'', js ''reply'',
      js ''json'', js ''xml'', js ''forward'', js ''mface'', js ''poke'', js ''file''}"
  by blast

lemma segmentToCQ_token:
  assumes "raw_ok (type, data)"
  shows "segmentToCQ type data = show_token (raw_token (type, data))"
proof (cases rule: segment_types [of type])
  case other
  then show ?thesis
    by (simp add: segmentToCQ_def raw_token_def raw_fields_def Let_def cq_code_def) (simp add: js_def)
next
  case media
  then show ?thesis
    by (elim disjE) (simp_all add: segmentToCQ_def raw_token_def raw_fields_def Let_def cq_code_def print_params_def, simp_all add: js_def)
next
  case card
  then show ?thesis
    by (elim disjE) (simp_all add: segmentToCQ_def raw_token_def raw_fields_def Let_def cq_code_def print_params_def, simp_all add: js_def)
next
  case face
  then show ?thesis using assms
    by (simp add: segmentToCQ_def raw_token_def raw_ok_def raw_fields_def Let_def cq_code_def print_params_def
        cqEscape_plain split: option.splits) (simp add: js_def)
qed (use assms in \<open>simp add: segmentToCQ_def raw_token_def raw_ok_def raw_fields_def Let_def cq_code_def print_params_def
        cqEscape_plain, (simp add: js_def)?\<close>)+

lemma print_params_ok: "\<forall>(k, v)\<in>set kvs. key_ok k \<Longrightarrow> RBR \<notin> set (print_params cqEscape kvs)"
  by (rule onebot_params.print_params_bracket)

lemma cq_keys:
  "key_ok (js ''text'')" "key_ok (js ''id'')" "key_ok (js ''resultId'')" "key_ok (js ''file'')"
  "key_ok (js ''url'')" "key_ok (js ''qq'')" "key_ok (js ''data'')" "key_ok (js ''name'')"
  "key_ok (js ''type'')" "key_ok (js ''size'')"
  by (simp_all add: key_ok_def js_def)

lemma parseCQParams_Nil: "parseCQParams [] = []"
  by (simp add: parseCQParams_def parse_params_def)

lemma raw_fields_ok: "(\<forall>(k, v)\<in>set (raw_fields type data). key_ok k) \<and> distinct (map fst (raw_fields type data))"
  by (simp add: raw_fields_def Let_def cq_keys split: option.split) (auto simp: cq_keys)

lemma raw_token_ok: "raw_ok s \<Longrightarrow> token_ok letter cq_type_char (raw_token s)"
  using onebot_cq.esc_special onebot_cq.esc_Nil raw_fields_ok [of "fst s" "snd s"] print_params_ok
  by (cases s) (auto simp: raw_token_def raw_ok_def)

text \<open>C18: round trip of a received message.  The raw message of a list of segments is scanned back into
  segments of the same types in the same order, with the same values of the fields that the printer
  writes (\<open>raw_fields\<close>; of a market face that is the name, of a type it does not know none), whatever
  text, file names and card data these hold.  It is required that no text is empty or next to
  another text, that the types are words, and that the fields printed without escaping (the ids of faces and replies,
  the number of an at, the type of a poke, the size of a file) hold no bracket, comma or ampersand.\<close>

theorem raw_message_roundtrip:
  assumes "\<forall>s\<in>set segs. raw_ok s"
    and "successively (\<lambda>a b. \<not> (fst a = js ''text'' \<and> fst b = js ''text'')) segs"
  shows "cq_calls (segmentsToRawMessage segs) = map (\<lambda>(type, data). (type, raw_fields type data)) segs"
proof -
  have "segmentsToRawMessage segs = concat (map show_token (map raw_token segs))"
    using assms(1) segmentToCQ_token
    by (auto simp: segmentsToRawMessage_def o_def intro!: arg_cong [where f = concat])
  moreover have "no_text_pair (map raw_token segs)"
    using assms(2) unfolding no_text_pair_def successively_map
    by (rule successively_mono) (auto simp: raw_token_def)
  moreover have "\<not> cq_type_char RBR" "\<not> cq_type_char COMMA" by (simp_all add: cq_type_char_def letter_def)
  ultimately have t: "cq_tokens letter cq_type_char [] (segmentsToRawMessage segs) = map raw_token segs"
    using tokens_print [of "map raw_token segs" letter cq_type_char] assms(1) raw_token_ok by auto
  have one: "(case raw_token s of
         CqText x \<Rightarrow> (let text = cqUnescape x in if text = [] then [] else [(js ''text'', [(js ''text'', text)])])
       | CqCode ty ps \<Rightarrow> [(ty, parseCQParams (case ps of None \<Rightarrow> [] | Some p \<Rightarrow> p))]) =
      [(fst s, raw_fields (fst s) (snd s))]" if "raw_ok s" for s
  proof (cases "fst s = js ''text''")
    case True
    with that show ?thesis
      by (cases s) (simp add: raw_token_def raw_ok_def raw_fields_def onebot_cq.unesc_esc)
  next
    case False
    have "parseCQParams (print_params cqEscape (raw_fields (fst s) (snd s))) = raw_fields (fst s) (snd s)"
      unfolding parseCQParams_def using raw_fields_ok [of "fst s" "snd s"]
      by (intro onebot_params.parse_print_params) auto
    with False show ?thesis by (cases s) (simp add: raw_token_def parseCQParams_Nil)
  qed
  show ?thesis unfolding cq_calls_def t using assms(1) one
    by (induction segs) (auto simp: case_prod_beta)
qed

theorem raw_message_roundtrip_witness:
  "cq_calls (segmentsToRawMessage
      [(js ''text'', [(js ''text'', JStr (js ''a[b],&amp;''))]), (js ''at'', [(js ''qq'', JNum (js ''10001''))])]) =
    [(js ''text'', [(js ''text'', js ''a[b],&amp;'')]), (js ''at'', [(js ''qq'', js ''10001'')])]"
proof -
  let ?segs = "[(js ''text'', [(js ''text'', JStr (js ''a[b],&amp;''))]), (js ''at'', [(js ''qq'', JNum (js ''10001''))])]"
  have "plain_field (js ''10001'')" "letter (hd (js ''at''))" "list_all cq_type_char (js ''at'')" "js ''at'' \<noteq> []"
    "js ''a[b],&amp;'' \<noteq> []"
    by (simp_all add: plain_field_def letter_def cq_type_char_def js_def)
  then have "\<forall>s\<in>set ?segs. raw_ok s" by (simp add: raw_ok_def field_def)
  from raw_message_roundtrip [OF this] show ?thesis by (simp add: raw_fields_def field_def)
qed

end
