(* ===== verification/Sdk_Messages.thy ===== *)
theory Sdk_Messages
  imports Cq_Codec
begin

text \<open>
  The message builder of the client library: packages/sdk/src/messages/segments.ts, chain.ts,
  cq-format.ts, cq.ts and quote.ts.  Segments are a type and a data object; a chain is an immutable list of
  segments that admits one reply.
\<close>

section \<open>Segments\<close>

text \<open>
  The values a data object may hold.  Numbers are kept as the text \<open>String(n)\<close> gives; \<open>SOther\<close> is
  any other JSON value with its text.
\<close>

datatype sval =
    SStr jstr | SNum jstr | SBool bool | SUndef | SNull
  | SSegs "seg list" | SSeg seg | SChain "seg list" | SOther jstr
and seg = Seg jstr "(jstr \<times> sval) list"

fun seg_type :: "seg \<Rightarrow> jstr" where
  "seg_type (Seg ty data) = ty"

fun seg_data :: "seg \<Rightarrow> sval obj" where
  "seg_data (Seg ty data) = data"

text \<open>\<open>{ ...base, ...more }\<close>\<close>

definition spread :: "'v obj \<Rightarrow> 'v obj \<Rightarrow> 'v obj" where
  "spread base more = fold (\<lambda>(k, v) obj. AList.update k v obj) more base"

definition truthy :: "sval option \<Rightarrow> bool" where
  "truthy v = (case v of
     None \<Rightarrow> False | Some SUndef \<Rightarrow> False | Some SNull \<Rightarrow> False | Some (SStr s) \<Rightarrow> s \<noteq> []
   | Some (SBool b) \<Rightarrow> b | Some (SNum n) \<Rightarrow> n \<noteq> js ''0'' \<and> n \<noteq> js ''NaN'' | Some _ \<Rightarrow> True)"

definition segments_text :: "jstr \<Rightarrow> seg" where
  "segments_text t = Seg (js ''text'') [(js ''text'', SStr t)]"

definition segments_face :: "jstr \<Rightarrow> sval obj \<Rightarrow> seg" where
  "segments_face i options = Seg (js ''face'') (spread [(js ''id'', SStr i)] options)"

definition segments_at :: "jstr \<Rightarrow> sval option \<Rightarrow> sval option \<Rightarrow> seg" where
  "segments_at qq name uid = Seg (js ''at'')
     ([(js ''qq'', SStr qq)] @ (if truthy name then [(js ''name'', the name)] else []) @
      (if truthy uid then [(js ''uid'', the uid)] else []))"

definition segments_reply :: "jstr \<Rightarrow> seg" where
  "segments_reply i = Seg (js ''reply'') [(js ''id'', SStr i)]"

definition segments_customReply :: "sval \<Rightarrow> sval obj \<Rightarrow> seg" where
  "segments_customReply message options = Seg (js ''reply'') (spread options [(js ''message'', message)])"

definition segments_image :: "jstr \<Rightarrow> sval obj \<Rightarrow> seg" where
  "segments_image f options = Seg (js ''image'') (spread [(js ''file'', SStr f)] options)"

definition segments_record :: "jstr \<Rightarrow> sval obj \<Rightarrow> seg" where
  "segments_record f options = Seg (js ''record'') (spread [(js ''file'', SStr f)] options)"

definition segments_video :: "jstr \<Rightarrow> sval obj \<Rightarrow> seg" where
  "segments_video f options = Seg (js ''video'') (spread [(js ''file'', SStr f)] options)"

text \<open>An object argument arrives as the text of \<open>JSON.stringify\<close>.\<close>

definition segments_json :: "jstr \<Rightarrow> seg" where
  "segments_json d = Seg (js ''json'') [(js ''data'', SStr d)]"

definition segments_xml :: "jstr \<Rightarrow> sval obj \<Rightarrow> seg" where
  "segments_xml d options = Seg (js ''xml'') (spread [(js ''data'', SStr d)] options)"

definition segments_poke :: "sval \<Rightarrow> sval option \<Rightarrow> seg" where
  "segments_poke ty i = Seg (js ''poke'')
     ([(js ''type'', ty)] @ (case i of None \<Rightarrow> [] | Some SUndef \<Rightarrow> [] | Some v \<Rightarrow> [(js ''id'', v)]))"

definition segments_forward :: "jstr \<Rightarrow> seg" where
  "segments_forward i = Seg (js ''forward'')
     [(js ''id'', SStr i), (js ''res_id'', SStr i), (js ''forward_id'', SStr i)]"

definition segments_node :: "jstr \<Rightarrow> jstr \<Rightarrow> sval \<Rightarrow> seg" where
  "segments_node userId nickname content = Seg (js ''node'')
     [(js ''user_id'', SNum userId), (js ''nickname'', SStr nickname), (js ''content'', content)]"

definition segments_raw :: "jstr \<Rightarrow> sval obj \<Rightarrow> seg" where
  "segments_raw ty data = Seg ty data"

definition segments_share :: "sval obj \<Rightarrow> seg" where
  "segments_share options = Seg (js ''share'') options"

definition segments_music :: "sval obj \<Rightarrow> seg" where
  "segments_music options = Seg (js ''music'') options"

definition segments_location :: "sval obj \<Rightarrow> seg" where
  "segments_location options = Seg (js ''location'') options"

definition segments_contact :: "sval \<Rightarrow> sval \<Rightarrow> seg" where
  "segments_contact ty i = Seg (js ''contact'') [(js ''type'', ty), (js ''id'', i)]"

section \<open>Printing\<close>

datatype sdk_error =
    ReplyMessageNotString | SingleUse jstr | FaceLargeInvalid | QuoteIdInvalid | QuoteHasReply

text \<open>
  \<open>Object.entries\<close>: keys that are array indices come first, in ascending order, then the others
  in insertion order.
\<close>

definition is_index :: "jstr \<Rightarrow> bool" where
  "is_index k \<longleftrightarrow> k \<noteq> [] \<and> (\<forall>c\<in>set k. 48 \<le> c \<and> c \<le> 57) \<and> (hd k = 48 \<longrightarrow> length k = 1) \<and>
     digits_value k < 2 ^ 32 - 1"

definition obj_entries :: "'v obj \<Rightarrow> 'v obj" where
  "obj_entries obj = sort_key (\<lambda>(k, v). digits_value k) (filter (\<lambda>(k, v). is_index k) obj) @
     filter (\<lambda>(k, v). \<not> is_index k) obj"

definition bind_sum :: "'e + 'a \<Rightarrow> ('a \<Rightarrow> 'e + 'b) \<Rightarrow> 'e + 'b" where
  "bind_sum m f = (case m of Inl e \<Rightarrow> Inl e | Inr x \<Rightarrow> f x)"

lemma bind_sum_simps [simp]: "bind_sum (Inl e) f = Inl e" "bind_sum (Inr x) f = f x"
  by (simp_all add: bind_sum_def)

lemma bind_sum_cong [fundef_cong]:
  "m = m' \<Longrightarrow> (\<And>x. m' = Inr x \<Longrightarrow> f x = f' x) \<Longrightarrow> bind_sum m f = bind_sum m' f'"
  by (cases m') auto

fun map_sum_list :: "('a \<Rightarrow> 'e + 'b) \<Rightarrow> 'a list \<Rightarrow> 'e + 'b list" where
  "map_sum_list f [] = Inr []"
| "map_sum_list f (x # xs) = bind_sum (f x) (\<lambda>y. bind_sum (map_sum_list f xs) (\<lambda>ys. Inr (y # ys)))"

lemma map_sum_list_cong [fundef_cong]:
  "xs = ys \<Longrightarrow> (\<And>x. x \<in> set ys \<Longrightarrow> f x = g x) \<Longrightarrow> map_sum_list f xs = map_sum_list g ys"
  by (induction ys arbitrary: xs) auto

lemma size_entry: "(k, v) \<in> set data \<Longrightarrow> size v < Suc (size_list (\<lambda>x. Suc (size (snd x))) data)"
  by (induction data) auto

lemma size_map_of [termination_simp]:
  "map_of data k = Some v \<Longrightarrow> size v < Suc (size_list (\<lambda>x. Suc (size (snd x))) data)"
  by (auto dest: map_of_SomeD intro: size_entry)

lemma set_obj_entries [simp]: "set (obj_entries data) = set data"
  by (auto simp: obj_entries_def)

lemma size_entries [termination_simp]:
  "(k, v) \<in> set data \<Longrightarrow> size v < Suc (size_list (\<lambda>x. Suc (size (snd x))) data)"
  by (rule size_entry)

fun string_of :: "sval \<Rightarrow> sdk_error + jstr" and segmentToCq :: "seg \<Rightarrow> sdk_error + jstr" where
  "string_of (SStr s) = Inr s"
| "string_of (SNum s) = Inr s"
| "string_of (SBool b) = Inr (if b then js ''true'' else js ''false'')"
| "string_of SUndef = Inr (js ''undefined'')"
| "string_of SNull = Inr (js ''null'')"
| "string_of (SSegs ss) = Inr (join_with [COMMA] (map (\<lambda>_. js ''[object Object]'') ss))"
| "string_of (SSeg s) = Inr (js ''[object Object]'')"
| "string_of (SChain ss) = bind_sum (map_sum_list segmentToCq ss) (\<lambda>xs. Inr (concat xs))"
| "string_of (SOther t) = Inr t"
| "segmentToCq (Seg ty data) =
     (if ty = js ''text'' then
        bind_sum (case map_of data (js ''text'') of
            None \<Rightarrow> Inr [] | Some v \<Rightarrow> if v = SUndef \<or> v = SNull then Inr [] else string_of v)
          (\<lambda>t. Inr (escapeCqText t))
      else if ty = js ''reply'' \<and>
          (case map_of data (js ''message'') of
             None \<Rightarrow> False | Some SUndef \<Rightarrow> False | Some (SStr _) \<Rightarrow> False | Some _ \<Rightarrow> True)
      then Inl ReplyMessageNotString
      else
        bind_sum (map_sum_list (\<lambda>(k, v). bind_sum (string_of v) (\<lambda>t. Inr (k @ [EQ] @ escapeCqParam t)))
            (filter (\<lambda>(k, v). v \<noteq> SUndef \<and> v \<noteq> SNull) (obj_entries data)))
          (\<lambda>ps. let params = join_with [COMMA] ps in
            Inr (if params \<noteq> [] then js ''[CQ:'' @ ty @ [COMMA] @ params @ js '']''
                 else js ''[CQ:'' @ ty @ js '']'')))"

definition segmentsToCQString :: "seg list \<Rightarrow> sdk_error + jstr" where
  "segmentsToCQString ss = bind_sum (map_sum_list segmentToCq ss) (\<lambda>xs. Inr (concat xs))"


section \<open>Chains\<close>

record message_chain =
  items :: "seg list"
  used :: "jstr set"

definition SINGLE_USE_TYPES :: "jstr set" where
  "SINGLE_USE_TYPES = {js ''reply''}"

definition chain_empty :: message_chain where
  "chain_empty = \<lparr>items = [], used = {}\<rparr>"

definition addSegment :: "seg \<Rightarrow> message_chain \<Rightarrow> sdk_error + message_chain" where
  "addSegment segment c =
     (let singleUse = seg_type segment \<in> SINGLE_USE_TYPES in
      if singleUse \<and> seg_type segment \<in> used c then Inl (SingleUse (seg_type segment))
      else Inr \<lparr>items = items c @ [segment],
        used = (if singleUse then insert (seg_type segment) (used c) else used c)\<rparr>)"

text \<open>A message as the client accepts it: a text, a segment, an array of segments or a chain.\<close>

datatype outgoing = OutText jstr | OutSeg seg | OutSegs "seg list" | OutChain message_chain

definition normalizeMessage :: "outgoing \<Rightarrow> jstr + seg list" where
  "normalizeMessage input = (case input of
     OutText t \<Rightarrow> Inl t | OutChain c \<Rightarrow> Inr (items c) | OutSegs ss \<Rightarrow> Inr ss | OutSeg s \<Rightarrow> Inr [s])"

fun add_all :: "seg list \<Rightarrow> message_chain \<Rightarrow> sdk_error + message_chain" where
  "add_all [] c = Inr c"
| "add_all (s # ss) c = bind_sum (addSegment s c) (add_all ss)"

definition chain_append :: "outgoing \<Rightarrow> message_chain \<Rightarrow> sdk_error + message_chain" where
  "chain_append messageInput c = (case normalizeMessage messageInput of
     Inl t \<Rightarrow> addSegment (segments_text t) c
   | Inr ss \<Rightarrow> add_all ss c)"

text \<open>The calls on a chain.  Numbers among the arguments are given as \<open>String\<close> prints them.\<close>

datatype seg_call =
    CText jstr | CBr | CFace jstr "sval obj" | CAt jstr "sval option" "sval option" | CAtAll | CReply jstr
  | CImage jstr "sval obj" | CRecord jstr "sval obj" | CVideo jstr "sval obj" | CJson jstr
  | CXml jstr "sval obj" | CPoke sval "sval option" | CForward jstr | CNode jstr jstr sval
  | CShare "sval obj" | CMusic "sval obj" | CLocation "sval obj" | CContact sval sval
  | CRaw jstr "sval obj"

fun called_segment :: "seg_call \<Rightarrow> seg" where
  "called_segment (CText t) = segments_text t"
| "called_segment CBr = segments_text [10]"
| "called_segment (CFace i options) = segments_face i options"
| "called_segment (CAt qq name uid) = segments_at qq name uid"
| "called_segment CAtAll = segments_at (js ''all'') None None"
| "called_segment (CReply i) = segments_reply i"
| "called_segment (CImage f options) = segments_image f options"
| "called_segment (CRecord f options) = segments_record f options"
| "called_segment (CVideo f options) = segments_video f options"
| "called_segment (CJson d) = segments_json d"
| "called_segment (CXml d options) = segments_xml d options"
| "called_segment (CPoke ty i) = segments_poke ty i"
| "called_segment (CForward i) = segments_forward i"
| "called_segment (CNode userId nickname content) = segments_node userId nickname content"
| "called_segment (CShare options) = segments_share options"
| "called_segment (CMusic options) = segments_music options"
| "called_segment (CLocation options) = segments_location options"
| "called_segment (CContact ty i) = segments_contact ty i"
| "called_segment (CRaw ty data) = segments_raw ty data"

text \<open>Every method but \<open>append\<close> is \<open>this.addSegment(segments.name(...))\<close>.\<close>

datatype chain_call = Add seg_call | Append outgoing

fun chain_do :: "chain_call \<Rightarrow> message_chain \<Rightarrow> sdk_error + message_chain" where
  "chain_do (Add call) c = addSegment (called_segment call) c"
| "chain_do (Append m) c = chain_append m c"

fun chain_run :: "chain_call list \<Rightarrow> message_chain \<Rightarrow> sdk_error + message_chain" where
  "chain_run [] c = Inr c"
| "chain_run (x # xs) c = bind_sum (chain_do x c) (chain_run xs)"

text \<open>The free functions \<open>text\<close>, \<open>face\<close>, \<open>at\<close>, \<open>reply\<close>, ...: a call on a new chain.\<close>

definition chain_start :: "seg_call \<Rightarrow> sdk_error + message_chain" where
  "chain_start call = chain_do (Add call) chain_empty"

definition toSegments :: "message_chain \<Rightarrow> seg list" where
  "toSegments c = items c"

definition chain_toString :: "message_chain \<Rightarrow> sdk_error + jstr" where
  "chain_toString c = segmentsToCQString (items c)"

definition toCQString :: "outgoing \<Rightarrow> sdk_error + jstr" where
  "toCQString input = (case normalizeMessage input of
     Inl t \<Rightarrow> Inr (escapeCqText t) | Inr ss \<Rightarrow> segmentsToCQString ss)"

section \<open>Parsing\<close>

text \<open>
  \<open>String(Number(s))\<close> for a finite positive \<open>Number(s)\<close>.  Decimal digits below 2 to the 53rd are exact;
  \<open>other\<close> is the runtime's reading of every other notation (signs, fractions, exponents, radix
  prefixes, blanks).
\<close>

definition number_text :: "(jstr \<Rightarrow> jstr option) \<Rightarrow> jstr \<Rightarrow> jstr option" where
  "number_text other s =
     (if s \<noteq> [] \<and> list_all (\<lambda>c. 48 \<le> c \<and> c \<le> 57) s \<and> digits_value s < 2 ^ 53
      then if digits_value s = 0 then None else Some (decimal (digits_value s))
      else other s)"

abbreviation fld :: "jstr obj \<Rightarrow> string \<Rightarrow> jstr option" where
  "fld data k \<equiv> map_of data (js k)"

abbreviation opt_val :: "jstr option \<Rightarrow> sval" where
  "opt_val v \<equiv> (case v of None \<Rightarrow> SUndef | Some s \<Rightarrow> SStr s)"

definition either_of :: "jstr option \<Rightarrow> jstr option \<Rightarrow> jstr option" where
  "either_of a b = (case a of None \<Rightarrow> b | Some x \<Rightarrow> Some x)"

abbreviation str_fields :: "jstr obj \<Rightarrow> sval obj" where
  "str_fields data \<equiv> map (\<lambda>(k, v). (k, SStr v)) data"

definition face_options :: "jstr obj \<Rightarrow> sdk_error + sval obj" where
  "face_options data =
     (let result = (case fld data ''resultId'' of None \<Rightarrow> [] | Some r \<Rightarrow> [(js ''resultId'', SStr r)]) in
      case fld data ''large'' of
        None \<Rightarrow> Inr result
      | Some l \<Rightarrow>
          if l = js ''true'' \<or> l = js ''1'' then Inr (result @ [(js ''large'', SBool True)])
          else if l = js ''false'' \<or> l = js ''0'' then Inr (result @ [(js ''large'', SBool False)])
          else Inl FaceLargeInvalid)"

definition segmentFromCq :: "(jstr \<Rightarrow> jstr option) \<Rightarrow> jstr \<Rightarrow> jstr obj \<Rightarrow> sdk_error + seg" where
  "segmentFromCq other type data =
     (let get = (\<lambda>k d. case fld data k of None \<Rightarrow> d | Some v \<Rightarrow> v);
          url = opt_val (fld data ''url'');
          media = (case either_of (fld data ''file'') (fld data ''url'') of None \<Rightarrow> [] | Some f \<Rightarrow> f) in
      if type = js ''text'' then Inr (segments_text (get ''text'' []))
      else if type = js ''face'' then
        bind_sum (face_options data) (\<lambda>options. Inr (segments_face (get ''id'' (js ''0'')) options))
      else if type = js ''at'' then
        (if fld data ''qq'' = Some (js ''all'') then Inr (segments_at (js ''all'') None None)
         else case Option.bind (fld data ''qq'') (number_text other) of
             Some qq \<Rightarrow> Inr (segments_at qq (map_option SStr (fld data ''name'')) (map_option SStr (fld data ''uid'')))
           | None \<Rightarrow> Inr (segments_raw type (str_fields data)))
      else if type = js ''reply'' then
        (case fld data ''message'' of
           Some m \<Rightarrow> Inr (segments_customReply (SStr m)
             (str_fields (filter (\<lambda>(k, v). k \<noteq> js ''message'') data)))
         | None \<Rightarrow> Inr (segments_reply (get ''id'' (js ''0''))))
      else if type = js ''image'' then
        Inr (segments_image media
          [(js ''url'', url),
           (js ''type'', if fld data ''type'' = Some (js ''flash'') then SStr (js ''flash'') else SUndef),
           (js ''summary'', opt_val (fld data ''summary''))])
      else if type = js ''record'' then Inr (segments_record media [(js ''url'', url)])
      else if type = js ''video'' then
        Inr (segments_video media [(js ''url'', url), (js ''thumb'', opt_val (fld data ''thumb''))])
      else if type = js ''json'' then Inr (segments_json (get ''data'' []))
      else if type = js ''xml'' then Inr (segments_xml (get ''data'' []) [(js ''id'', opt_val (fld data ''id''))])
      else if type = js ''poke'' then
        Inr (segments_poke
          (SStr (case either_of (fld data ''type'') (fld data ''id'') of None \<Rightarrow> js ''0'' | Some t \<Rightarrow> t))
          (map_option SStr (fld data ''id'')))
      else if type = js ''forward'' then
        Inr (segments_forward (case either_of (fld data ''id'')
            (either_of (fld data ''res_id'') (fld data ''forward_id'')) of None \<Rightarrow> [] | Some i \<Rightarrow> i))
      else Inr (segments_raw type (str_fields data)))"

definition add_token :: "(jstr \<Rightarrow> jstr option) \<Rightarrow> cq_token \<Rightarrow> message_chain \<Rightarrow> sdk_error + message_chain" where
  "add_token other t c = (case t of
     CqText s \<Rightarrow> chain_do (Add (CText (sdk_cqUnescape s))) c
   | CqCode ty ps \<Rightarrow> bind_sum (segmentFromCq other ty (sdk_parseCQParams (case ps of None \<Rightarrow> [] | Some p \<Rightarrow> p)))
       (\<lambda>s. chain_do (Append (OutSeg s)) c))"

fun add_tokens :: "(jstr \<Rightarrow> jstr option) \<Rightarrow> cq_token list \<Rightarrow> message_chain \<Rightarrow> sdk_error + message_chain" where
  "add_tokens other [] c = Inr c"
| "add_tokens other (t # ts) c = bind_sum (add_token other t c) (add_tokens other ts)"

definition fromCQString :: "(jstr \<Rightarrow> jstr option) \<Rightarrow> jstr \<Rightarrow> sdk_error + message_chain" where
  "fromCQString other input = add_tokens other (cq_tokens sdk_type_char sdk_type_char [] input) chain_empty"

definition parseSegments :: "(jstr \<Rightarrow> jstr option) \<Rightarrow> jstr \<Rightarrow> sdk_error + seg list" where
  "parseSegments other input = bind_sum (fromCQString other input) (\<lambda>c. Inr (toSegments c))"

section \<open>Quoting\<close>

definition assertNoReply :: "seg list \<Rightarrow> sdk_error + unit" where
  "assertNoReply message = (if list_ex (\<lambda>s. seg_type s = js ''reply'') message then Inl QuoteHasReply else Inr ())"

text \<open>The id is \<open>None\<close> when the number is not an integer.\<close>

definition quoteMessage ::
    "(jstr \<Rightarrow> jstr option) \<Rightarrow> int option \<Rightarrow> outgoing \<Rightarrow> bool \<Rightarrow> sdk_error + (jstr + seg list)" where
  "quoteMessage other messageId message autoEscape =
     (case messageId of
        None \<Rightarrow> Inl QuoteIdInvalid
      | Some i \<Rightarrow>
          if i = 0 \<or> i < - 2147483648 \<or> 2147483647 < i then Inl QuoteIdInvalid
          else let quote = segments_reply (decimal_int i) in
            case normalizeMessage message of
              Inl t \<Rightarrow>
                if autoEscape then Inr (Inr [quote, segments_text t])
                else bind_sum (bind_sum (parseSegments other t) assertNoReply)
                  (\<lambda>_. Inr (Inl (js ''[CQ:reply,id='' @ decimal_int i @ js '']'' @ t)))
            | Inr ss \<Rightarrow> bind_sum (assertNoReply ss) (\<lambda>_. Inr (Inr (quote # ss))))"


section \<open>One reply per chain\<close>

definition replies :: "seg list \<Rightarrow> nat" where
  "replies ss = length (filter (\<lambda>s. seg_type s = js ''reply'') ss)"

definition chain_of :: "seg list \<Rightarrow> message_chain" where
  "chain_of ss = \<lparr>items = ss, used = (if replies ss = 0 then {} else {js ''reply''})\<rparr>"

lemma replies_simps [simp]:
  "replies [] = 0" "replies (xs @ ys) = replies xs + replies ys"
  "replies (s # ss) = (if seg_type s = js ''reply'' then 1 else 0) + replies ss"
  by (simp_all add: replies_def)

lemma items_chain_of [simp]: "items (chain_of ss) = ss"
  by (simp add: chain_of_def)

lemma chain_of_empty: "chain_of [] = chain_empty"
  by (simp add: chain_of_def chain_empty_def)

lemma add_all_chain:
  "replies xs \<le> 1 \<Longrightarrow> add_all ss (chain_of xs) =
     (if replies (xs @ ss) \<le> 1 then Inr (chain_of (xs @ ss)) else Inl (SingleUse (js ''reply'')))"
proof (induction ss arbitrary: xs)
  case (Cons s ss)
  have one: "addSegment s (chain_of xs) =
      (if replies (xs @ [s]) \<le> 1 then Inr (chain_of (xs @ [s])) else Inl (SingleUse (js ''reply'')))"
    using Cons.prems by (auto simp: addSegment_def chain_of_def SINGLE_USE_TYPES_def Let_def)
  show ?case using Cons.IH [of "xs @ [s]"] Cons.prems by (auto simp: one)
qed simp

definition call_segments :: "chain_call \<Rightarrow> seg list" where
  "call_segments call = (case call of
     Add c \<Rightarrow> [called_segment c]
   | Append m \<Rightarrow> (case normalizeMessage m of Inl t \<Rightarrow> [segments_text t] | Inr ss \<Rightarrow> ss))"

lemma add_all_one: "add_all [s] c = addSegment s c"
  by (cases "addSegment s c") simp_all

lemma chain_do_add_all: "chain_do call c = add_all (call_segments call) c"
  by (cases call)
    (auto simp: call_segments_def chain_append_def add_all_one simp del: add_all.simps split: sum.splits)

text \<open>C20: a chain never holds two replies.  Any sequence of calls on a new chain, appended messages
  and chains included, gives the chain of exactly the segments the calls add, in order, as long as
  there is at most one reply among them; with a second reply the sequence fails with the error
  for single-use segments.\<close>

theorem chain_single_reply:
  "chain_run calls chain_empty =
     (let ss = concat (map call_segments calls) in
      if replies ss \<le> 1 then Inr (chain_of ss) else Inl (SingleUse (js ''reply'')))"
proof -
  have "replies xs \<le> 1 \<Longrightarrow> chain_run calls (chain_of xs) = add_all (concat (map call_segments calls)) (chain_of xs)" for xs
  proof (induction calls arbitrary: xs)
    case (Cons call calls)
    then show ?case
      by (auto simp: chain_do_add_all add_all_chain)
  qed simp
  from this [of "[]"] show ?thesis using add_all_chain [of "[]" "concat (map call_segments calls)"]
    by (simp add: chain_of_empty Let_def)
qed

section \<open>Reading back what was printed\<close>

text \<open>
  What a segment says: its type and its fields, without those that are undefined or null, and
  numbers as their text, since a CQ code has only text.
\<close>

definition defined :: "sval obj \<Rightarrow> sval obj" where
  "defined data = filter (\<lambda>(k, v). v \<noteq> SUndef \<and> v \<noteq> SNull) data"

fun norm_val :: "sval \<Rightarrow> sval" where
  "norm_val (SNum s) = SStr s"
| "norm_val v = v"

definition obj_view :: "sval obj \<Rightarrow> jstr \<Rightarrow> sval option" where
  "obj_view data k = map_option norm_val (map_of (defined data) k)"

definition seg_view :: "seg \<Rightarrow> jstr \<times> (jstr \<Rightarrow> sval option)" where
  "seg_view s = (seg_type s, obj_view (seg_data s))"

fun text_of :: "sval \<Rightarrow> jstr" where
  "text_of (SStr s) = s"
| "text_of (SNum s) = s"
| "text_of (SBool b) = (if b then js ''true'' else js ''false'')"
| "text_of _ = []"

fun simple :: "sval \<Rightarrow> bool" where
  "simple (SStr s) = True"
| "simple (SNum s) = True"
| "simple (SBool b) = True"
| "simple _ = False"

definition printed :: "sval obj \<Rightarrow> jstr obj" where
  "printed data = map (\<lambda>(k, v). (k, text_of v)) (defined (obj_entries data))"

text \<open>The fields with which a code of each type means the segment it was printed from.\<close>

definition fields_ok :: "(jstr \<Rightarrow> jstr option) \<Rightarrow> jstr \<Rightarrow> jstr obj \<Rightarrow> bool" where
  "fields_ok other ty fs =
     (let has = (\<lambda>k. fld fs k \<noteq> None); only = (\<lambda>ks. fst ` set fs \<subseteq> js ` set ks) in
      if ty = js ''face'' then has ''id'' \<and> only [''id'', ''resultId'', ''large'']
      else if ty = js ''at'' then
        (only [''qq''] \<and> fld fs ''qq'' = Some (js ''all'')) \<or>
        (only [''qq'', ''name'', ''uid''] \<and> fld fs ''qq'' \<noteq> Some (js ''all'') \<and>
         Option.bind (fld fs ''qq'') (number_text other) = fld fs ''qq'' \<and> has ''qq'' \<and>
         fld fs ''name'' \<noteq> Some [] \<and> fld fs ''uid'' \<noteq> Some [])
      else if ty = js ''reply'' then has ''message'' \<or> (has ''id'' \<and> only [''id''])
      else if ty = js ''image'' then
        has ''file'' \<and> only [''file'', ''url'', ''type'', ''summary''] \<and>
        (has ''type'' \<longrightarrow> fld fs ''type'' = Some (js ''flash''))
      else if ty = js ''record'' then has ''file'' \<and> only [''file'', ''url'']
      else if ty = js ''video'' then has ''file'' \<and> only [''file'', ''url'', ''thumb'']
      else if ty = js ''json'' then has ''data'' \<and> only [''data'']
      else if ty = js ''xml'' then has ''data'' \<and> only [''data'', ''id'']
      else if ty = js ''poke'' then has ''type'' \<and> only [''type'', ''id'']
      else if ty = js ''forward'' then
        only [''id'', ''res_id'', ''forward_id''] \<and> has ''id'' \<and>
        fld fs ''res_id'' = fld fs ''id'' \<and> fld fs ''forward_id'' = fld fs ''id''
      else True)"

definition is_bool :: "sval \<Rightarrow> bool" where
  "is_bool v \<longleftrightarrow> v = SBool True \<or> v = SBool False"

definition cq_ok :: "(jstr \<Rightarrow> jstr option) \<Rightarrow> seg \<Rightarrow> bool" where
  "cq_ok other s =
     (let ty = seg_type s; data = seg_data s in
      distinct (map fst data) \<and>
      (if ty = js ''text'' then \<exists>t. t \<noteq> [] \<and> data = [(js ''text'', SStr t)]
       else ty \<noteq> [] \<and> list_all sdk_type_char ty \<and> list_all (\<lambda>(k, v). key_ok k \<and> simple v) (defined data) \<and>
         list_all (\<lambda>(k, v). is_bool v \<longleftrightarrow> ty = js ''face'' \<and> k = js ''large'') (defined data) \<and>
         (ty = js ''reply'' \<longrightarrow> (\<forall>v. map_of data (js ''message'') = Some v \<longrightarrow> v = SUndef \<or> (\<exists>t. v = SStr t))) \<and>
         fields_ok other ty (printed data)))"


text \<open>What a code means, given its fields.\<close>

definition read_view :: "jstr \<Rightarrow> jstr obj \<Rightarrow> jstr \<Rightarrow> sval option" where
  "read_view ty fs k =
     (if ty = js ''face'' \<and> k = js ''large'' then map_option (\<lambda>t. SBool (t = js ''true'')) (map_of fs k)
      else map_option SStr (map_of fs k))"

lemma only_iff: "fst ` set fs \<subseteq> K \<longleftrightarrow> (\<forall>k. k \<notin> K \<longrightarrow> map_of fs k = None)"
  by (auto simp: map_of_eq_None_iff)

lemma obj_view_str_fields [simp]: "obj_view (str_fields fs) = (\<lambda>k. map_option SStr (map_of fs k))"
proof
  fix k
  have "defined (str_fields fs) = str_fields fs" by (auto simp: defined_def filter_id_conv)
  then show "obj_view (str_fields fs) k = map_option SStr (map_of fs k)"
    by (simp add: obj_view_def map_of_map option.map_comp o_def)
qed

lemma defined_simps [simp]:
  "defined [] = []"
  "defined ((k, v) # d) = (if v = SUndef \<or> v = SNull then defined d else (k, v) # defined d)"
  by (simp_all add: defined_def)

lemma spread_simps [simp]:
  "spread base [] = base"
  "spread base ((k, v) # rest) = spread (AList.update k v base) rest"
  by (simp_all add: spread_def)

lemmas segment_defs = segments_text_def segments_face_def segments_at_def segments_reply_def
  segments_customReply_def segments_image_def segments_record_def segments_video_def segments_json_def
  segments_xml_def segments_poke_def segments_forward_def segments_raw_def

definition reads_back :: "(jstr \<Rightarrow> jstr option) \<Rightarrow> jstr \<Rightarrow> jstr obj \<Rightarrow> bool" where
  "reads_back other ty fs \<longleftrightarrow>
     (\<exists>s. segmentFromCq other ty fs = Inr s \<and> seg_type s = ty \<and> obj_view (seg_data s) = read_view ty fs)"

lemma reads_backI:
  "segmentFromCq other ty fs = Inr (Seg ty d) \<Longrightarrow> (\<And>k. obj_view d k = read_view ty fs k) \<Longrightarrow> reads_back other ty fs"
  by (auto simp: reads_back_def)

lemmas reads_simps = segmentFromCq_def segment_defs fields_ok_def only_iff obj_view_def read_view_def either_of_def

lemma obj_view_Cons:
  "obj_view ((k, v) # d) x = (if v \<noteq> SUndef \<and> v \<noteq> SNull \<and> x = k then Some (norm_val v) else obj_view d x)"
  by (simp add: obj_view_def)

lemma obj_view_opt:
  "obj_view ((k, opt_val v) # d) x = (if v \<noteq> None \<and> x = k then map_option SStr v else obj_view d x)"
  by (cases v) (simp_all add: obj_view_Cons)

lemma obj_view_Nil [simp]: "obj_view [] x = None"
  by (simp add: obj_view_def)

abbreviation only :: "jstr obj \<Rightarrow> string list \<Rightarrow> bool" where
  "only fs ks \<equiv> (\<forall>k. k \<notin> js ` set ks \<longrightarrow> map_of fs k = None)"

lemma fields_ok_media:
  "fields_ok other (js ''image'') fs \<longleftrightarrow> fld fs ''file'' \<noteq> None \<and> only fs [''file'', ''url'', ''type'', ''summary''] \<and>
     (fld fs ''type'' = None \<or> fld fs ''type'' = Some (js ''flash''))"
  "fields_ok other (js ''record'') fs \<longleftrightarrow> fld fs ''file'' \<noteq> None \<and> only fs [''file'', ''url'']"
  "fields_ok other (js ''video'') fs \<longleftrightarrow> fld fs ''file'' \<noteq> None \<and> only fs [''file'', ''url'', ''thumb'']"
  by (auto simp only: fields_ok_def Let_def only_iff js_eq list.inject char.inject if_True if_False
      simp_thms list.distinct)

lemma reads_image: "fields_ok other (js ''image'') fs \<Longrightarrow> reads_back other (js ''image'') fs"
proof -
  assume ok: "fields_ok other (js ''image'') fs"
  then obtain f where f: "fld fs ''file'' = Some f" by (auto simp: fields_ok_media)
  have t: "(if fld fs ''type'' = Some (js ''flash'') then SStr (js ''flash'') else SUndef) = opt_val (fld fs ''type'')"
    using ok by (auto simp: fields_ok_media)
  show ?thesis
  proof (rule reads_backI)
    show "segmentFromCq other (js ''image'') fs = Inr (Seg (js ''image'')
        [(js ''file'', opt_val (fld fs ''file'')), (js ''url'', opt_val (fld fs ''url'')),
         (js ''type'', opt_val (fld fs ''type'')), (js ''summary'', opt_val (fld fs ''summary''))])"
      by (simp add: segmentFromCq_def segment_defs t f either_of_def)
  qed (use ok in \<open>auto simp: obj_view_opt read_view_def fields_ok_media\<close>)
qed

lemma reads_media: "fields_ok other (js ''record'') fs \<Longrightarrow> reads_back other (js ''record'') fs"
  "fields_ok other (js ''video'') fs \<Longrightarrow> reads_back other (js ''video'') fs"
proof -
  let ?file = "(js ''file'', opt_val (fld fs ''file''))" and ?url = "(js ''url'', opt_val (fld fs ''url''))"
  show "reads_back other (js ''record'') fs" if ok: "fields_ok other (js ''record'') fs"
  proof (rule reads_backI)
    show "segmentFromCq other (js ''record'') fs = Inr (Seg (js ''record'') [?file, ?url])"
      using ok by (auto simp: fields_ok_media segmentFromCq_def segment_defs either_of_def)
  qed (use ok in \<open>auto simp: obj_view_opt read_view_def fields_ok_media\<close>)
  show "reads_back other (js ''video'') fs" if ok: "fields_ok other (js ''video'') fs"
  proof (rule reads_backI)
    show "segmentFromCq other (js ''video'') fs =
        Inr (Seg (js ''video'') [?file, ?url, (js ''thumb'', opt_val (fld fs ''thumb''))])"
      using ok by (auto simp: fields_ok_media segmentFromCq_def segment_defs either_of_def)
  qed (use ok in \<open>auto simp: obj_view_opt read_view_def fields_ok_media\<close>)
qed

lemma map_of_filter_key: "map_of (filter (\<lambda>(k, v). k \<noteq> a) fs) = (map_of fs)(a := None)"
  by (induction fs) auto

lemma reads_cards:
  assumes "fields_ok other ty fs" "ty \<in> {js ''json'', js ''xml'', js ''poke'', js ''forward''}"
  shows "reads_back other ty fs"
  unfolding reads_back_def using assms
  by (elim insertE emptyE) (auto simp: reads_simps fun_eq_iff split: option.splits if_splits)

lemma reads_at:
  assumes "fields_ok other (js ''at'') fs"
  shows "reads_back other (js ''at'') fs"
  unfolding reads_back_def using assms
  by (auto simp: reads_simps truthy_def fun_eq_iff split: option.splits if_splits)

lemma reads_face:
  assumes "fields_ok other (js ''face'') fs" "fld fs ''large'' \<in> {None, Some (js ''true''), Some (js ''false'')}"
  shows "reads_back other (js ''face'') fs"
  unfolding reads_back_def using assms
  by (auto simp: reads_simps face_options_def fun_eq_iff split: option.splits if_splits)

lemma reads_reply:
  assumes "fields_ok other (js ''reply'') fs"
  shows "reads_back other (js ''reply'') fs"
proof (cases "fld fs ''message''")
  case None
  with assms show ?thesis unfolding reads_back_def by (auto simp: reads_simps fun_eq_iff)
next
  case (Some m)
  let ?rest = "filter (\<lambda>(k, v). k \<noteq> js ''message'') fs"
  have "js ''message'' \<notin> fst ` set (str_fields ?rest)" by auto
  then have "spread (str_fields ?rest) [(js ''message'', SStr m)] = str_fields (?rest @ [(js ''message'', m)])"
    by (simp add: alist_update_new)
  moreover have "map_of (?rest @ [(js ''message'', m)]) = map_of fs"
    using Some by (simp add: map_of_filter_key fun_eq_iff map_add_def split: option.splits)
  ultimately have "segmentFromCq other (js ''reply'') fs = Inr (Seg (js ''reply'') (str_fields (?rest @ [(js ''message'', m)])))"
    "obj_view (str_fields (?rest @ [(js ''message'', m)])) = read_view (js ''reply'') fs"
    using Some by (simp_all only: obj_view_str_fields) (simp_all add: segmentFromCq_def segments_customReply_def read_view_def fun_eq_iff del: spread_simps)
  then show ?thesis unfolding reads_back_def by simp
qed

definition known_types :: "jstr set" where
  "known_types = {js ''text'', js ''face'', js ''at'', js ''reply'', js ''image'', js ''record'', js ''video'',
     js ''json'', js ''xml'', js ''poke'', js ''forward''}"

lemma reads_other: "ty \<notin> known_types \<Longrightarrow> reads_back other ty fs"
  by (auto simp: reads_back_def known_types_def segmentFromCq_def segments_raw_def read_view_def)

lemma reads_all:
  assumes "fields_ok other ty fs" "ty \<noteq> js ''text''"
    "ty = js ''face'' \<longrightarrow> fld fs ''large'' \<in> {None, Some (js ''true''), Some (js ''false'')}"
  shows "reads_back other ty fs"
  using assms reads_image [of other fs] reads_media [of other fs] reads_cards [of other ty fs] reads_at [of other fs] reads_face [of other fs]
    reads_reply [of other fs] reads_other [of ty other fs]
  by (auto simp: known_types_def)


subsection \<open>What is printed\<close>

lemma distinct_obj_entries: "distinct (map fst data) \<Longrightarrow> distinct (map fst (obj_entries data))"
  by (auto simp: obj_entries_def distinct_map inj_on_def)

lemma distinct_defined: "distinct (map fst data) \<Longrightarrow> distinct (map fst (defined data))"
  by (simp add: defined_def distinct_map_filter)

lemma set_defined: "set (defined data) = {(k, v) \<in> set data. v \<noteq> SUndef \<and> v \<noteq> SNull}"
  by (auto simp: defined_def)

lemma map_of_printed:
  assumes "distinct (map fst data)"
  shows "map_of (printed data) k = map_option text_of (map_of (defined data) k)"
proof -
  have "map_of (defined (obj_entries data)) = map_of (defined data)"
    using assms by (subst map_of_inject_set) (auto simp: distinct_obj_entries distinct_defined set_defined)
  then show ?thesis by (simp add: printed_def map_of_map)
qed

lemma printed_keys:
  assumes "distinct (map fst data)" "list_all (\<lambda>(k, v). key_ok k \<and> simple v) (defined data)"
  shows "\<forall>(k, t)\<in>set (printed data). key_ok k" "distinct (map fst (printed data))"
proof -
  show "\<forall>(k, t)\<in>set (printed data). key_ok k"
    using assms(2) by (fastforce simp: printed_def set_defined list_all_iff)
  have "map fst (printed data) = map fst (defined (obj_entries data))" by (simp add: printed_def case_prod_beta)
  then show "distinct (map fst (printed data))" using assms(1) by (simp add: distinct_defined distinct_obj_entries)
qed

lemma map_sum_list_Inr: "\<forall>x\<in>set xs. f x = Inr (g x) \<Longrightarrow> map_sum_list f xs = Inr (map g xs)"
  by (induction xs) auto

lemma string_of_simple: "simple v \<Longrightarrow> string_of v = Inr (text_of v)"
  by (cases v) auto

lemma print_params_Nil: "print_params esc fs = [] \<longleftrightarrow> fs = []"
  by (cases fs rule: list.exhaust; cases "tl fs") (auto simp: print_params_def)

definition seg_token :: "seg \<Rightarrow> cq_token" where
  "seg_token s =
     (if seg_type s = js ''text'' then
        CqText (escapeCqText (case map_of (seg_data s) (js ''text'') of None \<Rightarrow> [] | Some v \<Rightarrow> text_of v))
      else CqCode (seg_type s) (if printed (seg_data s) = [] then None
        else Some (print_params escapeCqParam (printed (seg_data s)))))"

lemma segmentToCq_token:
  assumes "cq_ok other s"
  shows "segmentToCq s = Inr (show_token (seg_token s))"
proof -
  obtain ty data where s: "s = Seg ty data" by (cases s)
  show ?thesis
  proof (cases "ty = js ''text''")
    case True
    with assms s show ?thesis by (auto simp: cq_ok_def seg_token_def)
  next
    case False
    let ?f = "\<lambda>(k, v). bind_sum (string_of v) (\<lambda>t. Inr (k @ [EQ] @ escapeCqParam t))"
    let ?g = "\<lambda>(k, v). k @ [EQ] @ escapeCqParam (text_of v)"
    have "\<forall>x\<in>set (defined (obj_entries data)). ?f x = Inr (?g x)"
      using assms s False by (fastforce simp: cq_ok_def list_all_iff set_defined string_of_simple)
    from map_sum_list_Inr [OF this]
    have "map_sum_list ?f (filter (\<lambda>(k, v). v \<noteq> SUndef \<and> v \<noteq> SNull) (obj_entries data)) =
        Inr (map ?g (defined (obj_entries data)))"
      by (simp add: defined_def)
    moreover have "join_with [COMMA] (map ?g (defined (obj_entries data))) = print_params escapeCqParam (printed data)"
      by (simp add: print_params_def printed_def o_def case_prod_unfold)
    moreover have "\<not> (case map_of data (js ''message'') of
        None \<Rightarrow> False | Some SUndef \<Rightarrow> False | Some (SStr _) \<Rightarrow> False | Some _ \<Rightarrow> True)" if "ty = js ''reply''"
      using assms s False that by (auto simp: cq_ok_def split: option.splits sval.splits)
    ultimately show ?thesis using s False
      by (auto simp: seg_token_def cq_code_def print_params_Nil js_def Let_def)
  qed
qed

lemma seg_token_ok:
  assumes "cq_ok other s"
  shows "token_ok sdk_type_char sdk_type_char (seg_token s)"
proof (cases "seg_type s = js ''text''")
  case True
  with assms show ?thesis using sdk_text.esc_Nil sdk_text.esc_special
    by (auto simp: cq_ok_def seg_token_def Let_def)
next
  case False
  with assms have ok: "distinct (map fst (seg_data s))" "list_all (\<lambda>(k, v). key_ok k \<and> simple v) (defined (seg_data s))"
    "seg_type s \<noteq> []" "list_all sdk_type_char (seg_type s)"
    by (simp_all add: cq_ok_def Let_def)
  with False show ?thesis
    using sdk_params.print_params_bracket [OF printed_keys(1) [OF ok(1,2)]]
    by (auto simp: seg_token_def neq_Nil_conv)
qed

lemma read_view_printed:
  assumes "cq_ok other s" "seg_type s \<noteq> js ''text''"
  shows "read_view (seg_type s) (printed (seg_data s)) = obj_view (seg_data s)"
proof
  fix k
  let ?d = "seg_data s"
  have ok: "distinct (map fst ?d)"
    "list_all (\<lambda>(k, v). key_ok k \<and> simple v) (defined ?d)"
    "list_all (\<lambda>(k, v). is_bool v \<longleftrightarrow> seg_type s = js ''face'' \<and> k = js ''large'') (defined ?d)"
    using assms by (simp_all add: cq_ok_def Let_def)
  show "read_view (seg_type s) (printed ?d) k = obj_view ?d k"
  proof (cases "map_of (defined ?d) k")
    case None
    then show ?thesis by (auto simp: read_view_def obj_view_def map_of_printed [OF ok(1)])
  next
    case (Some v)
    then have "(k, v) \<in> set (defined ?d)" by (rule map_of_SomeD)
    with ok(2,3) have "simple v" "is_bool v \<longleftrightarrow> seg_type s = js ''face'' \<and> k = js ''large''"
      by (auto simp: list_all_iff)
    with Some show ?thesis
      by (cases v) (auto simp: read_view_def obj_view_def map_of_printed [OF ok(1)] is_bool_def)
  qed
qed

text \<open>Each token of a printed message is read as a segment that says the same.\<close>

lemma token_reads:
  assumes "cq_ok other s"
  shows "\<exists>s'. (\<forall>c. add_token other (seg_token s) c = addSegment s' c) \<and> seg_view s' = seg_view s"
proof (cases "seg_type s = js ''text''")
  case True
  with assms obtain t where t: "s = Seg (js ''text'') [(js ''text'', SStr t)]"
    by (cases s) (auto simp: cq_ok_def)
  then show ?thesis
    by (intro exI [of _ s]) (simp add: add_token_def seg_token_def sdk_text.unesc_esc segments_text_def)
next
  case False
  let ?fs = "printed (seg_data s)"
  have ok: "distinct (map fst (seg_data s))" "list_all (\<lambda>(k, v). key_ok k \<and> simple v) (defined (seg_data s))"
    "list_all (\<lambda>(k, v). is_bool v \<longleftrightarrow> seg_type s = js ''face'' \<and> k = js ''large'') (defined (seg_data s))"
    "fields_ok other (seg_type s) ?fs"
    using assms False by (simp_all add: cq_ok_def Let_def)
  have parse: "sdk_parseCQParams (case if ?fs = [] then None else Some (print_params escapeCqParam ?fs) of
      None \<Rightarrow> [] | Some p \<Rightarrow> p) = ?fs"
    using sdk_params.parse_print_params [OF printed_keys [OF ok(1,2)]]
    by (auto simp: sdk_parseCQParams_def parse_params_def)
  have "fld ?fs ''large'' \<in> {None, Some (js ''true''), Some (js ''false'')}" if "seg_type s = js ''face''"
  proof (cases "map_of (defined (seg_data s)) (js ''large'')")
    case (Some v)
    then have "(js ''large'', v) \<in> set (defined (seg_data s))" by (rule map_of_SomeD)
    then have "is_bool v" using ok(3) that by (auto simp: list_all_iff)
    with Some show ?thesis by (auto simp: map_of_printed [OF ok(1)] is_bool_def)
  qed (simp add: map_of_printed [OF ok(1)])
  then have "reads_back other (seg_type s) ?fs" using reads_all [OF ok(4) False] by blast
  then obtain s' where s': "segmentFromCq other (seg_type s) ?fs = Inr s'" "seg_type s' = seg_type s"
      "obj_view (seg_data s') = obj_view (seg_data s)"
    using read_view_printed [OF assms False] by (auto simp: reads_back_def)
  have "add_token other (seg_token s) c = addSegment s' c" for c
    using False s'(1) parse
    by (simp add: add_token_def seg_token_def chain_append_def normalizeMessage_def add_all_one [symmetric] del: add_all.simps)
  with s' show ?thesis by (auto simp: seg_view_def)
qed

lemma tokens_read:
  assumes "\<forall>s\<in>set segs. cq_ok other s"
  shows "\<exists>segs'. (\<forall>c. add_tokens other (map seg_token segs) c = add_all segs' c) \<and> map seg_view segs' = map seg_view segs"
  using assms
proof (induction segs)
  case Nil
  then show ?case by (intro exI [of _ "[]"]) simp
next
  case (Cons s segs)
  from Cons obtain segs' where IH: "\<forall>c. add_tokens other (map seg_token segs) c = add_all segs' c"
    "map seg_view segs' = map seg_view segs" by auto
  from Cons.prems token_reads obtain s' where "\<forall>c. add_token other (seg_token s) c = addSegment s' c"
    "seg_view s' = seg_view s" by (meson list.set_intros(1))
  with IH show ?case by (intro exI [of _ "s' # segs'"]) (simp add: fun_eq_iff [symmetric])
qed

lemma replies_view: "map seg_view xs = map seg_view ys \<Longrightarrow> replies xs = replies ys"
  by (induction xs ys rule: list_induct2') (auto simp: seg_view_def)

text \<open>C19: round trip of a message built with the client library.  A list of segments with no two texts
  next to each other and at most one reply, all of them with fields that a code of their type can
  carry (\<open>cq_ok\<close>: no empty text, simple values, the fields the reader of that type knows and needs, for an
  image no type but \<open>flash\<close>), is printed as a CQ string that is read back into a chain whose segments
  say the same, in the same order: the same types and the same defined fields with the same
  values, whatever brackets, commas and ampersands they hold.\<close>

theorem cq_string_roundtrip:
  assumes "\<forall>s\<in>set segs. cq_ok other s"
    and "successively (\<lambda>a b. \<not> (seg_type a = js ''text'' \<and> seg_type b = js ''text'')) segs"
    and "replies segs \<le> 1"
  shows "\<exists>str c. segmentsToCQString segs = Inr str \<and> fromCQString other str = Inr c \<and>
    map seg_view (toSegments c) = map seg_view segs"
proof -
  let ?str = "concat (map show_token (map seg_token segs))"
  have "\<forall>s\<in>set segs. segmentToCq s = Inr (show_token (seg_token s))"
    using assms(1) segmentToCq_token by blast
  from map_sum_list_Inr [OF this] have print: "segmentsToCQString segs = Inr ?str"
    by (simp add: segmentsToCQString_def o_def)
  have "no_text_pair (map seg_token segs)"
    using assms(2) unfolding no_text_pair_def successively_map
    by (rule successively_mono) (auto simp: seg_token_def)
  moreover have "\<not> sdk_type_char RBR" "\<not> sdk_type_char COMMA"
    by (simp_all add: sdk_type_char_def cq_type_char_def letter_def)
  ultimately have scan: "cq_tokens sdk_type_char sdk_type_char [] ?str = map seg_token segs"
    using tokens_print [of "map seg_token segs" sdk_type_char sdk_type_char] assms(1) seg_token_ok by auto
  obtain segs' where segs': "\<forall>c. add_tokens other (map seg_token segs) c = add_all segs' c"
    "map seg_view segs' = map seg_view segs"
    using tokens_read [OF assms(1)] by blast
  have "fromCQString other ?str = Inr (chain_of segs')"
    using segs'(1) add_all_chain [of "[]" segs'] replies_view [OF segs'(2)] assms(3)
    unfolding fromCQString_def scan by (simp add: chain_of_empty)
  with print segs'(2) show ?thesis by (auto simp: toSegments_def)
qed


text \<open>A message with every special unit: text, a mention and an image without a link.\<close>

definition demo_segs :: "seg list" where
  "demo_segs = [segments_text (js ''a[b],&amp;''), segments_at (js ''10001'') None None,
     segments_image (js ''x,y'') [(js ''url'', SUndef)]]"

lemma demo_cq_ok: "s \<in> set demo_segs \<Longrightarrow> cq_ok (\<lambda>_. None) s"
proof -
  have idx: "\<not> is_index (js ''qq'')" "\<not> is_index (js ''file'')" "\<not> is_index (js ''url'')"
    by (simp_all add: is_index_def js_def)
  have keys: "key_ok (js ''qq'')" "key_ok (js ''file'')" "list_all sdk_type_char (js ''at'')" "js ''at'' \<noteq> []"
    "list_all sdk_type_char (js ''image'')" "js ''image'' \<noteq> []" "js ''a[b],&amp;'' \<noteq> []"
    by (simp_all add: key_ok_def sdk_type_char_def cq_type_char_def letter_def js_def)
  have num: "number_text (\<lambda>_. None) (js ''10001'') = Some (js ''10001'')"
    by (simp add: number_text_def digits_value_def js_def decimal.simps)
  have p: "printed [(js ''qq'', SStr t)] = [(js ''qq'', t)]"
    "printed [(js ''file'', SStr t), (js ''url'', SUndef)] = [(js ''file'', t)]" for t
    by (simp_all add: printed_def obj_entries_def idx)
  have "fields_ok (\<lambda>_. None) (js ''at'') [(js ''qq'', js ''10001'')]"
    "fields_ok (\<lambda>_. None) (js ''image'') [(js ''file'', js ''x,y'')]"
    by (simp_all add: fields_ok_def num)
  then have "cq_ok (\<lambda>_. None) (Seg (js ''at'') [(js ''qq'', SStr (js ''10001''))])"
    "cq_ok (\<lambda>_. None) (Seg (js ''image'') [(js ''file'', SStr (js ''x,y'')), (js ''url'', SUndef)])"
    by (simp_all add: cq_ok_def keys p is_bool_def)
  moreover have "cq_ok (\<lambda>_. None) (Seg (js ''text'') [(js ''text'', SStr (js ''a[b],&amp;''))])"
    using keys by (simp add: cq_ok_def)
  ultimately show "s \<in> set demo_segs \<Longrightarrow> cq_ok (\<lambda>_. None) s"
    by (auto simp: demo_segs_def segments_text_def segments_at_def segments_image_def truthy_def)
qed

theorem cq_string_roundtrip_witness:
  "\<exists>str c. segmentsToCQString demo_segs = Inr str \<and> fromCQString (\<lambda>_. None) str = Inr c \<and>
    map seg_view (toSegments c) = map seg_view demo_segs"
  by (rule cq_string_roundtrip)
    (use demo_cq_ok in \<open>simp_all add: demo_segs_def segments_text_def segments_at_def segments_image_def\<close>)

section \<open>Quotes\<close>

definition token_seg :: "(jstr \<Rightarrow> jstr option) \<Rightarrow> cq_token \<Rightarrow> sdk_error + seg" where
  "token_seg other t = (case t of
     CqText s \<Rightarrow> Inr (segments_text (sdk_cqUnescape s))
   | CqCode ty ps \<Rightarrow> segmentFromCq other ty (sdk_parseCQParams (case ps of None \<Rightarrow> [] | Some p \<Rightarrow> p)))"

lemma add_token_seg: "add_token other t c = bind_sum (token_seg other t) (\<lambda>s. addSegment s c)"
  by (auto simp: add_token_def token_seg_def chain_append_def normalizeMessage_def add_all_one [symmetric]
      simp del: add_all.simps split: cq_token.splits)

lemma add_tokens_elsewhere:
  assumes "add_tokens other ts (chain_of xs) = Inr c" "replies xs \<le> 1"
  shows "\<exists>ss. c = chain_of (xs @ ss) \<and>
    (\<forall>ys. replies (ys @ ss) \<le> 1 \<longrightarrow> add_tokens other ts (chain_of ys) = Inr (chain_of (ys @ ss)))"
  using assms
proof (induction ts arbitrary: xs)
  case Nil
  then show ?case by (intro exI [of _ "[]"]) simp
next
  case (Cons t ts)
  then obtain s where s: "token_seg other t = Inr s" by (cases "token_seg other t") (auto simp: add_token_seg)
  have step: "add_token other t (chain_of ys) =
      (if replies (ys @ [s]) \<le> 1 then Inr (chain_of (ys @ [s])) else Inl (SingleUse (js ''reply'')))"
    if "replies ys \<le> 1" for ys
    using add_all_chain [OF that, of "[s]"] by (simp add: add_token_seg s add_all_one del: add_all.simps)
  from Cons.prems step have "replies (xs @ [s]) \<le> 1" "add_tokens other ts (chain_of (xs @ [s])) = Inr c"
    by (auto split: if_splits)
  from Cons.IH [OF this(2,1)] obtain ss where ss: "c = chain_of ((xs @ [s]) @ ss)"
    "\<forall>ys. replies (ys @ ss) \<le> 1 \<longrightarrow> add_tokens other ts (chain_of ys) = Inr (chain_of (ys @ ss))" by blast
  have "add_tokens other (t # ts) (chain_of ys) = Inr (chain_of (ys @ s # ss))"
    if "replies (ys @ s # ss) \<le> 1" for ys
    using ss(2) [rule_format, of "ys @ [s]"] step [of ys] that by simp
  with ss(1) show ?case by (intro exI [of _ "s # ss"]) simp
qed

lemma decimal_int_plain: "plain_field (decimal_int i)"
  using decimal_digits [of "nat i"] decimal_digits [of "nat (- i)"]
  by (auto simp: plain_field_def decimal_int_def js_def)

lemma parse_quote:
  assumes "parseSegments other t = Inr body" "replies body = 0"
  shows "parseSegments other (js ''[CQ:reply,id='' @ decimal_int i @ js '']'' @ t) =
    Inr (segments_reply (decimal_int i) # body)"
proof -
  let ?d = "decimal_int i" and ?r = "segments_reply (decimal_int i)"
  have esc: "print_params escapeCqParam [(js ''id'', ?d)] = js ''id='' @ ?d"
    using cqEscape_plain [OF decimal_int_plain, of i]
    by (simp add: print_params_def escapes_enc) (simp add: js_def)
  have code: "js ''[CQ:reply,id='' @ ?d @ js '']'' @ t = cq_code (js ''reply'') (Some (js ''id='' @ ?d)) @ t"
    by (simp add: cq_code_def js_def)
  have params: "sdk_parseCQParams (js ''id='' @ ?d) = [(js ''id'', ?d)]"
    using sdk_params.parse_print_params [of "[(js ''id'', ?d)]"] cq_keys(2)
    by (simp add: sdk_parseCQParams_def esc)
  have "RBR \<notin> set (js ''id='' @ ?d)" using decimal_int_plain [of i] by (auto simp: plain_field_def js_def)
  then have "cq_tokens sdk_type_char sdk_type_char [] (cq_code (js ''reply'') (Some (js ''id='' @ ?d)) @ t) =
      CqCode (js ''reply'') (Some (js ''id='' @ ?d)) # cq_tokens sdk_type_char sdk_type_char [] t"
    by (subst tokens_code) (auto simp: js_def sdk_type_char_def cq_type_char_def letter_def)
  moreover have "token_seg other (CqCode (js ''reply'') (Some (js ''id='' @ ?d))) = Inr ?r"
    by (simp add: token_seg_def params segmentFromCq_def)
  moreover have "addSegment ?r chain_empty = Inr (chain_of [?r])"
    using add_all_chain [of "[]" "[?r]"] by (simp add: add_all_one chain_of_empty segments_reply_def del: add_all.simps)
  moreover obtain ss where "fromCQString other t = Inr (chain_of ss)" "body = ss"
    "\<forall>ys. replies (ys @ ss) \<le> 1 \<longrightarrow> add_tokens other (cq_tokens sdk_type_char sdk_type_char [] t) (chain_of ys) = Inr (chain_of (ys @ ss))"
  proof -
    from assms(1) obtain c where c: "fromCQString other t = Inr c" "body = items c"
      by (cases "fromCQString other t") (auto simp: parseSegments_def toSegments_def)
    from c(1) have "add_tokens other (cq_tokens sdk_type_char sdk_type_char [] t) (chain_of []) = Inr c"
      by (simp add: fromCQString_def chain_of_empty)
    from add_tokens_elsewhere [OF this] c show thesis using that by auto
  qed
  ultimately show ?thesis using assms(2) unfolding code
    by (simp add: parseSegments_def fromCQString_def add_token_seg toSegments_def segments_reply_def)
qed

text \<open>Quoting.  For a message id in range, quoting a message without a reply gives a message
  that is read as the reply followed by exactly the segments the message is read as on its own,
  whether it is text to be escaped, CQ text kept as it is, segments or a chain; a message that
  already has a reply is refused.\<close>

lemma quote_reads:
  assumes "i \<noteq> 0" "- 2147483648 \<le> i" "i \<le> 2147483647"
    and "(case normalizeMessage m of
      Inl t \<Rightarrow> if autoEscape then Inr [segments_text t] else parseSegments other t | Inr ss \<Rightarrow> Inr ss) = Inr body"
  shows "if replies body = 0 then
      \<exists>q. quoteMessage other (Some i) m autoEscape = Inr q \<and>
        (case q of Inl t \<Rightarrow> parseSegments other t | Inr ss \<Rightarrow> Inr ss) = Inr (segments_reply (decimal_int i) # body)
    else quoteMessage other (Some i) m autoEscape = Inl QuoteHasReply"
proof -
  have r: "list_ex (\<lambda>s. seg_type s = js ''reply'') ss \<longleftrightarrow> replies ss \<noteq> 0" for ss
    by (induction ss) auto
  show ?thesis using assms parse_quote [of other _ body i]
    by (cases "normalizeMessage m")
      (auto simp: quoteMessage_def assertNoReply_def r Let_def segments_text_def split: if_splits)
qed

end
