(* ===== verification/Log_Sanitize.thy ===== *)
theory Log_Sanitize
  imports SL_Prelude "HOL-Library.Sublist"
begin

text \<open>
  Cleaning of log lines, packages/common/src/log-sanitize.ts: terminal control sequences and control
  characters are cut out of a line before it is stored.  The code walks the line by index and
  collects the visible spans; the reference below consumes it unit by unit.
\<close>

section \<open>The walk\<close>

definition ESC :: nat where "ESC = 0x1b"
definition BEL :: nat where "BEL = 0x07"
definition C1_CSI :: nat where "C1_CSI = 0x9b"
definition C1_ST :: nat where "C1_ST = 0x9c"
definition C1_OSC :: nat where "C1_OSC = 0x9d"
definition C1_STRING_STARTERS :: "nat set" where "C1_STRING_STARTERS = {0x90, 0x98, 0x9e, 0x9f}"

lemmas control_codes = ESC_def BEL_def C1_CSI_def C1_ST_def C1_OSC_def C1_STRING_STARTERS_def

text \<open>\<open>charCodeAt\<close>: out of range it is NaN, of which every comparison is false.\<close>

definition charCodeAt :: "jstr \<Rightarrow> nat \<Rightarrow> nat option" where
  "charCodeAt line i = (if i < length line then Some (line ! i) else None)"

function skipCsi :: "jstr \<Rightarrow> nat \<Rightarrow> nat" where
  "skipCsi line i =
     (if i < length line then
        (if 0x40 \<le> line ! i \<and> line ! i \<le> 0x7e then i + 1 else skipCsi line (i + 1))
      else length line)"
  by pat_completeness auto
termination by (relation "measure (\<lambda>(line, i). length line - i)") auto

function skipControlString :: "jstr \<Rightarrow> nat \<Rightarrow> bool \<Rightarrow> nat" where
  "skipControlString line i allowBell =
     (if i < length line then
        (let code = line ! i in
         if allowBell \<and> code = BEL then i + 1
         else if code = C1_ST then i + 1
         else if code = ESC \<and> charCodeAt line (i + 1) = Some 0x5c then i + 2
         else skipControlString line (i + 1) allowBell)
      else length line)"
  by pat_completeness auto
termination by (relation "measure (\<lambda>(line, i, allowBell). length line - i)") auto

function skip_intermediates :: "jstr \<Rightarrow> nat \<Rightarrow> nat" where
  "skip_intermediates line i =
     (if i < length line \<and> \<not> (line ! i < 0x20 \<or> 0x2f < line ! i) then skip_intermediates line (i + 1) else i)"
  by pat_completeness auto
termination by (relation "measure (\<lambda>(line, i). length line - i)") auto

declare skipCsi.simps [simp del] skipControlString.simps [simp del] skip_intermediates.simps [simp del]

definition skipEscSequence :: "jstr \<Rightarrow> nat \<Rightarrow> nat" where
  "skipEscSequence line start =
     (if length line \<le> start then length line
      else let first = line ! start in
        if first = 0x5b then skipCsi line (start + 1)
        else if first = 0x5d then skipControlString line (start + 1) True
        else if first = 0x50 \<or> first = 0x58 \<or> first = 0x5e \<or> first = 0x5f then skipControlString line (start + 1) False
        else let i = skip_intermediates line start in
          case charCodeAt line i of
            None \<Rightarrow> start
          | Some final \<Rightarrow> if 0x30 \<le> final \<and> final \<le> 0x7e then i + 1 else start)"

definition next_index :: "jstr \<Rightarrow> nat \<Rightarrow> nat option" where
  "next_index line i =
     (let code = line ! i in
      if code = ESC then Some (skipEscSequence line (i + 1))
      else if code = C1_CSI then Some (skipCsi line (i + 1))
      else if code = C1_OSC \<or> code \<in> C1_STRING_STARTERS then Some (skipControlString line (i + 1) (code = C1_OSC))
      else if (code < 0x20 \<and> code \<noteq> 0x09 \<and> code \<noteq> 0x0a) \<or> (0x7f \<le> code \<and> code \<le> 0x9f) then Some (i + 1)
      else None)"

section \<open>Sequences as suffixes\<close>

text \<open>What is left of a line behind each kind of sequence.\<close>

fun after_csi :: "jstr \<Rightarrow> jstr" where
  "after_csi [] = []"
| "after_csi (c # cs) = (if 0x40 \<le> c \<and> c \<le> 0x7e then cs else after_csi cs)"

fun after_string :: "bool \<Rightarrow> jstr \<Rightarrow> jstr" where
  "after_string bell [] = []"
| "after_string bell (c # cs) =
     (if (bell \<and> c = BEL) \<or> c = C1_ST then cs
      else if c = ESC \<and> take 1 cs = [0x5c] then tl cs
      else after_string bell cs)"

definition after_esc :: "jstr \<Rightarrow> jstr" where
  "after_esc s = (case s of
     [] \<Rightarrow> []
   | c # cs \<Rightarrow>
       if c = 0x5b then after_csi cs
       else if c = 0x5d then after_string True cs
       else if c \<in> {0x50, 0x58, 0x5e, 0x5f} then after_string False cs
       else case dropWhile (\<lambda>x. 0x20 \<le> x \<and> x \<le> 0x2f) s of
           [] \<Rightarrow> s
         | f # rest \<Rightarrow> if 0x30 \<le> f \<and> f \<le> 0x7e then rest else s)"

definition visible :: "nat \<Rightarrow> bool" where
  "visible c \<longleftrightarrow> (0x20 \<le> c \<or> c = 0x09 \<or> c = 0x0a) \<and> \<not> (0x7f \<le> c \<and> c \<le> 0x9f)"

definition after_control :: "nat \<Rightarrow> jstr \<Rightarrow> jstr" where
  "after_control c cs =
     (if c = ESC then after_esc cs
      else if c = C1_CSI then after_csi cs
      else if c = C1_OSC then after_string True cs
      else if c \<in> C1_STRING_STARTERS then after_string False cs
      else cs)"

lemma after_csi_suffix: "suffix (after_csi s) s"
  by (induction s) (auto intro: suffix_ConsI)

lemma after_string_suffix: "suffix (after_string b s) s"
proof (induction s)
  case (Cons c cs)
  have "suffix (tl cs) (c # cs)" by (cases cs) (auto intro: suffix_ConsI)
  with Cons show ?case by (auto intro: suffix_ConsI)
qed simp

lemma after_esc_suffix: "suffix (after_esc s) s"
proof (cases s)
  case (Cons c cs)
  have "suffix rest s" if "dropWhile P s = f # rest" for P f rest
    using suffix_dropWhile [of P s] that by (metis suffix_ConsD)
  with Cons show ?thesis using after_csi_suffix [of cs] after_string_suffix [of _ cs]
    by (auto simp: after_esc_def suffix_ConsI simp del: dropWhile.simps split: list.splits)
qed (simp add: after_esc_def)

lemma after_control_suffix: "suffix (after_control c cs) cs"
  using after_esc_suffix after_csi_suffix after_string_suffix by (simp add: after_control_def)

lemma after_control_length: "length (after_control c cs) \<le> length cs"
  by (rule suffix_length_le [OF after_control_suffix])

text \<open>An index and the suffix of the line it stands for.\<close>

definition rest_at :: "jstr \<Rightarrow> nat \<Rightarrow> jstr \<Rightarrow> bool" where
  "rest_at line i s \<longleftrightarrow> i \<le> length line \<and> drop i line = s"

lemma rest_at_Nil: "rest_at line i [] \<longleftrightarrow> i = length line"
  by (auto simp: rest_at_def)

lemma rest_at_Cons: "rest_at line i (c # cs) \<longleftrightarrow> i < length line \<and> line ! i = c \<and> rest_at line (Suc i) cs"
  by (cases "i < length line") (auto simp: rest_at_def Cons_nth_drop_Suc [symmetric])

lemma rest_at_end: "rest_at line (length line) []"
  by (simp add: rest_at_Nil)

lemma rest_at_order: "rest_at line i s \<Longrightarrow> rest_at line j t \<Longrightarrow> length t \<le> length s \<Longrightarrow> i \<le> j"
  by (auto simp: rest_at_def)

lemma skipCsi_rest: "rest_at line i s \<Longrightarrow> rest_at line (skipCsi line i) (after_csi s)"
  by (induction s arbitrary: i)
    (auto simp: rest_at_Cons rest_at_Nil skipCsi.simps [of line])

lemma charCodeAt_rest: "rest_at line i s \<Longrightarrow> charCodeAt line i = (case s of [] \<Rightarrow> None | c # _ \<Rightarrow> Some c)"
  by (cases s) (auto simp: charCodeAt_def rest_at_Nil rest_at_Cons)

lemma skipControlString_rest:
  "rest_at line i s \<Longrightarrow> rest_at line (skipControlString line i b) (after_string b s)"
proof (induction s arbitrary: i)
  case Nil
  then show ?case by (simp add: rest_at_Nil skipControlString.simps [of line])
next
  case (Cons c cs)
  then have i: "i < length line" "line ! i = c" "rest_at line (Suc i) cs" by (auto simp: rest_at_Cons)
  have "charCodeAt line (Suc i) = Some 0x5c \<longleftrightarrow> take 1 cs = [0x5c]"
    using charCodeAt_rest [OF i(3)] by (cases cs) auto
  moreover have "take 1 cs = [0x5c] \<Longrightarrow> rest_at line (Suc (Suc i)) (tl cs)"
    using i(3) by (cases cs) (auto simp: rest_at_Cons)
  ultimately show ?case using i Cons.IH [OF i(3)]
    by (auto simp: skipControlString.simps [of line i] Let_def)
qed

lemma skip_intermediates_rest:
  "rest_at line i s \<Longrightarrow> rest_at line (skip_intermediates line i) (dropWhile (\<lambda>x. 0x20 \<le> x \<and> x \<le> 0x2f) s)"
  by (induction s arbitrary: i)
    (auto simp: rest_at_Cons rest_at_Nil skip_intermediates.simps [of line])

lemma skipEscSequence_rest:
  assumes "rest_at line i s"
  shows "rest_at line (skipEscSequence line i) (after_esc s)"
proof (cases s)
  case Nil
  with assms show ?thesis by (simp add: after_esc_def skipEscSequence_def rest_at_Nil)
next
  case (Cons c cs)
  with assms have i: "i < length line" "line ! i = c" "rest_at line (Suc i) cs" by (auto simp: rest_at_Cons)
  let ?d = "dropWhile (\<lambda>x. 0x20 \<le> x \<and> x \<le> 0x2f) s"
  note d = skip_intermediates_rest [OF assms]
  have tail: "rest_at line (case charCodeAt line (skip_intermediates line i) of None \<Rightarrow> i
       | Some final \<Rightarrow> if 0x30 \<le> final \<and> final \<le> 0x7e then skip_intermediates line i + 1 else i)
     (case ?d of [] \<Rightarrow> s | f # rest \<Rightarrow> if 0x30 \<le> f \<and> f \<le> 0x7e then rest else s)"
    using d assms charCodeAt_rest [OF d] by (cases ?d) (simp_all add: rest_at_Cons del: dropWhile_eq_Nil_conv)
  show ?thesis
    using i tail [unfolded Cons] Cons skipCsi_rest [OF i(3)] skipControlString_rest [OF i(3), of True] skipControlString_rest [OF i(3), of False]
    by (simp add: skipEscSequence_def after_esc_def Let_def del: dropWhile.simps)
qed

lemma next_index_rest:
  assumes "rest_at line i (c # cs)"
  shows "case next_index line i of None \<Rightarrow> visible c
    | Some n \<Rightarrow> \<not> visible c \<and> rest_at line n (after_control c cs)"
proof -
  from assms have i: "line ! i = c" "rest_at line (Suc i) cs" by (auto simp: rest_at_Cons)
  show ?thesis
    using i skipEscSequence_rest [OF i(2)] skipCsi_rest [OF i(2)]
      skipControlString_rest [OF i(2), of True] skipControlString_rest [OF i(2), of False]
    by (auto simp: next_index_def after_control_def visible_def control_codes Let_def)
qed

lemma next_index_gt:
  assumes "next_index line i = Some n" "i < length line"
  shows "i < n \<and> n \<le> length line"
proof -
  have r: "rest_at line i (line ! i # drop (Suc i) line)" using assms(2) by (simp add: rest_at_def Cons_nth_drop_Suc)
  with assms have n: "rest_at line n (after_control (line ! i) (drop (Suc i) line))"
    using next_index_rest [OF r] by simp
  moreover from r have "rest_at line (Suc i) (drop (Suc i) line)" by (simp add: rest_at_Cons)
  ultimately have "Suc i \<le> n" using rest_at_order after_control_length by blast
  with n show ?thesis by (auto simp: rest_at_def)
qed

section \<open>The main loop\<close>

text \<open>The main loop: the position, the start of the visible span and the spans so far.\<close>

function sanitize_loop :: "jstr \<Rightarrow> nat \<Rightarrow> nat \<Rightarrow> jstr list \<Rightarrow> nat \<times> jstr list" where
  "sanitize_loop line i start parts =
     (if i < length line then
        (case next_index line i of
           None \<Rightarrow> sanitize_loop line (i + 1) start parts
         | Some n \<Rightarrow> sanitize_loop line n n (parts @ [drop start (take i line)]))
      else (start, parts))"
  by pat_completeness auto
termination
  by (relation "measure (\<lambda>(line, i, start, parts). length line - i)") (auto dest: next_index_gt)

declare sanitize_loop.simps [simp del]

text \<open>
  The copy of a short result (\<open>split('').join('')\<close>) is a concern of memory: it is the same string.
\<close>

definition sanitizeLogLine :: "jstr \<Rightarrow> jstr" where
  "sanitizeLogLine line =
     (let (start, parts) = sanitize_loop line 0 0 [] in
      if start = 0 then line
      else let plain = concat (parts @ [drop start line]) in
        if 0 < length plain \<and> 2 * length plain < length line then concat (map (\<lambda>c. [c]) plain)
        else plain)"

section \<open>The reference\<close>

function strip :: "jstr \<Rightarrow> jstr" where
  "strip [] = []"
| "strip (c # cs) = (if visible c then c # strip cs else strip (after_control c cs))"
  by pat_completeness auto
termination
  by (relation "measure length") (auto simp: less_Suc_eq_le after_control_length)


lemma loop_strip:
  assumes "rest_at line i s" "start \<le> i"
  shows "case sanitize_loop line i start parts of (start', parts') \<Rightarrow>
    concat parts' @ drop start' line = concat parts @ drop start (take i line) @ strip s \<and>
    (start' = 0 \<longrightarrow> start = 0 \<and> parts' = parts)"
  using assms
proof (induction s arbitrary: i start parts rule: strip.induct)
  case 1
  then show ?case by (simp add: sanitize_loop.simps [of line "length line"] rest_at_Nil)
next
  case (2 c cs)
  then have i: "i < length line" "line ! i = c" "rest_at line (Suc i) cs" by (auto simp: rest_at_Cons)
  show ?case
  proof (cases "next_index line i")
    case None
    then have v: "visible c" using next_index_rest [OF 2(3)] by simp
    have "drop start (take (Suc i) line) = drop start (take i line) @ [c]"
      using i 2(4) by (simp add: take_Suc_conv_app_nth)
    then show ?thesis using 2(1) [OF v i(3), of start parts] 2(4) v None i(1)
      by (simp add: sanitize_loop.simps [of line i] split: prod.splits)
  next
    case (Some n)
    then have n: "\<not> visible c" "rest_at line n (after_control c cs)" using next_index_rest [OF 2(3)] by simp_all
    have "n \<noteq> 0" using next_index_gt [OF Some i(1)] by simp
    then show ?thesis using 2(2) [OF n, of n "parts @ [drop start (take i line)]"] n(1) Some i(1) next_index_gt [OF Some i(1)]
      by (auto simp: sanitize_loop.simps [of line i] split: prod.splits)
  qed
qed

lemma sanitize_strip: "sanitizeLogLine line = strip line"
proof -
  obtain start parts where l: "sanitize_loop line 0 0 [] = (start, parts)" by (cases "sanitize_loop line 0 0 []")
  have "concat parts @ drop start line = strip line" "start = 0 \<longrightarrow> parts = []"
    using loop_strip [of line 0 line 0 "[]"] l by (auto simp: rest_at_def)
  then show ?thesis using l by (auto simp: sanitizeLogLine_def Let_def concat_map_singleton)
qed

text \<open>C21: the span-collecting implementation is the unit-by-unit reference: it keeps the visible
  units and drops control characters with the terminal sequences they introduce, up to the end of
  the line when a sequence is not terminated.\<close>

theorem sanitize_is_strip: "sanitizeLogLine line = strip line"
  by (rule sanitize_strip)

lemma strip_visible: "c \<in> set (strip s) \<Longrightarrow> visible c"
  by (induction s rule: strip.induct) (auto split: if_splits)

lemma strip_id: "\<forall>c\<in>set s. visible c \<Longrightarrow> strip s = s"
  by (induction s) auto

lemma strip_subseq: "subseq (strip s) s"
proof (induction s rule: strip.induct)
  case (2 c cs)
  then show ?case
    by (auto intro: subseq_order.trans [OF _ suffix_imp_subseq [OF after_control_suffix]] list_emb_Cons)
qed simp

text \<open>A stored line holds no control character but TAB and LF, whatever was logged; cleaning
  only deletes units, and cleaning again changes nothing.\<close>

lemma sanitized_line_clean:
  "list_all visible (sanitizeLogLine line) \<and> subseq (sanitizeLogLine line) line \<and>
   sanitizeLogLine (sanitizeLogLine line) = sanitizeLogLine line"
  using strip_visible strip_id strip_subseq unfolding sanitize_strip by (auto simp: list_all_iff)

end
