(* ===== verification/Single_Flight.thy ===== *)
theory Single_Flight
  imports SL_Prelude "HOL-Library.AList"
begin

text \<open>
  The single-flight cache, packages/common/src/single-flight-cache.ts.  The methods are functions on
  the state of the cache; promises are task numbers.  A task is loading until the promise of
  \<open>load\<close> settles, then its continuation runs, then its \<open>finally\<close> handler; other calls come in
  between at any point, so a run is a sequence of steps in any order the runtime allows.
\<close>

section \<open>State\<close>

text \<open>\<open>c_ttl\<close> is \<open>None\<close> for an infinite \<open>ttlMs\<close>.  Times are milliseconds of the clock.\<close>

record 'v sf_options =
  c_ttl :: "int option"
  c_shouldCache :: "'v \<Rightarrow> bool"

datatype phase = Loading | Settling | Finished

text \<open>What has happened, for the statements only.\<close>

datatype ('k, 'v) sf_event =
    Started nat 'k | Resolved nat 'v int | Rejected nat | Dropped 'k | DroppedAll

record ('k, 'v) sf_cache =
  fresh :: "('k \<times> (int \<times> 'v)) list"
  inflight :: "'k \<rightharpoonup> nat"
  expiryTimer :: "int option"
  disposed :: bool
  tasks :: "('k \<times> phase) list"
  history :: "('k, 'v) sf_event list"

definition new_cache :: "('k, 'v) sf_cache" where
  "new_cache = \<lparr>fresh = [], inflight = Map.empty, expiryTimer = None, disposed = False, tasks = [], history = []\<rparr>"

section \<open>Operations\<close>

definition expired :: "'v sf_options \<Rightarrow> int \<Rightarrow> int \<Rightarrow> bool" where
  "expired opts now stored = (case c_ttl opts of None \<Rightarrow> False | Some ttl \<Rightarrow> ttl \<le> now - stored)"

definition cancelExpiryIfEmpty :: "('k, 'v) sf_cache \<Rightarrow> ('k, 'v) sf_cache" where
  "cancelExpiryIfEmpty c = (if fresh c = [] \<and> expiryTimer c \<noteq> None then c\<lparr>expiryTimer := None\<rparr> else c)"

definition scheduleExpiry :: "'v sf_options \<Rightarrow> int \<Rightarrow> ('k, 'v) sf_cache \<Rightarrow> ('k, 'v) sf_cache" where
  "scheduleExpiry opts now c =
     (case c_ttl opts of
        None \<Rightarrow> c
      | Some ttl \<Rightarrow>
          if expiryTimer c \<noteq> None then c
          else case fresh c of
            [] \<Rightarrow> c
          | (k, stored, v) # _ \<Rightarrow> c\<lparr>expiryTimer := Some (max 1 (min (2 ^ 31 - 1) (stored + ttl - now)))\<rparr>)"

definition log :: "('k, 'v) sf_event \<Rightarrow> ('k, 'v) sf_cache \<Rightarrow> ('k, 'v) sf_cache" where
  "log e c = c\<lparr>history := history c @ [e]\<rparr>"

datatype 'v outcome = GDisposed | GHit 'v | GTask nat

text \<open>The start of a load: the task is registered before anything else can run.\<close>

definition start_load :: "'k \<Rightarrow> ('k, 'v) sf_cache \<Rightarrow> ('k, 'v) sf_cache" where
  "start_load key c = log (Started (length (tasks c)) key)
     (c\<lparr>tasks := tasks c @ [(key, Loading)], inflight := (inflight c)(key \<mapsto> length (tasks c))\<rparr>)"

definition drop_expired :: "'v sf_options \<Rightarrow> 'k \<Rightarrow> int \<Rightarrow> ('k, 'v) sf_cache \<Rightarrow> ('k, 'v) sf_cache" where
  "drop_expired opts key now c = (case map_of (fresh c) key of
     Some (stored, v) \<Rightarrow>
       if expired opts now stored then cancelExpiryIfEmpty (c\<lparr>fresh := AList.delete key (fresh c)\<rparr>) else c
   | None \<Rightarrow> c)"

definition join_load :: "'k \<Rightarrow> ('k, 'v) sf_cache \<Rightarrow> 'v outcome \<times> ('k, 'v) sf_cache" where
  "join_load key c = (case inflight c key of
     Some t \<Rightarrow> (GTask t, c)
   | None \<Rightarrow> (GTask (length (tasks c)), start_load key c))"

definition get :: "'v sf_options \<Rightarrow> 'k \<Rightarrow> bool \<Rightarrow> int \<Rightarrow> ('k, 'v) sf_cache \<Rightarrow> 'v outcome \<times> ('k, 'v) sf_cache" where
  "get opts key force now c =
     (if disposed c then (GDisposed, c)
      else let c1 = drop_expired opts key now c in
        case map_of (fresh c1) key of
          Some (stored, v) \<Rightarrow> if force then join_load key c1 else (GHit v, c1)
        | None \<Rightarrow> join_load key c1)"

text \<open>The continuation of a load, for a value and for a rejection.\<close>

definition load_resolved ::
    "'v sf_options \<Rightarrow> nat \<Rightarrow> 'v \<Rightarrow> int \<Rightarrow> ('k, 'v) sf_cache \<Rightarrow> ('k, 'v) sf_cache" where
  "load_resolved opts task v now c =
     (let key = fst (tasks c ! task);
          c1 = log (Resolved task v now) (c\<lparr>tasks := (tasks c)[task := (key, Settling)]\<rparr>)
      in if inflight c key = Some task \<and> (case c_ttl opts of None \<Rightarrow> True | Some ttl \<Rightarrow> 0 < ttl) \<and>
            c_shouldCache opts v
         then scheduleExpiry opts now (c1\<lparr>fresh := AList.update key (now, v) (AList.delete key (fresh c1))\<rparr>)
         else c1)"

definition load_rejected :: "nat \<Rightarrow> ('k, 'v) sf_cache \<Rightarrow> ('k, 'v) sf_cache" where
  "load_rejected task c = log (Rejected task) (c\<lparr>tasks := (tasks c)[task := (fst (tasks c ! task), Settling)]\<rparr>)"

definition task_finally :: "nat \<Rightarrow> ('k, 'v) sf_cache \<Rightarrow> ('k, 'v) sf_cache" where
  "task_finally task c =
     (let key = fst (tasks c ! task); c1 = c\<lparr>tasks := (tasks c)[task := (key, Finished)]\<rparr> in
      if inflight c key = Some task then c1\<lparr>inflight := (inflight c)(key := None)\<rparr> else c1)"

definition invalidate :: "'k \<Rightarrow> ('k, 'v) sf_cache \<Rightarrow> ('k, 'v) sf_cache" where
  "invalidate key c = cancelExpiryIfEmpty (log (Dropped key)
     (c\<lparr>fresh := AList.delete key (fresh c), inflight := (inflight c)(key := None)\<rparr>))"

definition clear :: "('k, 'v) sf_cache \<Rightarrow> ('k, 'v) sf_cache" where
  "clear c = cancelExpiryIfEmpty (log DroppedAll (c\<lparr>fresh := [], inflight := Map.empty\<rparr>))"

definition dispose :: "('k, 'v) sf_cache \<Rightarrow> ('k, 'v) sf_cache" where
  "dispose c = clear (c\<lparr>disposed := True\<rparr>)"

definition timer_fires :: "'v sf_options \<Rightarrow> int \<Rightarrow> ('k, 'v) sf_cache \<Rightarrow> ('k, 'v) sf_cache" where
  "timer_fires opts now c =
     scheduleExpiry opts now
       (c\<lparr>expiryTimer := None, fresh := dropWhile (\<lambda>(k, stored, v). expired opts now stored) (fresh c)\<rparr>)"

section \<open>Runs\<close>

text \<open>
  The steps the runtime can make.  Every step carries the time of the clock it reads; the clock
  does not go back.
\<close>

inductive sf_run :: "'v sf_options \<Rightarrow> int \<Rightarrow> ('k, 'v) sf_cache \<Rightarrow> bool" for opts where
  sf_new: "sf_run opts now new_cache"
| sf_tick: "sf_run opts now c \<Longrightarrow> now \<le> now' \<Longrightarrow> sf_run opts now' c"
| sf_get: "sf_run opts now c \<Longrightarrow> sf_run opts now (snd (get opts key force now c))"
| sf_resolved: "sf_run opts now c \<Longrightarrow> task < length (tasks c) \<Longrightarrow> snd (tasks c ! task) = Loading \<Longrightarrow>
    sf_run opts now (load_resolved opts task v now c)"
| sf_rejected: "sf_run opts now c \<Longrightarrow> task < length (tasks c) \<Longrightarrow> snd (tasks c ! task) = Loading \<Longrightarrow>
    sf_run opts now (load_rejected task c)"
| sf_finally: "sf_run opts now c \<Longrightarrow> task < length (tasks c) \<Longrightarrow> snd (tasks c ! task) = Settling \<Longrightarrow>
    sf_run opts now (task_finally task c)"
| sf_invalidate: "sf_run opts now c \<Longrightarrow> sf_run opts now (invalidate key c)"
| sf_clear: "sf_run opts now c \<Longrightarrow> sf_run opts now (clear c)"
| sf_dispose: "sf_run opts now c \<Longrightarrow> sf_run opts now (dispose c)"
| sf_timer: "sf_run opts now c \<Longrightarrow> expiryTimer c \<noteq> None \<Longrightarrow> sf_run opts now (timer_fires opts now c)"

section \<open>Invariant\<close>

text \<open>The history of a key since it was last invalidated.\<close>

definition drops :: "'k \<Rightarrow> ('k, 'v) sf_event \<Rightarrow> bool" where
  "drops key e \<longleftrightarrow> e = Dropped key \<or> e = DroppedAll"

definition since_drop :: "'k \<Rightarrow> ('k, 'v) sf_event list \<Rightarrow> ('k, 'v) sf_event list" where
  "since_drop key h = rev (takeWhile (\<lambda>e. \<not> drops key e) (rev h))"

lemma since_drop_snoc [simp]:
  "since_drop key (h @ [e]) = (if drops key e then [] else since_drop key h @ [e])"
  by (simp add: since_drop_def)

lemma since_drop_Nil [simp]: "since_drop key [] = []"
  by (simp add: since_drop_def)

lemma drops_simps [simp]:
  "drops key (Dropped k) \<longleftrightarrow> k = key" "drops key DroppedAll" "\<not> drops key (Started t k)"
  "\<not> drops key (Resolved t v n)" "\<not> drops key (Rejected t)"
  by (auto simp: drops_def)

definition attached_to :: "('k \<rightharpoonup> nat) \<Rightarrow> ('k \<times> phase) list \<Rightarrow> ('k, 'v) sf_event list \<Rightarrow> bool" where
  "attached_to fl ts h \<longleftrightarrow>
     (\<forall>k t. fl k = Some t \<longrightarrow> t < length ts \<and> fst (ts ! t) = k \<and>
        snd (ts ! t) \<noteq> Finished \<and> Started t k \<in> set (since_drop k h)) \<and>
     (\<forall>t k. Started t k \<in> set h \<longrightarrow> t < length ts \<and> fst (ts ! t) = k) \<and>
     (\<forall>t k. Started t k \<in> set (since_drop k h) \<longrightarrow> snd (ts ! t) \<noteq> Finished \<longrightarrow> fl k = Some t)"

abbreviation attached :: "('k, 'v) sf_cache \<Rightarrow> bool" where
  "attached c \<equiv> attached_to (inflight c) (tasks c) (history c)"

definition stored_ok :: "'v sf_options \<Rightarrow> int \<Rightarrow> ('k, 'v) sf_cache \<Rightarrow> bool" where
  "stored_ok opts now c \<longleftrightarrow> distinct (map fst (fresh c)) \<and>
     sorted (map (\<lambda>(k, stored, v). stored) (fresh c)) \<and>
     (\<forall>(k, stored, v)\<in>set (fresh c). stored \<le> now \<and>
        (\<exists>t. Started t k \<in> set (since_drop k (history c)) \<and> Resolved t v stored \<in> set (since_drop k (history c))))"

definition timer_ok :: "'v sf_options \<Rightarrow> ('k, 'v) sf_cache \<Rightarrow> bool" where
  "timer_ok opts c \<longleftrightarrow> (expiryTimer c = None \<longleftrightarrow> fresh c = [] \<or> c_ttl opts = None) \<and>
     (disposed c \<longrightarrow> fresh c = [] \<and> inflight c = Map.empty)"


lemma sf_sel [simp]:
  "fresh (log e c) = fresh c" "inflight (log e c) = inflight c" "expiryTimer (log e c) = expiryTimer c"
  "disposed (log e c) = disposed c" "tasks (log e c) = tasks c" "history (log e c) = history c @ [e]"
  "fresh (cancelExpiryIfEmpty c) = fresh c" "inflight (cancelExpiryIfEmpty c) = inflight c"
  "disposed (cancelExpiryIfEmpty c) = disposed c" "tasks (cancelExpiryIfEmpty c) = tasks c"
  "history (cancelExpiryIfEmpty c) = history c"
  "fresh (scheduleExpiry opts now c) = fresh c" "inflight (scheduleExpiry opts now c) = inflight c"
  "disposed (scheduleExpiry opts now c) = disposed c" "tasks (scheduleExpiry opts now c) = tasks c"
  "history (scheduleExpiry opts now c) = history c"
  by (auto simp: log_def cancelExpiryIfEmpty_def scheduleExpiry_def split: option.splits list.splits)

lemma drop_expired_sel [simp]:
  "inflight (drop_expired opts key now c) = inflight c" "disposed (drop_expired opts key now c) = disposed c"
  "tasks (drop_expired opts key now c) = tasks c" "history (drop_expired opts key now c) = history c"
  by (auto simp: drop_expired_def split: option.splits)

lemma fresh_drop_expired: "fresh (drop_expired opts key now c) = fresh c \<or>
    fresh (drop_expired opts key now c) = AList.delete key (fresh c)"
  by (auto simp: drop_expired_def split: option.splits)

lemma get_state:
  obtains (same) "snd (get opts key force now c) = c"
  | (dropped) "\<not> disposed c" "snd (get opts key force now c) = drop_expired opts key now c"
  | (started) "\<not> disposed c" "inflight c key = None"
      "snd (get opts key force now c) = start_load key (drop_expired opts key now c)"
  by (cases "inflight c key"; cases force)
    (fastforce simp: get_def join_load_def Let_def split: if_splits option.splits)+

lemma timer_cancel: "timer_ok opts c0 \<Longrightarrow> expiryTimer c = expiryTimer c0 \<Longrightarrow> (fresh c0 = [] \<longrightarrow> fresh c = []) \<Longrightarrow>
    expiryTimer (cancelExpiryIfEmpty c) = None \<longleftrightarrow> fresh c = [] \<or> c_ttl opts = None"
  by (auto simp: cancelExpiryIfEmpty_def timer_ok_def)

lemma timer_schedule: "(fresh c = [] \<or> c_ttl opts = None \<longrightarrow> expiryTimer c = None) \<Longrightarrow>
    expiryTimer (scheduleExpiry opts now c) = None \<longleftrightarrow> fresh c = [] \<or> c_ttl opts = None"
  by (auto simp: scheduleExpiry_def split: option.splits list.splits)

lemma alist_update_ne [simp]: "AList.update k v xs \<noteq> []"
  by (cases xs) auto

lemma timer_run: "sf_run opts now c \<Longrightarrow> timer_ok opts c"
proof (induction rule: sf_run.induct)
  case (sf_get now c key force)
  have d: "timer_ok opts (drop_expired opts key now c)"
    using sf_get.IH timer_cancel [OF sf_get.IH, of "c\<lparr>fresh := AList.delete key (fresh c)\<rparr>"]
    by (auto simp: drop_expired_def timer_ok_def split: option.splits)
  show ?case
    by (rule get_state [of opts key force now c])
      (use sf_get.IH d in \<open>auto simp: timer_ok_def start_load_def log_def\<close>)
next
  case (sf_resolved now c task v)
  then show ?case
    by (auto simp: load_resolved_def Let_def timer_ok_def timer_schedule)
next
  case (sf_invalidate now c key)
  show ?case
    using sf_invalidate.IH timer_cancel [OF sf_invalidate.IH, of "log (Dropped key)
        (c\<lparr>fresh := AList.delete key (fresh c), inflight := (inflight c)(key := None)\<rparr>)"]
    by (auto simp: invalidate_def timer_ok_def)
next
  case (sf_timer now c)
  then show ?case by (auto simp: timer_fires_def timer_ok_def timer_schedule)
qed (auto simp: timer_ok_def new_cache_def load_rejected_def task_finally_def clear_def dispose_def
    cancelExpiryIfEmpty_def Let_def)

lemma started_since: "Started t k \<in> set (since_drop key h) \<Longrightarrow> Started t k \<in> set h"
  by (auto simp: since_drop_def dest: set_takeWhileD)

lemma attachedI:
  assumes "\<And>k t. inflight c k = Some t \<Longrightarrow> t < length (tasks c) \<and> fst (tasks c ! t) = k \<and>
        snd (tasks c ! t) \<noteq> Finished \<and> Started t k \<in> set (since_drop k (history c))"
    and "\<And>t k. Started t k \<in> set (history c) \<Longrightarrow> t < length (tasks c) \<and> fst (tasks c ! t) = k"
    and "\<And>t k. Started t k \<in> set (since_drop k (history c)) \<Longrightarrow> snd (tasks c ! t) \<noteq> Finished \<Longrightarrow> inflight c k = Some t"
  shows "attached c"
  using assms unfolding attached_to_def by blast

lemma attachedD:
  assumes "attached c"
  shows "inflight c k = Some t \<Longrightarrow> t < length (tasks c) \<and> fst (tasks c ! t) = k \<and>
        snd (tasks c ! t) \<noteq> Finished \<and> Started t k \<in> set (since_drop k (history c))"
    and "Started t k \<in> set (history c) \<Longrightarrow> t < length (tasks c) \<and> fst (tasks c ! t) = k"
    and "Started t k \<in> set (since_drop k (history c)) \<Longrightarrow> snd (tasks c ! t) \<noteq> Finished \<Longrightarrow> inflight c k = Some t"
  using assms unfolding attached_to_def by blast+

lemma attached_update:
  assumes a: "attached c" and "task < length (tasks c)" "ph \<noteq> Finished" "\<forall>k. \<not> drops k e" "\<forall>t k. e \<noteq> Started t k"
    and c': "inflight c' = inflight c" "history c' = history c @ [e]"
    and t': "tasks c' = (tasks c)[task := (fst (tasks c ! task), ph)]" "snd (tasks c ! task) \<noteq> Finished"
  shows "attached c'"
proof (rule attachedI)
  have nth: "fst (tasks c' ! t) = fst (tasks c ! t)" "snd (tasks c' ! t) = Finished \<longleftrightarrow> snd (tasks c ! t) = Finished"
    "length (tasks c') = length (tasks c)" for t
    using assms by (cases "t = task"; simp)+
  show "t < length (tasks c') \<and> fst (tasks c' ! t) = k \<and> snd (tasks c' ! t) \<noteq> Finished \<and>
      Started t k \<in> set (since_drop k (history c'))" if "inflight c' k = Some t" for k t
    using attachedD(1) [OF a, of k t] that assms(4) unfolding nth c' by simp
  show "t < length (tasks c') \<and> fst (tasks c' ! t) = k" if "Started t k \<in> set (history c')" for t k
    using attachedD(2) [OF a, of t k] that assms(5) unfolding nth c' by auto
  show "inflight c' k = Some t"
    if "Started t k \<in> set (since_drop k (history c'))" "snd (tasks c' ! t) \<noteq> Finished" for t k
    using attachedD(3) [OF a, of t k] that assms(4,5) unfolding nth c' by auto
qed

lemma attached_finally:
  assumes a: "attached c" and "task < length (tasks c)"
  shows "attached (task_finally task c)"
proof (rule attachedI)
  let ?key = "fst (tasks c ! task)" and ?c = "task_finally task c"
  have nth: "fst (tasks ?c ! t) = fst (tasks c ! t)" "snd (tasks ?c ! t) = Finished \<longleftrightarrow> t = task \<or> snd (tasks c ! t) = Finished"
    "length (tasks ?c) = length (tasks c)" "history ?c = history c" for t
    using assms by (cases "t = task"; simp add: task_finally_def Let_def)+
  have inf: "inflight ?c k = (if k = ?key \<and> inflight c k = Some task then None else inflight c k)" for k
    by (auto simp: task_finally_def Let_def)
  show "t < length (tasks ?c) \<and> fst (tasks ?c ! t) = k \<and> snd (tasks ?c ! t) \<noteq> Finished \<and>
      Started t k \<in> set (since_drop k (history ?c))" if "inflight ?c k = Some t" for k t
    using attachedD(1) [OF a, of k t] that unfolding nth inf by (auto split: if_splits)
  show "t < length (tasks ?c) \<and> fst (tasks ?c ! t) = k" if "Started t k \<in> set (history ?c)" for t k
    using attachedD(2) [OF a, of t k] that unfolding nth by simp
  show "inflight ?c k = Some t"
    if "Started t k \<in> set (since_drop k (history ?c))" "snd (tasks ?c ! t) \<noteq> Finished" for t k
    using attachedD(3) [OF a, of t k] that unfolding nth inf by auto
qed

lemma attached_start:
  assumes a: "attached c" and none: "inflight c key = None"
  shows "attached (start_load key c)"
proof (rule attachedI)
  let ?c = "start_load key c"
  have c: "tasks ?c = tasks c @ [(key, Loading)]" "history ?c = history c @ [Started (length (tasks c)) key]"
    "inflight ?c = (inflight c)(key \<mapsto> length (tasks c))"
    by (simp_all add: start_load_def)
  show "t < length (tasks ?c) \<and> fst (tasks ?c ! t) = k \<and> snd (tasks ?c ! t) \<noteq> Finished \<and>
      Started t k \<in> set (since_drop k (history ?c))" if "inflight ?c k = Some t" for k t
    using attachedD(1) [OF a, of k t] that unfolding c by (cases "k = key") (auto simp: nth_append)
  show "t < length (tasks ?c) \<and> fst (tasks ?c ! t) = k" if "Started t k \<in> set (history ?c)" for t k
    using attachedD(2) [OF a, of t k] that unfolding c by (auto simp: nth_append)
  show "inflight ?c k = Some t"
    if "Started t k \<in> set (since_drop k (history ?c))" "snd (tasks ?c ! t) \<noteq> Finished" for t k
    using attachedD(2) [OF a, OF started_since] attachedD(3) [OF a, of t k] that none unfolding c
    by (auto simp: nth_append split: if_splits)
qed

lemma attached_drop:
  assumes a: "attached c" and "tasks c' = tasks c" "history c' = history c @ [e]" "\<forall>t k. e \<noteq> Started t k"
    and "inflight c' = (\<lambda>k. if drops k e then None else inflight c k)"
  shows "attached c'"
proof (rule attachedI)
  show "t < length (tasks c') \<and> fst (tasks c' ! t) = k \<and> snd (tasks c' ! t) \<noteq> Finished \<and>
      Started t k \<in> set (since_drop k (history c'))" if "inflight c' k = Some t" for k t
    using attachedD(1) [OF a, of k t] that assms by (auto split: if_splits)
  show "t < length (tasks c') \<and> fst (tasks c' ! t) = k" if "Started t k \<in> set (history c')" for t k
    using attachedD(2) [OF a, of t k] that assms by auto
  show "inflight c' k = Some t"
    if "Started t k \<in> set (since_drop k (history c'))" "snd (tasks c' ! t) \<noteq> Finished" for t k
    using attachedD(3) [OF a, of t k] that assms by (auto split: if_splits)
qed

lemma attached_run: "sf_run opts now c \<Longrightarrow> attached c"
proof (induction rule: sf_run.induct)
  case (sf_new now)
  then show ?case by (simp add: new_cache_def attached_to_def)
next
  case (sf_get now c key force)
  have d: "attached (drop_expired opts key now c)" using sf_get.IH by simp
  show ?case
    by (rule get_state [of opts key force now c]) (use sf_get.IH d attached_start [OF d, of key] in simp_all)
next
  case (sf_resolved now c task v)
  show ?case
    by (rule attached_update [OF sf_resolved.IH sf_resolved.hyps(2), where ph = Settling and e = "Resolved task v now"])
      (simp_all add: load_resolved_def Let_def sf_resolved.hyps)
next
  case (sf_rejected now c task)
  show ?case
    by (rule attached_update [OF sf_rejected.IH sf_rejected.hyps(2), where ph = Settling and e = "Rejected task"])
      (simp_all add: load_rejected_def sf_rejected.hyps)
next
  case (sf_finally now c task)
  then show ?case by (simp add: attached_finally)
next
  case (sf_invalidate now c key)
  show ?case
    by (rule attached_drop [OF sf_invalidate.IH, where e = "Dropped key"]) (auto simp: invalidate_def)
next
  case (sf_clear now c)
  show ?case by (rule attached_drop [OF sf_clear.IH, where e = DroppedAll]) (auto simp: clear_def)
next
  case (sf_dispose now c)
  show ?case by (rule attached_drop [OF sf_dispose.IH, where e = DroppedAll]) (auto simp: clear_def dispose_def)
next
  case (sf_timer now c)
  then show ?case by (simp add: timer_fires_def)
qed

lemma sorted_dropWhile: "sorted (map f xs) \<Longrightarrow> sorted (map f (dropWhile P xs))"
  by (induction xs) auto

lemma distinct_map_dropWhile: "distinct (map f xs) \<Longrightarrow> distinct (map f (dropWhile P xs))"
  by (induction xs) auto

text \<open>Entries stay correctly stored when values are removed and when the history of a key grows.\<close>

lemma stored_less:
  assumes "stored_ok opts now c" "set (fresh c') \<subseteq> set (fresh c)" "distinct (map fst (fresh c'))"
    "sorted (map (\<lambda>(k, stored, v). stored) (fresh c'))" "now \<le> now'"
    "\<And>k. k \<in> fst ` set (fresh c') \<Longrightarrow> set (since_drop k (history c)) \<subseteq> set (since_drop k (history c'))"
  shows "stored_ok opts now' c'"
proof -
  have "stored \<le> now' \<and> (\<exists>t. Started t k \<in> set (since_drop k (history c')) \<and> Resolved t v stored \<in> set (since_drop k (history c')))"
    if e: "(k, stored, v) \<in> set (fresh c')" for k stored v
  proof -
    from e have "k \<in> fst ` set (fresh c')" by force
    from assms(6) [OF this] show ?thesis using e assms(1,2,5) unfolding stored_ok_def by fastforce
  qed
  with assms(3,4) show ?thesis by (auto simp: stored_ok_def)
qed

lemma fresh_delete:
  assumes "stored_ok opts now c"
  shows "set (AList.delete key (fresh c)) \<subseteq> set (fresh c)" "distinct (map fst (AList.delete key (fresh c)))"
    "sorted (map (\<lambda>(k, stored, v). stored) (AList.delete key (fresh c)))" "key \<notin> fst ` set (AList.delete key (fresh c))"
  using assms by (auto simp: stored_ok_def AList.delete_eq distinct_map_filter sorted_filter)

lemma stored_same:
  assumes "stored_ok opts now c" "fresh c' = fresh c \<or> fresh c' = AList.delete key (fresh c)"
    "history c' = history c \<or> history c' = history c @ [e] \<and> (\<forall>k\<in>fst ` set (fresh c'). \<not> drops k e)"
  shows "stored_ok opts now c'"
  by (rule stored_less [OF assms(1)])
    (use assms fresh_delete [OF assms(1), of key] in \<open>auto simp: stored_ok_def\<close>)

lemma stored_resolved:
  assumes "stored_ok opts now c" "attached c"
  shows "stored_ok opts now (load_resolved opts task v now c)"
proof -
  let ?key = "fst (tasks c ! task)" and ?c = "load_resolved opts task v now c"
  have h: "history ?c = history c @ [Resolved task v now]" by (simp add: load_resolved_def Let_def)
  have "fresh ?c = fresh c \<or> inflight c ?key = Some task \<and> fresh ?c = AList.delete ?key (fresh c) @ [(?key, now, v)]"
    using alist_update_new [OF fresh_delete(4) [OF assms(1)], of ?key "(now, v)"]
    by (simp add: load_resolved_def Let_def)
  then consider "fresh ?c = fresh c"
    | "inflight c ?key = Some task" "fresh ?c = AList.delete ?key (fresh c) @ [(?key, now, v)]"
    by blast
  then show ?thesis
  proof cases
    case 1
    show ?thesis by (rule stored_same [OF assms(1), where e = "Resolved task v now"]) (simp_all add: 1 h)
  next
    case 2
    let ?d = "?c\<lparr>fresh := AList.delete ?key (fresh c)\<rparr>"
    have "stored_ok opts now ?d"
      by (rule stored_same [OF assms(1), where e = "Resolved task v now" and key = ?key]) (simp_all add: h)
    moreover have "Started task ?key \<in> set (since_drop ?key (history c))" using attachedD(1) [OF assms(2) 2(1)] by simp
    ultimately show ?thesis using fresh_delete(4) [OF assms(1), of ?key]
      by (auto simp: stored_ok_def 2(2) h sorted_append)
  qed
qed

lemma stored_run: "sf_run opts now c \<Longrightarrow> stored_ok opts now c"
proof (induction rule: sf_run.induct)
  case (sf_new now)
  then show ?case by (simp add: new_cache_def stored_ok_def)
next
  case (sf_tick now c now')
  then show ?case by (force simp: stored_ok_def)
next
  case (sf_get now c key force)
  have d: "stored_ok opts now (drop_expired opts key now c)"
    by (rule stored_same [OF sf_get.IH, where key = key]) (simp_all add: fresh_drop_expired)
  have s: "stored_ok opts now (start_load key (drop_expired opts key now c))"
    by (rule stored_same [OF d, where e = "Started (length (tasks c)) key"]) (simp_all add: start_load_def)
  show ?case by (rule get_state [of opts key force now c]) (simp_all only: sf_get.IH d s)
next
  case (sf_resolved now c task v)
  show ?case by (rule stored_resolved [OF sf_resolved.IH attached_run [OF sf_resolved.hyps(1)]])
next
  case (sf_rejected now c task)
  show ?case by (rule stored_same [OF sf_rejected.IH, where e = "Rejected task"]) (simp_all add: load_rejected_def)
next
  case (sf_finally now c task)
  show ?case by (rule stored_same [OF sf_finally.IH]) (simp_all add: task_finally_def Let_def)
next
  case (sf_invalidate now c key)
  show ?case
    by (rule stored_same [OF sf_invalidate.IH, where e = "Dropped key" and key = key])
      (auto simp: invalidate_def AList.delete_eq)
next
  case (sf_timer now c)
  show ?case
    by (rule stored_less [OF sf_timer.IH])
      (use sf_timer.IH in \<open>auto simp: timer_fires_def stored_ok_def sorted_dropWhile distinct_map_dropWhile
          dest: set_dropWhileD\<close>)
qed (simp_all add: stored_ok_def clear_def dispose_def)


section \<open>What the cache promises\<close>

lemma get_task:
  assumes "get opts key force now c = (GTask t, c')"
  shows "inflight c' key = Some t"
  using assms by (auto simp: get_def join_load_def start_load_def Let_def split: if_splits option.splits)

text \<open>C31: one load per key.  Whatever calls, settlements, invalidations and timer events came
  before, a caller that is not served from the cache joins a load of its key that has not
  finished and was started after the key was last invalidated, and there is only one such load.\<close>

theorem single_flight:
  assumes "sf_run opts now c" "get opts key force now c = (GTask t, c')"
  shows "Started t key \<in> set (since_drop key (history c')) \<and> snd (tasks c' ! t) \<noteq> Finished \<and>
    (\<forall>u. Started u key \<in> set (since_drop key (history c')) \<and> snd (tasks c' ! u) \<noteq> Finished \<longrightarrow> u = t)"
proof -
  have "sf_run opts now c'" using sf_run.sf_get [OF assms(1), of key force] assms(2) by simp
  then have a: "attached c'" by (rule attached_run)
  have t: "inflight c' key = Some t" using assms(2) by (rule get_task)
  show ?thesis using attachedD(1) [OF a t] attachedD(3) [OF a, of _ key] t by auto
qed

definition demo_options :: "nat sf_options" where
  "demo_options = \<lparr>c_ttl = Some 1000, c_shouldCache = (\<lambda>_. True)\<rparr>"

definition demo_cache :: "(nat, nat) sf_cache" where
  "demo_cache = load_resolved demo_options 0 42 5 (snd (get demo_options 7 False 5 new_cache))"

lemmas demo_simps = demo_cache_def demo_options_def get_def drop_expired_def join_load_def start_load_def log_def
  new_cache_def load_resolved_def scheduleExpiry_def expired_def Let_def

lemma demo_run: "sf_run demo_options 5 demo_cache"
proof -
  have "sf_run demo_options 5 (snd (get demo_options 7 False 5 (new_cache :: (nat, nat) sf_cache)))"
    by (rule sf_run.sf_get [OF sf_run.sf_new])
  from sf_run.sf_resolved [OF this, of 0 42] show ?thesis by (simp add: demo_simps)
qed

theorem single_flight_witness:
  "Started 0 7 \<in> set (since_drop 7 (history (snd (get demo_options 7 True 6 demo_cache)))) \<and>
   snd (tasks (snd (get demo_options 7 True 6 demo_cache)) ! 0) \<noteq> Finished"
proof -
  have r: "sf_run demo_options 6 demo_cache" by (rule sf_run.sf_tick [OF demo_run]) simp
  have g: "get demo_options 7 True 6 demo_cache = (GTask 0, snd (get demo_options 7 True 6 demo_cache))"
    by (simp add: demo_simps)
  from single_flight [OF r g] show ?thesis by (elim conjE, intro conjI) assumption+
qed

text \<open>C32: no stale value.  A value served from the cache was produced by a load of the same key
  that was started and resolved after the key was last invalidated, and it was stored less than
  \<open>ttlMs\<close> ago.\<close>

theorem hit_is_fresh:
  assumes "sf_run opts now c" "get opts key force now c = (GHit v, c')"
  shows "\<not> force \<and> (\<exists>t stored. Started t key \<in> set (since_drop key (history c')) \<and>
    Resolved t v stored \<in> set (since_drop key (history c')) \<and> stored \<le> now \<and> \<not> expired opts now stored)"
proof -
  from assms(2) obtain stored where g: "\<not> force" "c' = drop_expired opts key now c" "map_of (fresh c') key = Some (stored, v)"
    by (auto simp: get_def join_load_def Let_def split: if_splits option.splits)
  have "\<not> expired opts now stored"
    using g by (auto simp: drop_expired_def AList.delete_conv' split: option.splits if_splits)
  moreover have "stored_ok opts now c'"
    using stored_run [OF sf_run.sf_get [OF assms(1), of key force]] assms(2) by simp
  ultimately show ?thesis using g(1) map_of_SomeD [OF g(3)] unfolding stored_ok_def by blast
qed

theorem hit_is_fresh_witness:
  "\<not> False \<and> (\<exists>t stored. Started t 7 \<in> set (since_drop 7 (history (snd (get demo_options 7 False 6 demo_cache)))) \<and>
    Resolved t 42 stored \<in> set (since_drop 7 (history (snd (get demo_options 7 False 6 demo_cache)))) \<and>
    stored \<le> 6 \<and> \<not> expired demo_options 6 stored)"
proof -
  have "sf_run demo_options 6 demo_cache" by (rule sf_run.sf_tick [OF demo_run]) simp
  moreover have "get demo_options 7 False 6 demo_cache = (GHit 42, snd (get demo_options 7 False 6 demo_cache))"
    by (simp add: demo_simps)
  ultimately show ?thesis by (rule hit_is_fresh)
qed

lemma expired_mono: "\<not> expired opts now stored \<Longrightarrow> stored \<le> stored' \<Longrightarrow> \<not> expired opts now stored'"
  by (auto simp: expired_def split: option.splits)

lemma dropWhile_fresh:
  "sorted (map (\<lambda>(k, stored, v). stored) xs) \<Longrightarrow> (k, stored, v) \<in> set (dropWhile (\<lambda>(k, stored, v). expired opts now stored) xs) \<Longrightarrow>
    \<not> expired opts now stored"
proof (induction xs)
  case (Cons x xs)
  obtain k' stored' v' where x: "x = (k', stored', v')" by (cases x)
  show ?case
  proof (cases "expired opts now stored'")
    case True
    with Cons x show ?thesis by simp
  next
    case False
    with Cons.prems x have "stored' \<le> stored" by auto
    with False show ?thesis by (rule expired_mono)
  qed
qed simp

text \<open>C33: expired values are released.  While values are kept and the lifetime is finite, the
  expiry timer is set; when it fires, exactly the values whose lifetime is over are gone, the
  remaining ones in their order, and the timer is set again if any is left.\<close>

theorem expiry_releases:
  assumes "sf_run opts now c"
  shows "(fresh c \<noteq> [] \<and> c_ttl opts \<noteq> None \<longleftrightarrow> expiryTimer c \<noteq> None) \<and>
    fresh (timer_fires opts now c) = filter (\<lambda>(k, stored, v). \<not> expired opts now stored) (fresh c) \<and>
    (expiryTimer c \<noteq> None \<longrightarrow>
       (expiryTimer (timer_fires opts now c) \<noteq> None \<longleftrightarrow> fresh (timer_fires opts now c) \<noteq> []))"
proof -
  let ?P = "\<lambda>(k, stored, v). expired opts now stored"
  have s: "sorted (map (\<lambda>(k, stored, v). stored) (fresh c))" using stored_run [OF assms] by (simp add: stored_ok_def)
  have "dropWhile ?P (fresh c) = filter (\<lambda>x. \<not> ?P x) (fresh c)"
  proof -
    have "\<forall>x\<in>set (takeWhile ?P (fresh c)). ?P x" using set_takeWhileD [of _ ?P "fresh c"] by blast
    moreover have "\<forall>x\<in>set (dropWhile ?P (fresh c)). \<not> ?P x"
    proof
      fix x assume "x \<in> set (dropWhile ?P (fresh c))"
      then show "\<not> ?P x" using dropWhile_fresh [OF s, of "fst x" "fst (snd x)" "snd (snd x)" opts now]
        by (simp add: case_prod_unfold)
    qed
    ultimately have "filter (\<lambda>x. \<not> ?P x) (takeWhile ?P (fresh c)) = []"
      "filter (\<lambda>x. \<not> ?P x) (dropWhile ?P (fresh c)) = dropWhile ?P (fresh c)"
      unfolding filter_empty_conv filter_id_conv by blast+
    then show ?thesis using filter_append [of "\<lambda>x. \<not> ?P x" "takeWhile ?P (fresh c)" "dropWhile ?P (fresh c)"] by simp
  qed
  moreover have "timer_ok opts c" using assms by (rule timer_run)
  moreover have "timer_ok opts (timer_fires opts now c)" if "expiryTimer c \<noteq> None"
    using sf_run.sf_timer [OF assms that] by (rule timer_run)
  ultimately show ?thesis by (auto simp: timer_fires_def timer_ok_def case_prod_unfold)
qed

theorem expiry_releases_witness:
  "expiryTimer demo_cache \<noteq> None \<and> fresh (timer_fires demo_options 2000 demo_cache) = [] \<and>
   expiryTimer (timer_fires demo_options 2000 demo_cache) = None"
proof -
  have "sf_run demo_options 2000 demo_cache" by (rule sf_run.sf_tick [OF demo_run]) simp
  from expiry_releases [OF this] show ?thesis by (simp add: demo_simps timer_fires_def)
qed

text \<open>A disposed cache stays empty.  Loads that were pending when it was disposed still settle,
  but store nothing, and every later call is rejected.\<close>

lemma disposed_stays_empty:
  assumes "sf_run opts now c" "disposed c"
  shows "fresh c = [] \<and> inflight c = Map.empty \<and> expiryTimer c = None \<and> get opts key force now c = (GDisposed, c)"
  using timer_run [OF assms(1)] assms(2) by (simp add: timer_ok_def get_def)

end
