(* ===== verification/Event_Stores.thy ===== *)
theory Event_Stores
  imports SL_Prelude
begin

text \<open>
  Two stores on the path of incoming events: the temp sessions a user may be answered in
  (packages/onebot/src/temp-session-store.ts) and the duplicate filter of system messages
  (packages/protocol/src/msg-push/sysmsg-dedup.ts).  Each is shown to implement a specification
  that keeps no expiry entries and no ring.
\<close>

section \<open>Temp sessions\<close>

definition TEMP_SESSION_TTL_MS :: int where
  "TEMP_SESSION_TTL_MS = 7 * 24 * 60 * 60 * 1000"

type_synonym temp_sessions = "(jstr \<times> int) list"

definition session_key :: "int \<Rightarrow> int \<Rightarrow> jstr" where
  "session_key userUin groupUin = decimal_int userUin @ js '':'' @ decimal_int groupUin"

definition sweep :: "int \<Rightarrow> temp_sessions \<Rightarrow> temp_sessions" where
  "sweep now sessions = filter (\<lambda>(key, expiresAt). \<not> expiresAt \<le> now) sessions"

definition record_session :: "int \<Rightarrow> int \<Rightarrow> int \<Rightarrow> temp_sessions \<Rightarrow> temp_sessions" where
  "record_session userUin groupUin now sessions =
     (if userUin \<le> 0 \<or> groupUin \<le> 0 then sessions
      else AList.update (session_key userUin groupUin) (now + TEMP_SESSION_TTL_MS) (sweep now sessions))"

definition has_session :: "int \<Rightarrow> int \<Rightarrow> int \<Rightarrow> temp_sessions \<Rightarrow> bool \<times> temp_sessions" where
  "has_session userUin groupUin now sessions =
     (let key = session_key userUin groupUin in
      case map_of sessions key of
        None \<Rightarrow> (False, sessions)
      | Some expiresAt \<Rightarrow> if expiresAt \<le> now then (False, AList.delete key sessions) else (True, sessions))"

text \<open>The store in time.  The clock moves forward between calls.\<close>

datatype session_event = Elapse nat | RecordSession int int | HasSession int int | Sweep

fun temp_step :: "session_event \<Rightarrow> int \<times> temp_sessions \<Rightarrow> bool \<times> int \<times> temp_sessions" where
  "temp_step (Elapse d) (now, s) = (False, now + int d, s)"
| "temp_step (RecordSession u g) (now, s) = (False, now, record_session u g now s)"
| "temp_step (HasSession u g) (now, s) = (let (b, s') = has_session u g now s in (b, now, s'))"
| "temp_step Sweep (now, s) = (False, now, sweep now s)"

text \<open>
  The specification remembers, for a user and a group, when the last message of their session
  arrived, and allows a reply for seven days.
\<close>

fun temp_spec :: "session_event \<Rightarrow> int \<times> (int \<times> int \<rightharpoonup> int) \<Rightarrow> bool \<times> int \<times> (int \<times> int \<rightharpoonup> int)" where
  "temp_spec (Elapse d) (now, m) = (False, now + int d, m)"
| "temp_spec (RecordSession u g) (now, m) = (False, now, if 0 < u \<and> 0 < g then m((u, g) \<mapsto> now) else m)"
| "temp_spec (HasSession u g) (now, m) =
     ((case m (u, g) of None \<Rightarrow> False | Some t \<Rightarrow> now < t + TEMP_SESSION_TTL_MS), now, m)"
| "temp_spec Sweep (now, m) = (False, now, m)"

lemma session_key_inj: "session_key u g = session_key u' g' \<longleftrightarrow> u = u' \<and> g = g'"
proof
  assume eq: "session_key u g = session_key u' g'"
  have c: "js '':'' = [58]" by (simp add: js_def)
  have no: "58 \<notin> set (decimal_int i)" for i using decimal_int_chars [of i] by auto
  have "split_on 58 (session_key u g) = [decimal_int u, decimal_int g]" for u g
    using no [of u] no [of g] by (simp add: session_key_def c split_on_append split_on_id)
  with eq have "[decimal_int u, decimal_int g] = [decimal_int u', decimal_int g']" by metis
  then show "u = u' \<and> g = g'" by simp
qed simp

definition live :: "int \<Rightarrow> int option \<Rightarrow> int option" where
  "live now v = (case v of None \<Rightarrow> None | Some e \<Rightarrow> if now < e then Some e else None)"

lemma live_simps [simp]: "live now None = None" "live now (Some e) = (if now < e then Some e else None)"
  by (simp_all add: live_def)

lemma live_idem [simp]: "live now (live now v) = live now v"
  by (simp add: live_def split: option.splits)

lemma live_later: "live now v = live now w \<Longrightarrow> now \<le> now' \<Longrightarrow> live now' v = live now' w"
  by (auto simp: live_def split: option.splits if_splits)

definition temp_rel :: "int \<times> temp_sessions \<Rightarrow> int \<times> (int \<times> int \<rightharpoonup> int) \<Rightarrow> bool" where
  "temp_rel = (\<lambda>(now, s) (now', m). now' = now \<and> distinct (map fst s) \<and>
     (\<forall>u g. live now (map_of s (session_key u g)) = live now (map_option (\<lambda>t. t + TEMP_SESSION_TTL_MS) (m (u, g)))))"

lemma sweep_keys: "distinct (map fst s) \<Longrightarrow> distinct (map fst (sweep now s))"
  by (simp add: sweep_def distinct_map_filter)

lemma map_of_sweep: "distinct (map fst s) \<Longrightarrow> map_of (sweep now s) k = live now (map_of s k)"
  by (induction s) (auto simp: sweep_def map_of_eq_None_iff image_iff split: if_splits)

interpretation temp: simulation temp_step temp_spec temp_rel
proof
  fix c a e assume "temp_rel c a"
  then obtain now s m where c: "c = (now, s)" "a = (now, m)" and d: "distinct (map fst s)"
    and l: "\<And>u g. live now (map_of s (session_key u g)) = live now (map_option (\<lambda>t. t + TEMP_SESSION_TTL_MS) (m (u, g)))"
    by (cases c; cases a) (auto simp: temp_rel_def)
  have h: "fst (has_session u g now s) \<longleftrightarrow> live now (map_of s (session_key u g)) \<noteq> None" for u g
    by (auto simp: has_session_def Let_def split: option.splits)
  show "fst (temp_step e c) = fst (temp_spec e a)"
    by (cases e) (auto simp: c h l case_prod_unfold Let_def split: option.splits)
  show "temp_rel (snd (temp_step e c)) (snd (temp_spec e a))"
  proof (cases e)
    case (Elapse n)
    then show ?thesis using live_later [OF l] d by (auto simp: temp_rel_def c)
  next
    case (RecordSession u g)
    then show ?thesis using d l
      by (auto simp: temp_rel_def c record_session_def update_conv' distinct_update sweep_keys map_of_sweep session_key_inj
          TEMP_SESSION_TTL_MS_def)
  next
    case (HasSession u g)
    have "live now (map_of (snd (has_session u g now s)) k) = live now (map_of s k)" for k
      by (auto simp: has_session_def Let_def delete_conv' split: option.splits)
    moreover have "distinct (map fst (snd (has_session u g now s)))"
      using d by (auto simp: has_session_def Let_def distinct_delete split: option.splits)
    ultimately show ?thesis using l HasSession by (simp add: temp_rel_def c case_prod_unfold Let_def)
  next
    case Sweep
    with l d show ?thesis by (simp add: temp_rel_def c sweep_keys map_of_sweep)
  qed
qed

text \<open>C34: temp sessions.  After any sequence of recordings, queries, sweeps and passing time, a reply
  to a user in a group is allowed exactly when a message of that session arrived less than seven
  days ago: the store answers like the specification, whatever it has pruned.\<close>

theorem temp_sessions_refine:
  "outputs temp_step es (now, []) = outputs temp_spec es (now, Map.empty)"
  by (rule temp.sim_outputs) (simp add: temp_rel_def)

text \<open>The store does not grow with dead sessions: right after a recording every entry is alive.\<close>

lemma sessions_pruned:
  assumes "0 < u" "0 < g"
  shows "\<forall>(key, expiresAt)\<in>set (record_session u g now s). now < expiresAt"
proof -
  have "\<forall>(k, e)\<in>set s. now < e \<Longrightarrow> now < v \<Longrightarrow> \<forall>(k, e)\<in>set (AList.update key v s). now < e" for key v and s :: temp_sessions
    by (induction s) auto
  from this [of "sweep now s" "now + TEMP_SESSION_TTL_MS"] assms show ?thesis
    by (auto simp: record_session_def sweep_def TEMP_SESSION_TTL_MS_def)
qed

section \<open>System message duplicates\<close>

record push_head =
  msgType :: nat
  subType :: nat
  sequence :: nat
  msgId :: nat

record dedup_identity =
  peerUid :: jstr
  chatType :: nat
  id_sequence :: nat
  id_random :: nat

definition getNativeSysMsgChatType :: "nat \<Rightarrow> nat \<Rightarrow> nat option" where
  "getNativeSysMsgChatType ty sub =
     (if ty = 528 \<and> sub = 290 then Some 1
      else if ty = 166 \<and> (sub = 75 \<or> sub = 129 \<or> sub = 131 \<or> sub = 133 \<or> sub = 135) then Some 1
      else if ty = 167 \<and> sub = 133 then Some 1
      else if ty = 732 \<and> (sub = 12 \<or> sub = 16 \<or> sub = 20) then Some 2
      else if (ty = 33 \<or> ty = 34 \<or> ty = 85) \<and> sub = 0 then Some 2
      else None)"

definition deriveSysMsgDedupIdentity :: "push_head \<Rightarrow> nat \<Rightarrow> jstr \<Rightarrow> dedup_identity option" where
  "deriveSysMsgDedupIdentity head fromUin fromUid =
     (case getNativeSysMsgChatType (msgType head) (subType head) of
        None \<Rightarrow> None
      | Some ct \<Rightarrow>
          if sequence head = 0 \<or> msgId head = 0 then None
          else let uid = (if ct = 1 then fromUid else decimal fromUin) in
            if uid = [] \<or> (ct = 2 \<and> fromUin = 0) then None
            else Some \<lparr>peerUid = uid, chatType = ct, id_sequence = sequence head, id_random = msgId head\<rparr>)"

text \<open>\<open>new Array(capacity)\<close> has \<open>undefined\<close> in every place.\<close>

record sysmsg_dedup =
  seen :: "jstr set"
  ring :: "jstr option list"
  cursor :: nat
  capacity :: nat

definition new_SysMsgDedup :: "nat \<Rightarrow> sysmsg_dedup" where
  "new_SysMsgDedup cap = \<lparr>seen = {}, ring = replicate cap None, cursor = 0, capacity = cap\<rparr>"

definition dedup_key :: "dedup_identity \<Rightarrow> jstr" where
  "dedup_key i = peerUid i @ js ''_'' @ decimal (chatType i) @ js ''_'' @ decimal (id_sequence i) @ js ''_'' @ decimal (id_random i)"

definition seenDuplicate :: "dedup_identity \<Rightarrow> sysmsg_dedup \<Rightarrow> bool \<times> sysmsg_dedup" where
  "seenDuplicate i d =
     (if id_sequence i = 0 \<or> id_random i = 0 \<or> peerUid i = [] then (False, d)
      else let key = dedup_key i in
        if key \<in> seen d then (True, d)
        else let seen1 = (case ring d ! cursor d of None \<Rightarrow> seen d | Some evicted \<Rightarrow> seen d - {evicted}) in
          (False, d\<lparr>ring := (ring d)[cursor d := Some key], seen := insert key seen1,
             cursor := (cursor d + 1) mod capacity d\<rparr>))"

text \<open>The specification: the last identities that were let through, the newest first.\<close>

definition dedup_spec :: "nat \<Rightarrow> dedup_identity \<Rightarrow> dedup_identity list \<Rightarrow> bool \<times> dedup_identity list" where
  "dedup_spec cap i recent =
     (if id_sequence i = 0 \<or> id_random i = 0 \<or> peerUid i = [] then (False, recent)
      else if i \<in> set recent then (True, recent)
      else (False, take cap (i # recent)))"

subsection \<open>Keys identify messages\<close>

lemma last_decimal:
  assumes "xs @ 95 # decimal m = ys @ 95 # decimal n"
  shows "xs = ys \<and> m = n"
proof -
  have tw: "takeWhile (\<lambda>c. c \<noteq> 95) (rev (decimal k) @ 95 # z) = rev (decimal k)"
    "dropWhile (\<lambda>c. c \<noteq> 95) (rev (decimal k) @ 95 # z) = 95 # z" for k z
  proof -
    have "\<And>c. c \<in> set (rev (decimal k)) \<Longrightarrow> c \<noteq> 95" using decimal_digits [of k] by auto
    then show "takeWhile (\<lambda>c. c \<noteq> 95) (rev (decimal k) @ 95 # z) = rev (decimal k)"
      "dropWhile (\<lambda>c. c \<noteq> 95) (rev (decimal k) @ 95 # z) = 95 # z"
      by (subst takeWhile_append2 dropWhile_append2; simp)+
  qed
  have "rev (decimal m) @ 95 # rev xs = rev (decimal n) @ 95 # rev ys"
    using arg_cong [where f = rev, OF assms] by simp
  then have "rev (decimal m) = rev (decimal n)" "95 # rev xs = 95 # rev ys"
    using tw [of m "rev xs"] tw [of n "rev ys"] by metis+
  then show ?thesis by simp
qed

lemma dedup_key_inj [simp]: "dedup_key i = dedup_key j \<longleftrightarrow> i = j"
proof
  assume eq: "dedup_key i = dedup_key j"
  have u: "js ''_'' = [95]" by (simp add: js_def)
  let ?a = "\<lambda>i. peerUid i @ 95 # decimal (chatType i)" and ?b = "\<lambda>i. (peerUid i @ 95 # decimal (chatType i)) @ 95 # decimal (id_sequence i)"
  have "?b i @ 95 # decimal (id_random i) = ?b j @ 95 # decimal (id_random j)"
    using eq by (simp add: dedup_key_def u)
  from last_decimal [OF this] have r: "id_random i = id_random j" "?a i @ 95 # decimal (id_sequence i) = ?a j @ 95 # decimal (id_sequence j)"
    by simp_all
  from last_decimal [OF r(2)] have "id_sequence i = id_sequence j" "?a i = ?a j" by simp_all
  with last_decimal [of "peerUid i" "chatType i" "peerUid j" "chatType j"] r(1) show "i = j" by (cases i; cases j) simp
qed simp

subsection \<open>The ring is a window\<close>

text \<open>
  Read from the cursor on, the ring is a window: empty places first, then the keys from the oldest
  to the newest.
\<close>

definition dedup_rel :: "nat \<Rightarrow> sysmsg_dedup \<Rightarrow> dedup_identity list \<Rightarrow> bool" where
  "dedup_rel cap d recent \<longleftrightarrow> 0 < cap \<and> capacity d = cap \<and> cursor d < cap \<and> length (ring d) = cap \<and>
     length recent \<le> cap \<and> distinct recent \<and> seen d = dedup_key ` set recent \<and>
     rotate (cursor d) (ring d) = replicate (cap - length recent) None @ map (Some \<circ> dedup_key) (rev recent)"

lemma rotate_write:
  assumes "c < length xs"
  shows "rotate (Suc c mod length xs) (xs[c := v]) = tl (rotate c xs) @ [v]"
proof -
  have len: "length (xs[c := v]) = length xs" by simp
  have "rotate (Suc c mod length xs) (xs[c := v]) = rotate (Suc c) (xs[c := v])"
    by (metis len rotate_conv_mod)
  also have "\<dots> = rotate1 (rotate c (xs[c := v]))" by simp
  also have "rotate c (xs[c := v]) = v # tl (rotate c xs)"
    using assms by (simp add: rotate_drop_take drop_update_cancel take_update_cancel Cons_nth_drop_Suc [symmetric]
        list_update_beyond drop_Suc [symmetric] tl_drop [symmetric] Let_def)
  finally show ?thesis by simp
qed


lemma dedup_window:
  assumes "dedup_rel cap d recent" "i \<notin> set recent"
  shows "dedup_rel cap (d\<lparr>ring := (ring d)[cursor d := Some (dedup_key i)],
      seen := insert (dedup_key i) (case ring d ! cursor d of None \<Rightarrow> seen d | Some evicted \<Rightarrow> seen d - {evicted}),
      cursor := (cursor d + 1) mod capacity d\<rparr>) (take cap (i # recent))"
proof -
  let ?k = "Some (dedup_key i)" and ?w = "rotate (cursor d) (ring d)"
  from assms(1) have cap: "0 < cap" and d: "capacity d = cap" "cursor d < cap" "length (ring d) = cap" "length recent \<le> cap" "distinct recent"
    "seen d = dedup_key ` set recent" and w: "?w = replicate (cap - length recent) None @ map (Some \<circ> dedup_key) (rev recent)"
    by (simp_all add: dedup_rel_def)
  have next_w: "rotate ((cursor d + 1) mod cap) ((ring d)[cursor d := ?k]) = tl ?w @ [?k]"
    using rotate_write [of "cursor d" "ring d" ?k] d by simp
  have ev: "ring d ! cursor d = hd ?w"
    using d cap hd_rotate_conv_nth [of "ring d" "cursor d"] by (simp add: length_greater_0_conv [symmetric] del: length_greater_0_conv)
  show ?thesis
  proof (cases "length recent < cap")
    case True
    then obtain m where m: "cap - length recent = Suc m" by (metis Suc_diff_Suc)
    have "take cap (i # recent) = i # recent" "cap - length (i # recent) = m" using True m by simp_all
    with d m cap assms(2) next_w ev show ?thesis by (simp add: dedup_rel_def w)
  next
    case False
    then have n: "length recent = cap" using d(4) by simp
    with cap have ne: "recent \<noteq> []" by auto
    have recent: "recent = butlast recent @ [last recent]" using ne by simp
    have "take cap (i # recent) = i # butlast recent" using n cap by (cases cap) (simp_all add: butlast_conv_take)
    moreover have "map (Some \<circ> dedup_key) (rev recent) =
        Some (dedup_key (last recent)) # map (Some \<circ> dedup_key) (rev (butlast recent))"
      by (subst recent) simp
    then have w': "?w = Some (dedup_key (last recent)) # map (Some \<circ> dedup_key) (rev (butlast recent))"
      using w n by simp
    moreover have "dedup_key ` set recent - {dedup_key (last recent)} = dedup_key ` set (butlast recent)"
    proof -
      have "set recent = insert (last recent) (set (butlast recent))" "last recent \<notin> set (butlast recent)"
        using recent d(5) by (metis set_append list.simps(15) list.set(1) Un_insert_right sup_bot_right,
            metis distinct_append disjoint_iff list.set_intros(1))
      then show ?thesis by auto
    qed
    moreover have "distinct (butlast recent)" "i \<notin> set (butlast recent)" using d(5) assms(2) by (auto simp: distinct_butlast dest: in_set_butlastD)
    ultimately show ?thesis using d n cap next_w ev
      by (simp add: dedup_rel_def w')
  qed
qed

interpretation dedup: simulation seenDuplicate "dedup_spec cap" "dedup_rel cap" for cap
proof
  fix d recent i assume rel: "dedup_rel cap d recent"
  have mem: "dedup_key i \<in> seen d \<longleftrightarrow> i \<in> set recent" using rel by (auto simp: dedup_rel_def)
  show "fst (seenDuplicate i d) = fst (dedup_spec cap i recent)"
    by (simp add: seenDuplicate_def dedup_spec_def Let_def mem)
  show "dedup_rel cap (snd (seenDuplicate i d)) (snd (dedup_spec cap i recent))"
    using rel dedup_window [OF rel] by (simp add: seenDuplicate_def dedup_spec_def Let_def mem)
qed

text \<open>C35: the duplicate filter.  A system message is reported as a duplicate exactly when its
  identity (peer, chat type, sequence and random number) is among the last \<open>capacity\<close> ones that
  were let through; identities with a zero or empty part always pass.  The ring, the cursor and
  the set of joined keys answer like a list of recent identities for every sequence of messages.\<close>

theorem dedup_refines:
  assumes "0 < cap"
  shows "outputs seenDuplicate is (new_SysMsgDedup cap) = outputs (dedup_spec cap) is []"
proof -
  have "dedup_rel cap (new_SysMsgDedup cap) []" using assms by (simp add: dedup_rel_def new_SysMsgDedup_def)
  then show ?thesis by (rule dedup.sim_outputs)
qed

theorem dedup_refines_witness:
  "outputs seenDuplicate [\<lparr>peerUid = js ''u'', chatType = 1, id_sequence = 5, id_random = 9\<rparr>,
      \<lparr>peerUid = js ''u'', chatType = 1, id_sequence = 5, id_random = 9\<rparr>] (new_SysMsgDedup 1024) = [False, True]"
proof -
  have "js ''u'' \<noteq> []" by (simp add: js_def)
  then show ?thesis
    using dedup_refines [of 1024 "[\<lparr>peerUid = js ''u'', chatType = 1, id_sequence = 5, id_random = 9\<rparr>,
      \<lparr>peerUid = js ''u'', chatType = 1, id_sequence = 5, id_random = 9\<rparr>]"]
    by (simp add: dedup_spec_def)
qed

end
