(* ===== verification/Invite_Tracker.thy ===== *)
theory Invite_Tracker
  imports SL_Prelude
begin

text \<open>
  Pairing of group invitations, packages/protocol/src/group-invite-tracker.ts.  An invitation may
  reach the account as a notice and as a card; the tracker reports the first of the two and keeps
  what an approval needs.  A notice object is shared by the table of notices and the list of
  unpaired invitations and is changed later, so notices are cells of a store.
\<close>

section \<open>State\<close>

definition PAIR_WINDOW_MS :: int where "PAIR_WINDOW_MS = 3000"
definition MAX_INVITES :: nat where "MAX_INVITES = 1024"

record card =
  card_groupId :: int
  card_sequence :: int

record self_invite_notice =
  cardSequence :: "int option"
  ambiguous :: bool

datatype invite_source = FromCard | FromNotice

record unpaired_invite =
  ui_key :: jstr
  ui_notice :: "nat option"
  ui_source :: invite_source
  ui_expiresAt :: int

record tracker =
  cards :: "(jstr \<times> card) list"
  notices :: "(jstr \<times> nat) list"
  unpaired :: "unpaired_invite list"
  cells :: "self_invite_notice list"

definition new_tracker :: tracker where
  "new_tracker = \<lparr>cards = [], notices = [], unpaired = [], cells = []\<rparr>"

section \<open>Operations\<close>

definition remember :: "(jstr \<times> 'v) list \<Rightarrow> jstr \<Rightarrow> 'v \<Rightarrow> (jstr \<times> 'v) list" where
  "remember entries key value =
     (let e1 = AList.delete key entries;
          e2 = (if MAX_INVITES \<le> length e1 then tl e1 else e1)
      in AList.update key value e2)"

definition pair_key :: "int \<Rightarrow> jstr \<Rightarrow> jstr" where
  "pair_key groupId uid = decimal_int groupId @ js '':'' @ uid"

definition card_key :: "int \<Rightarrow> int \<Rightarrow> jstr" where
  "card_key groupId sequence = decimal_int groupId @ js '':'' @ decimal_int sequence"

definition mark_ambiguous :: "nat \<Rightarrow> tracker \<Rightarrow> tracker" where
  "mark_ambiguous n t = t\<lparr>cells := (cells t)[n := (cells t ! n)\<lparr>ambiguous := True\<rparr>]\<rparr>"

text \<open>\<open>splice(match, 1)\<close> of the first match, and \<open>shift\<close> of a full list.\<close>

definition splice_out :: "('a \<Rightarrow> bool) \<Rightarrow> 'a list \<Rightarrow> 'a list" where
  "splice_out P xs = takeWhile (\<lambda>x. \<not> P x) xs @ tl (dropWhile (\<lambda>x. \<not> P x) xs)"

definition make_room :: "'a list \<Rightarrow> 'a list" where
  "make_room xs = (if MAX_INVITES \<le> length xs then tl xs else xs)"

definition pair :: "jstr \<Rightarrow> invite_source \<Rightarrow> nat option \<Rightarrow> int \<Rightarrow> tracker \<Rightarrow> unpaired_invite option \<times> tracker" where
  "pair key source notice now t =
     (let live = filter (\<lambda>e. now < ui_expiresAt e) (unpaired t);
          matches = (\<lambda>e. ui_key e = key \<and> ui_source e \<noteq> source)
      in case find matches live of
        Some e \<Rightarrow> (Some e, t\<lparr>unpaired := splice_out matches live\<rparr>)
      | None \<Rightarrow>
          let rest = make_room live;
              t1 = (case notice of
                 Some n \<Rightarrow> if list_ex (\<lambda>e. ui_key e = key \<and> ui_source e = FromNotice) rest then mark_ambiguous n t else t
               | None \<Rightarrow> t)
          in (None, t1\<lparr>unpaired := rest @
               [\<lparr>ui_key = key, ui_notice = notice, ui_source = source, ui_expiresAt = now + PAIR_WINDOW_MS\<rparr>]\<rparr>))"

text \<open>\<open>const notice = {}\<close> is a new cell.\<close>

definition receiveNotice :: "int \<Rightarrow> jstr \<Rightarrow> int \<Rightarrow> tracker \<Rightarrow> bool \<times> tracker" where
  "receiveNotice groupId uid now t =
     (let key = pair_key groupId uid; n = length (cells t);
          (paired, t1) = pair key FromNotice (Some n) now (t\<lparr>cells := cells t @ [\<lparr>cardSequence = None, ambiguous = False\<rparr>]\<rparr>)
      in case paired of
        Some _ \<Rightarrow> (False, t1)
      | None \<Rightarrow> (True, t1\<lparr>notices := remember (notices t1) key n\<rparr>))"

definition set_card_sequence :: "nat option \<Rightarrow> int \<Rightarrow> tracker \<Rightarrow> tracker" where
  "set_card_sequence n sequence t = (case n of
     None \<Rightarrow> t
   | Some n \<Rightarrow> t\<lparr>cells := (cells t)[n := (cells t ! n)\<lparr>cardSequence := Some sequence\<rparr>]\<rparr>)"

definition receiveCard :: "int \<Rightarrow> int \<Rightarrow> jstr option \<Rightarrow> int \<Rightarrow> tracker \<Rightarrow> bool \<times> tracker" where
  "receiveCard groupId sequence uid now t =
     (let key = card_key groupId sequence in
      if map_of (cards t) key \<noteq> None then (False, t)
      else let (paired, t1) = (case uid of
                 Some u \<Rightarrow> if u \<noteq> [] then pair (pair_key groupId u) FromCard None now t else (None, t)
               | None \<Rightarrow> (None, t));
               t2 = (case paired of Some e \<Rightarrow> set_card_sequence (ui_notice e) sequence t1 | None \<Rightarrow> t1)
           in (paired = None, t2\<lparr>cards := remember (cards t2) key \<lparr>card_groupId = groupId, card_sequence = sequence\<rparr>\<rparr>))"

datatype invite_error = MultiplePending | MultipleGroups

definition getSelfInviteNotice :: "int \<Rightarrow> jstr \<Rightarrow> tracker \<Rightarrow> invite_error + self_invite_notice option" where
  "getSelfInviteNotice groupId uid t = (case map_of (notices t) (pair_key groupId uid) of
     None \<Rightarrow> Inr None
   | Some n \<Rightarrow> if ambiguous (cells t ! n) then Inl MultiplePending else Inr (Some (cells t ! n)))"

definition getCardSequence :: "int \<Rightarrow> tracker \<Rightarrow> int option" where
  "getCardSequence groupId t =
     fold (\<lambda>(k, c) s. if card_groupId c = groupId then Some (card_sequence c) else s) (cards t) None"

fun find_card :: "int \<Rightarrow> (jstr \<times> card) list \<Rightarrow> int option \<Rightarrow> invite_error + int option" where
  "find_card sequence [] m = Inr m"
| "find_card sequence ((k, c) # cs) m =
     (if card_sequence c = sequence then
        (if m \<noteq> None then Inl MultipleGroups else find_card sequence cs (Some (card_groupId c)))
      else find_card sequence cs m)"

definition findCardGroup :: "int \<Rightarrow> int option \<Rightarrow> tracker \<Rightarrow> invite_error + int option" where
  "findCardGroup sequence groupId t = (case groupId of
     Some g \<Rightarrow> Inr (map_option card_groupId (map_of (cards t) (card_key g sequence)))
   | None \<Rightarrow> find_card sequence (cards t) None)"

datatype invite_event = Notice int jstr int | CardIn int int "jstr option" int

fun invite_step :: "invite_event \<Rightarrow> tracker \<Rightarrow> tracker" where
  "invite_step (Notice g u now) t = snd (receiveNotice g u now t)"
| "invite_step (CardIn g s u now) t = snd (receiveCard g s u now t)"


section \<open>Bounds and references\<close>

lemma in_tl: "x \<in> set (tl xs) \<Longrightarrow> x \<in> set xs"
  by (cases xs) auto

lemma remember_append: "remember entries key value =
    (let e1 = AList.delete key entries in (if MAX_INVITES \<le> length e1 then tl e1 else e1) @ [(key, value)])"
proof -
  have "key \<notin> fst ` set (AList.delete key entries)" by (auto simp: AList.delete_eq)
  moreover from this have "key \<notin> fst ` set (tl (AList.delete key entries))" by (auto dest: in_tl)
  ultimately show ?thesis by (simp add: remember_def alist_update_new Let_def)
qed

lemma remember_bound: "length (remember entries key value) \<le> MAX_INVITES" if "length entries \<le> MAX_INVITES"
proof -
  have "length (AList.delete key entries) \<le> length entries" by (rule length_delete_le)
  with that show ?thesis by (auto simp: remember_append Let_def MAX_INVITES_def)
qed

lemma remember_keys: "distinct (map fst entries) \<Longrightarrow> distinct (map fst (remember entries key value))"
proof -
  assume d: "distinct (map fst entries)"
  have "distinct (map fst (AList.delete key entries))" "key \<notin> fst ` set (AList.delete key entries)"
    using d by (auto simp: AList.delete_eq distinct_map_filter)
  moreover from this have "distinct (map fst (tl (AList.delete key entries)))" "key \<notin> fst ` set (tl (AList.delete key entries))"
    by (auto simp: map_tl distinct_tl dest: in_tl)
  ultimately show ?thesis by (auto simp: remember_append Let_def)
qed

lemma remember_set: "set (remember entries key value) \<subseteq> insert (key, value) (set entries)"
  by (auto simp: remember_append Let_def AList.delete_eq dest: in_tl)

lemma map_of_remember: "map_of (remember entries key value) key = Some value"
  by (simp add: remember_def update_conv' Let_def)

definition tracker_inv :: "tracker \<Rightarrow> bool" where
  "tracker_inv t \<longleftrightarrow>
     length (cards t) \<le> MAX_INVITES \<and> length (notices t) \<le> MAX_INVITES \<and> length (unpaired t) \<le> MAX_INVITES \<and>
     distinct (map fst (cards t)) \<and> distinct (map fst (notices t)) \<and>
     (\<forall>(k, c)\<in>set (cards t). k = card_key (card_groupId c) (card_sequence c)) \<and>
     (\<forall>(k, n)\<in>set (notices t). n < length (cells t)) \<and>
     (\<forall>e\<in>set (unpaired t). \<forall>n. ui_notice e = Some n \<longrightarrow> n < length (cells t))"

lemma splice_out_length: "length (splice_out P xs) \<le> length xs"
  by (induction xs) (auto simp: splice_out_def)

lemma splice_out_set: "x \<in> set (splice_out P xs) \<Longrightarrow> x \<in> set xs"
  by (auto simp: splice_out_def dest!: set_takeWhileD in_tl set_dropWhileD)

lemma make_room_length: "length xs \<le> MAX_INVITES \<Longrightarrow> length (make_room xs) < MAX_INVITES"
  by (auto simp: make_room_def MAX_INVITES_def)

lemma make_room_set: "x \<in> set (make_room xs) \<Longrightarrow> x \<in> set xs"
  by (auto simp: make_room_def dest: in_tl split: if_splits)

lemma pair_effect:
  assumes "pair key source notice now t = (r, t')"
  shows "cards t' = cards t" "notices t' = notices t" "length (cells t') = length (cells t)"
    "length (unpaired t) \<le> MAX_INVITES \<Longrightarrow> length (unpaired t') \<le> MAX_INVITES"
    "\<forall>e\<in>set (unpaired t'). e \<in> set (unpaired t) \<or> ui_notice e = notice"
proof -
  let ?live = "filter (\<lambda>e. now < ui_expiresAt e) (unpaired t)"
  let ?m = "\<lambda>e. ui_key e = key \<and> ui_source e \<noteq> source"
  let ?new = "\<lparr>ui_key = key, ui_notice = notice, ui_source = source, ui_expiresAt = now + PAIR_WINDOW_MS\<rparr>"
  have len: "length (splice_out ?m ?live) \<le> MAX_INVITES" "length (make_room ?live) < MAX_INVITES"
    if "length (unpaired t) \<le> MAX_INVITES"
  proof -
    have l: "length ?live \<le> MAX_INVITES" using that length_filter_le [of _ "unpaired t"] by (rule order_trans [rotated])
    with splice_out_length [of ?m ?live] show "length (splice_out ?m ?live) \<le> MAX_INVITES" by simp
    from l show "length (make_room ?live) < MAX_INVITES" by (rule make_room_length)
  qed
  have sub: "set (splice_out ?m ?live) \<subseteq> set (unpaired t)" "set (make_room ?live) \<subseteq> set (unpaired t)"
    by (auto dest!: splice_out_set make_room_set)
  have "cards t' = cards t \<and> notices t' = notices t \<and> length (cells t') = length (cells t) \<and>
      (unpaired t' = splice_out ?m ?live \<or> unpaired t' = make_room ?live @ [?new])"
    using assms by (auto simp: pair_def Let_def mark_ambiguous_def split: option.splits if_splits)
  then show "cards t' = cards t" "notices t' = notices t" "length (cells t') = length (cells t)"
    and u: "length (unpaired t) \<le> MAX_INVITES \<Longrightarrow> length (unpaired t') \<le> MAX_INVITES"
      "\<forall>e\<in>set (unpaired t'). e \<in> set (unpaired t) \<or> ui_notice e = notice"
    using len sub by auto
qed

lemma inv_receiveNotice:
  assumes "tracker_inv t"
  shows "tracker_inv (snd (receiveNotice g u now t))"
proof -
  let ?t = "t\<lparr>cells := cells t @ [\<lparr>cardSequence = None, ambiguous = False\<rparr>]\<rparr>"
  obtain r t1 where p: "pair (pair_key g u) FromNotice (Some (length (cells t))) now ?t = (r, t1)" by fastforce
  note e = pair_effect [OF p]
  have inv: "tracker_inv t1" using assms e unfolding tracker_inv_def by fastforce
  show ?thesis
  proof (cases r)
    case None
    have "(k, n) \<in> set (remember (notices t1) (pair_key g u) (length (cells t))) \<Longrightarrow> n < length (cells t1)" for k n
      using remember_set [of "notices t1" "pair_key g u" "length (cells t)"] inv e(3) by (auto simp: tracker_inv_def)
    with None inv show ?thesis
      by (auto simp: receiveNotice_def p Let_def tracker_inv_def remember_bound remember_keys)
  qed (use inv in \<open>simp add: receiveNotice_def p Let_def\<close>)
qed

lemma inv_set_card_sequence: "tracker_inv t \<Longrightarrow> tracker_inv (set_card_sequence n s t)"
  by (cases n) (auto simp: set_card_sequence_def tracker_inv_def)

lemma inv_remember_card:
  assumes "tracker_inv t"
  shows "tracker_inv (t\<lparr>cards := remember (cards t) (card_key g s) \<lparr>card_groupId = g, card_sequence = s\<rparr>\<rparr>)"
proof -
  have "k = card_key (card_groupId c) (card_sequence c)"
    if "(k, c) \<in> set (remember (cards t) (card_key g s) \<lparr>card_groupId = g, card_sequence = s\<rparr>)" for k c
    using that remember_set [of "cards t" "card_key g s"] assms by (fastforce simp: tracker_inv_def)
  with assms show ?thesis by (auto simp: tracker_inv_def remember_bound remember_keys)
qed

lemma inv_receiveCard:
  assumes "tracker_inv t"
  shows "tracker_inv (snd (receiveCard g s u now t))"
proof -
  have p: "tracker_inv (snd (pair k FromCard None now t))" for k
    using assms pair_effect [of k FromCard None now t "fst (pair k FromCard None now t)" "snd (pair k FromCard None now t)"]
    unfolding tracker_inv_def by fastforce
  show ?thesis using assms p
    by (auto simp: receiveCard_def Let_def case_prod_unfold inv_remember_card inv_set_card_sequence split: option.splits)
qed

lemma inv_run: "tracker_inv t \<Longrightarrow> tracker_inv (fold invite_step es t)"
proof (induction es arbitrary: t)
  case (Cons e es)
  then show ?case by (cases e) (simp_all add: inv_receiveNotice inv_receiveCard)
qed simp

lemma inv_new: "tracker_inv new_tracker"
  by (simp add: new_tracker_def tracker_inv_def)

text \<open>C36: the tracker is bounded and consistent.  After any sequence of notices and cards none of its
  tables has more than 1024 entries, no key occurs twice, every card is filed under its own group
  and sequence, and every reference to a notice is to an existing one.\<close>

theorem tracker_bounded:
  "case fold invite_step es new_tracker of t \<Rightarrow>
     length (cards t) \<le> 1024 \<and> length (notices t) \<le> 1024 \<and> length (unpaired t) \<le> 1024 \<and>
     distinct (map fst (cards t)) \<and> distinct (map fst (notices t)) \<and>
     list_all (\<lambda>(k, c). k = card_key (card_groupId c) (card_sequence c)) (cards t) \<and>
     list_all (\<lambda>(k, n). n < length (cells t)) (notices t)"
  using inv_run [OF inv_new, of es] by (auto simp: tracker_inv_def MAX_INVITES_def list_all_iff)

section \<open>Pairing\<close>

text \<open>No invitation for the key waits for its counterpart.\<close>

definition no_waiting :: "jstr \<Rightarrow> int \<Rightarrow> tracker \<Rightarrow> bool" where
  "no_waiting key now t \<longleftrightarrow> (\<forall>e\<in>set (unpaired t). ui_key e = key \<longrightarrow> ui_expiresAt e \<le> now)"

lemma pair_alone:
  assumes "no_waiting key now t"
  shows "pair key source notice now t = (None, t\<lparr>unpaired :=
    make_room (filter (\<lambda>e. now < ui_expiresAt e) (unpaired t)) @
    [\<lparr>ui_key = key, ui_notice = notice, ui_source = source, ui_expiresAt = now + PAIR_WINDOW_MS\<rparr>]\<rparr>)"
proof -
  let ?live = "filter (\<lambda>e. now < ui_expiresAt e) (unpaired t)"
  have live: "\<forall>e\<in>set ?live. ui_key e \<noteq> key" using assms by (auto simp: no_waiting_def)
  then have "find (\<lambda>e. ui_key e = key \<and> ui_source e \<noteq> source) ?live = None" by (auto simp: find_None_iff)
  moreover have "\<not> list_ex (\<lambda>e. ui_key e = key \<and> ui_source e = FromNotice) (make_room ?live)"
    using live by (auto simp: list_ex_iff dest!: make_room_set)
  ultimately show ?thesis by (simp add: pair_def Let_def split: option.splits)
qed

lemma pair_last:
  assumes "\<forall>e\<in>set us. ui_key e = key \<longrightarrow> ui_expiresAt e \<le> now" "unpaired t = us @ [e]" "ui_key e = key" "ui_source e \<noteq> source"
  shows "fst (pair key source notice now t) = (if now < ui_expiresAt e then Some e else None)"
    "now < ui_expiresAt e \<Longrightarrow> cells (snd (pair key source notice now t)) = cells t"
proof -
  let ?live = "filter (\<lambda>e. now < ui_expiresAt e) us" and ?m = "\<lambda>e. ui_key e = key \<and> ui_source e \<noteq> source"
  have none: "find ?m ?live = None" using assms(1) by (auto simp: find_None_iff)
  have app: "find P (xs @ ys) = (case find P xs of None \<Rightarrow> find P ys | Some x \<Rightarrow> Some x)" for P and xs ys :: "unpaired_invite list"
    by (induction xs) auto
  show "fst (pair key source notice now t) = (if now < ui_expiresAt e then Some e else None)"
    using none assms(2-4) by (simp add: pair_def Let_def app)
  show "cells (snd (pair key source notice now t)) = cells t" if "now < ui_expiresAt e"
    using none assms(2-4) that by (simp add: pair_def Let_def app)
qed


lemma room_other_keys:
  assumes "no_waiting key now t" "now \<le> now'"
  shows "\<forall>e\<in>set (make_room (filter (\<lambda>e. now < ui_expiresAt e) (unpaired t))). ui_key e = key \<longrightarrow> ui_expiresAt e \<le> now'"
  using assms by (fastforce simp: no_waiting_def dest: make_room_set)

lemma notice_alone:
  assumes "no_waiting (pair_key g u) now t"
  shows "receiveNotice g u now t = (True, t\<lparr>
    notices := remember (notices t) (pair_key g u) (length (cells t)),
    unpaired := make_room (filter (\<lambda>e. now < ui_expiresAt e) (unpaired t)) @
      [\<lparr>ui_key = pair_key g u, ui_notice = Some (length (cells t)), ui_source = FromNotice, ui_expiresAt = now + PAIR_WINDOW_MS\<rparr>],
    cells := cells t @ [\<lparr>cardSequence = None, ambiguous = False\<rparr>]\<rparr>)"
proof -
  have "no_waiting (pair_key g u) now (t\<lparr>cells := cells t @ [\<lparr>cardSequence = None, ambiguous = False\<rparr>]\<rparr>)"
    using assms by (simp add: no_waiting_def)
  from pair_alone [OF this] show ?thesis by (simp add: receiveNotice_def Let_def)
qed

text \<open>C37: an invitation is reported once.  When no other invitation of the user to the group waits
  for its counterpart, the notice is reported, and the card that follows is reported only if the
  pairing window of three seconds has passed; within the window the card's sequence is attached to
  the notice that an approval reads.  The same holds when the card comes first.\<close>

theorem invite_reported_once:
  assumes "no_waiting (pair_key g u) now t" "u \<noteq> []" "now \<le> now'" "map_of (cards t) (card_key g s) = None"
  shows "(let (r1, t1) = receiveNotice g u now t; (r2, t2) = receiveCard g s (Some u) now' t1 in
      r1 \<and> (r2 \<longleftrightarrow> now + 3000 \<le> now') \<and>
      (\<not> r2 \<longrightarrow> getSelfInviteNotice g u t2 = Inr (Some \<lparr>cardSequence = Some s, ambiguous = False\<rparr>))) \<and>
    (let (r1, t1) = receiveCard g s (Some u) now t; (r2, t2) = receiveNotice g u now' t1 in
      r1 \<and> (r2 \<longleftrightarrow> now + 3000 \<le> now'))"
proof
  let ?key = "pair_key g u" and ?rest = "make_room (filter (\<lambda>e. now < ui_expiresAt e) (unpaired t))"
  note others = room_other_keys [OF assms(1,3)]
  define t1 where "t1 = snd (receiveNotice g u now t)"
  let ?e = "\<lparr>ui_key = ?key, ui_notice = Some (length (cells t)), ui_source = FromNotice, ui_expiresAt = now + PAIR_WINDOW_MS\<rparr>"
  have t1: "receiveNotice g u now t = (True, t1)" "cards t1 = cards t" "unpaired t1 = ?rest @ [?e]"
    "notices t1 = remember (notices t) ?key (length (cells t))" "cells t1 = cells t @ [\<lparr>cardSequence = None, ambiguous = False\<rparr>]"
    by (simp_all add: t1_def notice_alone [OF assms(1)])
  note p = pair_last [OF others t1(3), of FromCard None]
  obtain r t2 where q: "pair ?key FromCard None now' t1 = (r, t2)" by fastforce
  have n2: "notices t2 = notices t1" by (rule pair_effect(2) [OF q])
  show "let (r1, t1) = receiveNotice g u now t; (r2, t2) = receiveCard g s (Some u) now' t1 in
      r1 \<and> (r2 \<longleftrightarrow> now + 3000 \<le> now') \<and>
      (\<not> r2 \<longrightarrow> getSelfInviteNotice g u t2 = Inr (Some \<lparr>cardSequence = Some s, ambiguous = False\<rparr>))"
    using assms(2,4) t1 p q n2
    by (auto simp: receiveCard_def Let_def PAIR_WINDOW_MS_def getSelfInviteNotice_def set_card_sequence_def map_of_remember
        split: if_splits)
  define t3 where "t3 = snd (receiveCard g s (Some u) now t)"
  let ?f = "\<lparr>ui_key = ?key, ui_notice = None, ui_source = FromCard, ui_expiresAt = now + PAIR_WINDOW_MS\<rparr>"
  let ?t3 = "t3\<lparr>cells := cells t3 @ [\<lparr>cardSequence = None, ambiguous = False\<rparr>]\<rparr>"
  have t3: "receiveCard g s (Some u) now t = (True, t3)" "unpaired t3 = ?rest @ [?f]"
    using assms(2,4) by (simp_all add: t3_def receiveCard_def Let_def pair_alone [OF assms(1)])
  have "unpaired ?t3 = ?rest @ [?f]" using t3(2) by simp
  note p' = pair_last [OF others this, of FromNotice "Some (length (cells t3))"]
  show "let (r1, t1) = receiveCard g s (Some u) now t; (r2, t2) = receiveNotice g u now' t1 in
      r1 \<and> (r2 \<longleftrightarrow> now + 3000 \<le> now')"
    using t3 p' by (auto simp: receiveNotice_def Let_def PAIR_WINDOW_MS_def case_prod_unfold split: option.splits if_splits)
qed

theorem invite_reported_once_witness:
  "fst (receiveNotice 7 (js ''u'') 0 new_tracker) \<and>
   \<not> fst (receiveCard 7 3 (Some (js ''u'')) 10 (snd (receiveNotice 7 (js ''u'') 0 new_tracker))) \<and>
   getSelfInviteNotice 7 (js ''u'') (snd (receiveCard 7 3 (Some (js ''u'')) 10 (snd (receiveNotice 7 (js ''u'') 0 new_tracker)))) =
     Inr (Some \<lparr>cardSequence = Some 3, ambiguous = False\<rparr>)"
proof -
  have "no_waiting (pair_key 7 (js ''u'')) 0 new_tracker" "js ''u'' \<noteq> []" "map_of (cards new_tracker) (card_key 7 3) = None"
    by (simp_all add: no_waiting_def new_tracker_def js_def)
  with invite_reported_once [of 7 "js ''u''" 0 new_tracker 10 3] show ?thesis by (simp add: Let_def case_prod_unfold)
qed

lemma find_card_spec:
  "find_card s cs m = (case (case m of None \<Rightarrow> [] | Some g \<Rightarrow> [g]) @
       map (card_groupId \<circ> snd) (filter (\<lambda>(k, c). card_sequence c = s) cs) of
     [] \<Rightarrow> Inr None | [g] \<Rightarrow> Inr (Some g) | _ \<Rightarrow> Inl MultipleGroups)"
  by (induction s cs m rule: find_card.induct) (auto split: option.splits list.splits)

text \<open>Finding the group of a card.  For every state the tracker can reach: with a group given,
  the answer is that group exactly when a card with the sequence was received for it and is still
  kept; without one, the answer is the group of the only kept card with the sequence, nothing when
  there is none, and an error when there are several.\<close>

lemma findCardGroup_correct:
  assumes "t = fold invite_step es new_tracker"
  shows "findCardGroup s (Some g) t =
      Inr (if list_ex (\<lambda>(k, c). card_groupId c = g \<and> card_sequence c = s) (cards t) then Some g else None) \<and>
    findCardGroup s None t = (case map (card_groupId \<circ> snd) (filter (\<lambda>(k, c). card_sequence c = s) (cards t)) of
      [] \<Rightarrow> Inr None | [g'] \<Rightarrow> Inr (Some g') | _ \<Rightarrow> Inl MultipleGroups)"
proof
  have inv: "tracker_inv t" using inv_run [OF inv_new, of es] assms by simp
  have key: "card_key g s = card_key g' s' \<longleftrightarrow> g = g' \<and> s = s'" for g s g' s'
  proof
    assume "card_key g s = card_key g' s'"
    moreover have "split_on 58 (card_key g s) = [decimal_int g, decimal_int s]" for g s
      using decimal_int_chars [of g] decimal_int_chars [of s]
      by (subst card_key_def) (auto simp: js_def intro!: split_on_append [THEN trans] split_on_id)
    ultimately have "[decimal_int g, decimal_int s] = [decimal_int g', decimal_int s']" by metis
    then show "g = g' \<and> s = s'" by simp
  qed simp
  have "map_of (cards t) (card_key g s) = Some c \<longleftrightarrow> (card_key g s, c) \<in> set (cards t)" for c
    using inv by (simp add: tracker_inv_def)
  moreover have "(k, c) \<in> set (cards t) \<Longrightarrow> k = card_key (card_groupId c) (card_sequence c)" for k c
    using inv by (auto simp: tracker_inv_def)
  ultimately show "findCardGroup s (Some g) t =
      Inr (if list_ex (\<lambda>(k, c). card_groupId c = g \<and> card_sequence c = s) (cards t) then Some g else None)"
    by (cases "map_of (cards t) (card_key g s)") (fastforce simp: findCardGroup_def list_ex_iff key)+
  show "findCardGroup s None t = (case map (card_groupId \<circ> snd) (filter (\<lambda>(k, c). card_sequence c = s) (cards t)) of
      [] \<Rightarrow> Inr None | [g'] \<Rightarrow> Inr (Some g') | _ \<Rightarrow> Inl MultipleGroups)"
    by (simp add: findCardGroup_def find_card_spec)
qed

end
