(* ===== verification/Sha1_Stream.thy ===== *)
theory Sha1_Stream
  imports SL_Prelude
begin

text \<open>
  The streaming SHA-1 of flash transfers, packages/protocol/src/highway/sha1-stream.ts: a hash whose
  intermediate state can be read after every slice of a file.  Numbers that the code keeps in
  \<open>Uint32Array\<close> or truncates with \<open>>>> 0\<close> are 32-bit words.
\<close>

section \<open>The compression function\<close>

definition SHA1_BLOCK_SIZE :: nat where "SHA1_BLOCK_SIZE = 64"

definition rotl :: "32 word \<Rightarrow> nat \<Rightarrow> 32 word" where
  "rotl x n = push_bit n x OR drop_bit (32 - n) x"

type_synonym sha_words = "32 word \<times> 32 word \<times> 32 word \<times> 32 word \<times> 32 word"

definition initial_words :: sha_words where
  "initial_words = (0x67452301, 0xefcdab89, 0x98badcfe, 0x10325476, 0xc3d2e1f0)"

text \<open>\<open>dv.getUint32(i * 4, false)\<close>\<close>

definition getUint32 :: "byte list \<Rightarrow> nat \<Rightarrow> 32 word" where
  "getUint32 block i =
     push_bit 24 (ucast (block ! i)) OR push_bit 16 (ucast (block ! (i + 1))) OR
     push_bit 8 (ucast (block ! (i + 2))) OR ucast (block ! (i + 3))"

definition schedule :: "byte list \<Rightarrow> 32 word list" where
  "schedule block =
     fold (\<lambda>i w. w @ [rotl (w ! (i - 3) XOR w ! (i - 8) XOR w ! (i - 14) XOR w ! (i - 16)) 1]) [16..<80]
       (map (\<lambda>i. getUint32 block (i * 4)) [0..<16])"

definition round :: "32 word list \<Rightarrow> nat \<Rightarrow> sha_words \<Rightarrow> sha_words" where
  "round w i = (\<lambda>(a, b, c, d, e).
     let f = (if i < 20 then ((b AND c) OR (NOT b AND d)) + 0x5a827999
              else if i < 40 then (b XOR c XOR d) + 0x6ed9eba1
              else if i < 60 then ((b AND c) OR (b AND d) OR (c AND d)) + 0x8f1bbcdc
              else (b XOR c XOR d) + 0xca62c1d6);
         temp = f + rotl a 5 + e + w ! i
     in (temp, a, rotl b 30, c, d))"

definition transform :: "byte list \<Rightarrow> sha_words \<Rightarrow> sha_words" where
  "transform block = (\<lambda>(s0, s1, s2, s3, s4).
     let w = schedule block;
         (a, b, c, d, e) = fold (round w) [0..<80] (s0, s1, s2, s3, s4)
     in (s0 + a, s1 + b, s2 + c, s3 + d, s4 + e))"

section \<open>The stream\<close>

record sha1 =
  sha_state :: sha_words
  count0 :: "32 word"
  count1 :: "32 word"
  buffer :: "byte list"

definition reset :: "sha1 \<Rightarrow> sha1" where
  "reset s = s\<lparr>sha_state := initial_words, count0 := 0, count1 := 0\<rparr>"

definition new_Sha1Stream :: sha1 where
  "new_Sha1Stream = reset \<lparr>sha_state = (0, 0, 0, 0, 0), count0 = 0, count1 = 0, buffer = replicate SHA1_BLOCK_SIZE 0\<rparr>"

text \<open>\<open>buffer.set(bytes, offset)\<close>\<close>

definition buf_set :: "byte list \<Rightarrow> nat \<Rightarrow> byte list \<Rightarrow> byte list" where
  "buf_set buf off bytes = take off buf @ bytes @ drop (off + length bytes) buf"

text \<open>\<open>len << 3\<close> is a signed 32-bit number; the comparison that detects the carry uses it as such.\<close>

definition shift3 :: "nat \<Rightarrow> 32 word" where
  "shift3 len = push_bit 3 (word_of_nat len)"

function blocks_loop :: "byte list \<Rightarrow> nat \<Rightarrow> sha_words \<Rightarrow> nat \<times> sha_words" where
  "blocks_loop data i st =
     (if i + SHA1_BLOCK_SIZE \<le> length data
      then blocks_loop data (i + SHA1_BLOCK_SIZE) (transform (take SHA1_BLOCK_SIZE (drop i data)) st)
      else (i, st))"
  by pat_completeness auto
termination
  by (relation "measure (\<lambda>(data, i, st). length data - i)") (auto simp: SHA1_BLOCK_SIZE_def)

declare blocks_loop.simps [simp del]

definition add_count :: "nat \<Rightarrow> sha1 \<Rightarrow> sha1" where
  "add_count len s =
     (let c0 = count0 s + shift3 len;
          c1 = (if uint c0 < sint (shift3 len) then count1 s + 1 else count1 s)
      in s\<lparr>count0 := c0, count1 := c1 + word_of_nat (len div 2 ^ 29)\<rparr>)"

definition update :: "byte list \<Rightarrow> sha1 \<Rightarrow> sha1" where
  "update data s =
     (let len = length data;
          index = unat (drop_bit 3 (count0 s) AND 0x3f);
          s1 = add_count len s;
          partLen = SHA1_BLOCK_SIZE - index
      in if partLen \<le> len then
           (let buf = buf_set (buffer s1) index (take partLen data);
                (i, st) = blocks_loop data partLen (transform buf (sha_state s1))
            in s1\<lparr>sha_state := st, buffer := buf_set buf 0 (drop i data)\<rparr>)
         else s1\<lparr>buffer := buf_set (buffer s1) index data\<rparr>)"

text \<open>\<open>dv.setUint32(i * 4, word, littleEndian)\<close>\<close>

definition word_bytes :: "bool \<Rightarrow> 32 word \<Rightarrow> byte list" where
  "word_bytes littleEndian w =
     (let be = [ucast (drop_bit 24 w), ucast (drop_bit 16 w), ucast (drop_bit 8 w), ucast w]
      in if littleEndian then rev be else be)"

definition words_bytes :: "bool \<Rightarrow> sha_words \<Rightarrow> byte list" where
  "words_bytes littleEndian = (\<lambda>(s0, s1, s2, s3, s4). concat (map (word_bytes littleEndian) [s0, s1, s2, s3, s4]))"

definition hash :: "bool \<Rightarrow> sha1 \<Rightarrow> byte list" where
  "hash littleEndian s = words_bytes littleEndian (sha_state s)"

text \<open>
  \<open>digest\<close> is Node's \<open>createHash('sha1')\<close> of the whole file.  \<open>subarray\<close> cuts its bounds to the
  length of the array.
\<close>

fun slices_loop :: "(byte list \<Rightarrow> byte list) \<Rightarrow> byte list \<Rightarrow> nat \<Rightarrow> nat \<Rightarrow> nat list \<Rightarrow> sha1 \<Rightarrow> byte list list" where
  "slices_loop digest bytes sliceCount sliceSize [] s = []"
| "slices_loop digest bytes sliceCount sliceSize (i # is) s =
     (let start = i * sliceSize;
          fin = min (start + sliceSize) (length bytes);
          s1 = update (take (fin - start) (drop start bytes)) s
      in (if i \<noteq> sliceCount - 1 then hash True s1 else digest bytes) # slices_loop digest bytes sliceCount sliceSize is s1)"

definition computeSha1StateV :: "(byte list \<Rightarrow> byte list) \<Rightarrow> byte list \<Rightarrow> nat \<Rightarrow> nat \<Rightarrow> byte list list" where
  "computeSha1StateV digest bytes sliceCount sliceSize =
     slices_loop digest bytes sliceCount sliceSize [0..<sliceCount] new_Sha1Stream"

section \<open>The reference\<close>

text \<open>The complete blocks of a message, compressed in order.\<close>

function sha_blocks :: "byte list \<Rightarrow> sha_words \<Rightarrow> sha_words" where
  "sha_blocks m st = (if length m < 64 then st else sha_blocks (drop 64 m) (transform (take 64 m) st))"
  by pat_completeness auto
termination
  by (relation "measure (\<lambda>(m, st). length m)") auto

declare sha_blocks.simps [simp del]

definition tail_bytes :: "byte list \<Rightarrow> byte list" where
  "tail_bytes m = drop (64 * (length m div 64)) m"

lemma sha_blocks_short: "length m < 64 \<Longrightarrow> sha_blocks m st = st"
  by (simp add: sha_blocks.simps)

lemma sha_blocks_block: "length b = 64 \<Longrightarrow> sha_blocks (b @ m) st = sha_blocks m (transform b st)"
  by (simp add: sha_blocks.simps [of "b @ m"])

lemma sha_blocks_append:
  "length a mod 64 = 0 \<Longrightarrow> sha_blocks (a @ m) st = sha_blocks m (sha_blocks a st)"
proof (induction a st rule: sha_blocks.induct)
  case (1 a st)
  show ?case
  proof (cases "length a < 64")
    case True
    with 1(2) have "a = []" by simp
    then show ?thesis by (simp add: sha_blocks_short)
  next
    case False
    have "sha_blocks (a @ m) st = sha_blocks (take 64 a @ (drop 64 a @ m)) st" by (metis append_assoc append_take_drop_id)
    also have "\<dots> = sha_blocks (drop 64 a @ m) (transform (take 64 a) st)"
      using False by (intro sha_blocks_block) simp
    also have "\<dots> = sha_blocks m (sha_blocks (drop 64 a) (transform (take 64 a) st))"
      using False 1(2) by (intro 1(1)) (auto simp: mod_if)
    finally show ?thesis using False by (simp add: sha_blocks.simps [of a])
  qed
qed

lemma tail_bytes_append: "length a mod 64 = 0 \<Longrightarrow> tail_bytes (a @ m) = tail_bytes m"
proof -
  assume "length a mod 64 = 0"
  then obtain k where k: "length a = 64 * k" by auto
  have "(64 * k + length m) div 64 = k + length m div 64" by simp
  with k show ?thesis by (simp add: tail_bytes_def algebra_simps)
qed

lemma tail_bytes_short: "length m < 64 \<Longrightarrow> tail_bytes m = m"
  by (simp add: tail_bytes_def)

lemma length_tail_bytes: "length (tail_bytes m) = length m mod 64"
  by (simp add: tail_bytes_def minus_mult_div_eq_mod)

lemma head_tail:
  obtains a where "m = a @ tail_bytes m" "length a mod 64 = 0"
proof
  show "m = take (64 * (length m div 64)) m @ tail_bytes m" by (simp add: tail_bytes_def)
  show "length (take (64 * (length m div 64)) m) mod 64 = 0" by (simp add: min_absorb2)
qed

lemma blocks_loop_spec:
  "i \<le> length data \<Longrightarrow> blocks_loop data i st =
    (length data - length (tail_bytes (drop i data)), sha_blocks (drop i data) st)"
proof (induction data i st rule: blocks_loop.induct)
  case (1 data i st)
  show ?case
  proof (cases "i + SHA1_BLOCK_SIZE \<le> length data")
    case True
    let ?b = "take 64 (drop i data)"
    have "drop (i + 64) data = drop 64 (drop i data)" by (simp add: add.commute)
    then have b: "drop i data = ?b @ drop (i + 64) data" by (simp only: append_take_drop_id)
    have len: "length ?b = 64" using True by (simp add: SHA1_BLOCK_SIZE_def)
    have "tail_bytes (drop i data) = tail_bytes (drop (i + 64) data)"
      by (subst b, rule tail_bytes_append) (simp only: len mod_self)
    moreover have "sha_blocks (drop i data) st = sha_blocks (drop (i + 64) data) (transform ?b st)"
      by (subst b, rule sha_blocks_block) (rule len)
    ultimately show ?thesis
      using 1(1) [OF True] True by (simp add: blocks_loop.simps [of data i] SHA1_BLOCK_SIZE_def)
  next
    case False
    with 1(2) have "length (drop i data) < 64" by (simp add: SHA1_BLOCK_SIZE_def)
    with False 1(2) show ?thesis
      by (simp add: blocks_loop.simps [of data i] tail_bytes_short sha_blocks_short)
  qed
qed

section \<open>The stream computes the reference\<close>

definition sha_inv :: "byte list \<Rightarrow> sha1 \<Rightarrow> bool" where
  "sha_inv m s \<longleftrightarrow> sha_state s = sha_blocks m initial_words \<and> length (buffer s) = 64 \<and>
     take (length m mod 64) (buffer s) = tail_bytes m \<and> count0 s = word_of_nat (8 * length m)"

lemma count_index:
  assumes "count0 s = word_of_nat (8 * n)"
  shows "unat (drop_bit 3 (count0 s) AND 0x3f) = n mod 64"
proof -
  have "unat (drop_bit 3 (count0 s) AND 0x3f) = unat (drop_bit 3 (count0 s)) mod 64"
    using unat_and_mask [of "drop_bit 3 (count0 s)" 6] by (simp add: mask_eq_exp_minus_1)
  also have "unat (drop_bit 3 (count0 s)) = (8 * n mod 2 ^ 32) div 8"
  proof -
    have "unat (drop_bit 3 w) = unat w div 8" for w :: "32 word"
      by (simp only: unsigned_drop_bit_eq) (simp add: drop_bit_eq_div take_bit_eq_mod unsigned_less [where 'a = nat, of w, simplified])
    then show ?thesis by (simp only: assms unat_of_nat) simp
  qed
  also have "8 * n mod 2 ^ 32 = 8 * (n mod 2 ^ 29)"
    using mult_mod_right [of 8 n "2 ^ 29"] by simp
  finally show ?thesis by (simp add: mod_mod_cancel)
qed

lemma count_add: "count0 (add_count len s) = count0 s + word_of_nat (8 * len)"
  by (simp add: add_count_def Let_def shift3_def push_bit_eq_mult algebra_simps)

lemma add_count_sel [simp]: "sha_state (add_count len s) = sha_state s" "buffer (add_count len s) = buffer s"
  by (simp_all add: add_count_def Let_def)

lemma sha_inv_update:
  assumes "sha_inv m s"
  shows "sha_inv (m @ data) (update data s)"
proof -
  let ?r = "length m mod 64" and ?p = "64 - length m mod 64"
  from assms have st: "sha_state s = sha_blocks m initial_words" and buf: "length (buffer s) = 64"
    and tl: "take ?r (buffer s) = tail_bytes m" and c: "count0 s = word_of_nat (8 * length m)"
    by (simp_all add: sha_inv_def)
  have r: "?r < 64" by simp
  note index = count_index [OF c]
  have count: "count0 (update data s) = word_of_nat (8 * length (m @ data))"
    by (simp add: update_def Let_def count_add c case_prod_unfold distrib_left)
  obtain a where a: "m = a @ tail_bytes m" "length a mod 64 = 0" by (rule head_tail)
  have st_a: "sha_blocks m initial_words = sha_blocks a initial_words"
    by (subst a(1), subst sha_blocks_append [OF a(2)]) (simp add: sha_blocks_short length_tail_bytes)
  show ?thesis
  proof (cases "?p \<le> length data")
    case True
    let ?b = "tail_bytes m @ take ?p data"
    have b: "buf_set (buffer s) ?r (take ?p data) = ?b" and lb: "length ?b = 64"
      using True buf tl r by (simp_all add: buf_set_def length_tail_bytes)
    have split: "m @ data = (a @ ?b) @ drop ?p data"
      by (subst (1) a(1)) simp
    have ab: "length (a @ ?b) mod 64 = 0" using a(2) lb by (metis length_append mod_add_self2)
    have "sha_blocks (m @ data) initial_words = sha_blocks (drop ?p data) (transform ?b (sha_blocks m initial_words))"
      unfolding split sha_blocks_append [OF ab] sha_blocks_append [OF a(2)] st_a
      using sha_blocks_block [OF lb, of "[]"] by (simp add: sha_blocks_short)
    moreover have "tail_bytes (m @ data) = tail_bytes (drop ?p data)"
      unfolding split by (rule tail_bytes_append [OF ab])
    moreover have "drop (length data - length (tail_bytes (drop ?p data))) data = tail_bytes (drop ?p data)"
    proof -
      let ?q = "64 * (length (drop ?p data) div 64)"
      have "?p + ?q \<le> length data" using True by simp
      moreover have "length (tail_bytes (drop ?p data)) = length data - (?p + ?q)"
        by (simp only: tail_bytes_def length_drop diff_diff_left)
      ultimately show ?thesis by (simp add: tail_bytes_def) (simp add: ac_simps)
    qed
    ultimately have eqs: "sha_blocks (m @ data) initial_words = sha_blocks (drop ?p data) (transform ?b (sha_blocks m initial_words))"
      "tail_bytes (m @ data) = tail_bytes (drop ?p data)"
      "drop (length data - length (tail_bytes (drop ?p data))) data = tail_bytes (drop ?p data)" by blast+
    have "sha_state (update data s) = sha_blocks (drop ?p data) (transform ?b (sha_state s)) \<and>
        buffer (update data s) = buf_set ?b 0 (tail_bytes (drop ?p data))"
      using True eqs(3) unfolding update_def Let_def index SHA1_BLOCK_SIZE_def
      by (simp only: if_True add_count_sel b blocks_loop_spec prod.case eqs(3)) simp
    then have u: "sha_state (update data s) = sha_blocks (m @ data) initial_words"
      "buffer (update data s) = tail_bytes (m @ data) @ drop (length (tail_bytes (m @ data))) ?b"
      by (simp_all only: eqs st buf_set_def) simp_all
    have t: "length (m @ data) mod 64 = length (tail_bytes (m @ data))" by (rule length_tail_bytes [symmetric])
    have "length (tail_bytes (m @ data)) \<le> 64" unfolding length_tail_bytes by simp
    then show ?thesis unfolding sha_inv_def u count t using lb
      by (simp only: length_append length_drop append_eq_conv_conj) simp
  next
    case False
    then have n: "length (m @ data) mod 64 = ?r + length data" using r by (simp add: mod_add_left_eq [symmetric, of "length m"])
    have short: "length (tail_bytes m @ data) < 64" using False by (simp add: length_tail_bytes)
    have split: "m @ data = a @ (tail_bytes m @ data)" by (subst (1) a(1)) simp
    have "sha_blocks (m @ data) initial_words = sha_blocks m initial_words"
      unfolding split sha_blocks_append [OF a(2)] sha_blocks_short [OF short] st_a ..
    moreover have "tail_bytes (m @ data) = tail_bytes m @ data"
      unfolding split tail_bytes_append [OF a(2)] by (rule tail_bytes_short [OF short])
    ultimately show ?thesis using False buf tl st count n
      by (simp add: sha_inv_def update_def Let_def index SHA1_BLOCK_SIZE_def buf_set_def length_tail_bytes min_def)
  qed
qed

lemma sha_inv_new: "sha_inv [] new_Sha1Stream"
  by (simp add: sha_inv_def new_Sha1Stream_def reset_def sha_blocks_short tail_bytes_short SHA1_BLOCK_SIZE_def)


lemma sha_inv_run: "sha_inv m s \<Longrightarrow> sha_inv (m @ concat cs) (fold update cs s)"
proof (induction cs arbitrary: m s)
  case (Cons c cs)
  from Cons.IH [OF sha_inv_update [OF Cons.prems, of c]] show ?case by simp
qed simp

text \<open>C38: the stream hashes the message, however it is cut.  After updates with any pieces, the state
  it reports is that of compressing the complete 64-byte blocks of the concatenated message in
  order, so the cuts make no difference.\<close>

theorem sha1_stream_correct:
  "hash littleEndian (fold update chunks new_Sha1Stream) =
     words_bytes littleEndian (sha_blocks (concat chunks) initial_words)"
  using sha_inv_run [OF sha_inv_new, of chunks] by (simp add: hash_def sha_inv_def)

lemma slices_loop_spec:
  assumes "sha_inv (take (i * sz) bytes) s" "i \<le> n"
  shows "slices_loop digest bytes n sz [i..<n] s =
    map (\<lambda>j. if j \<noteq> n - 1 then words_bytes True (sha_blocks (take ((j + 1) * sz) bytes) initial_words) else digest bytes) [i..<n]"
  using assms
proof (induction "n - i" arbitrary: i s)
  case (Suc d)
  then have i: "i < n" by simp
  let ?piece = "take (min (i * sz + sz) (length bytes) - i * sz) (drop (i * sz) bytes)"
  have "take (i * sz) bytes @ ?piece = take ((i + 1) * sz) bytes"
  proof (cases "i * sz + sz \<le> length bytes")
    case True
    have "take ((i + 1) * sz) bytes = take (i * sz + sz) bytes" by (simp add: add.commute)
    with True show ?thesis by (simp add: take_add)
  next
    case False
    then show ?thesis by (simp add: min_def add.commute)
  qed
  then have inv: "sha_inv (take (Suc i * sz) bytes) (update ?piece s)"
    using sha_inv_update [OF Suc.prems(1), of ?piece] by simp
  moreover have "hash True (update ?piece s) = words_bytes True (sha_blocks (take ((i + 1) * sz) bytes) initial_words)"
    using inv by (simp add: hash_def sha_inv_def)
  ultimately show ?case
    using Suc.hyps(1) [of "Suc i" "update ?piece s"] Suc.hyps(2) i
    by (simp add: upt_conv_Cons [OF i] Let_def)
qed simp

text \<open>The states of the slices.  Entry \<open>i\<close> of the list that is sent with a file is the little-endian
  state after the first \<open>i + 1\<close> slices for every slice but the last, and the digest of the whole
  file for the last, whatever the slice size.\<close>

lemma sha1_states_correct:
  "computeSha1StateV digest bytes n sz =
     map (\<lambda>i. if i \<noteq> n - 1 then words_bytes True (sha_blocks (take ((i + 1) * sz) bytes) initial_words)
       else digest bytes) [0..<n]"
  using slices_loop_spec [of 0 sz bytes new_Sha1Stream n digest] sha_inv_new
  by (simp add: computeSha1StateV_def)

end
