(* ===== verification/Client_Ip.thy ===== *)
theory Client_Ip
  imports SL_Prelude
begin

text \<open>
  Which address a request of the web interface is attributed to,
  packages/core/src/webui/client-ip.ts.  Header values and addresses are strings of Latin-1 characters.
\<close>

section \<open>Trust\<close>

datatype trust_proxy = TrustNone | TrustLoopback | TrustAll | TrustIps "string list"

text \<open>\<open>new Set(list)\<close> in insertion order.\<close>

definition set_of_list :: "'a list \<Rightarrow> 'a list" where
  "set_of_list xs = rev (remdups (rev xs))"

definition parseTrustProxy :: "string option \<Rightarrow> trust_proxy" where
  "parseTrustProxy raw =
     (let value = (case raw of None \<Rightarrow> [] | Some r \<Rightarrow> toLowerCase (trim r)) in
      if value = [] then TrustNone
      else if value = ''1'' \<or> value = ''true'' \<or> value = ''all'' then TrustAll
      else if value = ''loopback'' then TrustLoopback
      else let ips = set_of_list (filter (\<lambda>s. s \<noteq> []) (map trim (split_on (CHR '','') value))) in
        if length ips = 0 then TrustNone else TrustIps ips)"

definition describeTrustProxy :: "trust_proxy \<Rightarrow> string" where
  "describeTrustProxy mode = (case mode of
     TrustNone \<Rightarrow> ''socket peer (default)''
   | TrustAll \<Rightarrow> ''X-Real-IP / X-Forwarded-For from any peer''
   | TrustLoopback \<Rightarrow> ''X-Real-IP / X-Forwarded-For when socket peer is loopback''
   | TrustIps ips \<Rightarrow> ''X-Real-IP / X-Forwarded-For when socket peer is in ['' @ join_with '','' ips @ '']'')"

definition octet :: "string \<Rightarrow> bool" where
  "octet part \<longleftrightarrow> 1 \<le> length part \<and> length part \<le> 3 \<and>
     list_all (\<lambda>c. 48 \<le> (of_char c :: nat) \<and> (of_char c :: nat) \<le> 57) part \<and> digits_value (map of_char part) \<le> 255"

lemma trim_length: "length (trim s) \<le> length s"
proof -
  have "length (dropWhile P xs) \<le> length xs" for P and xs :: string by (induction xs) auto
  from this [of js_space "rev (dropWhile js_space s)"] this [of js_space s] show ?thesis by (simp add: trim_def)
qed

function isLoopbackClientIp :: "string \<Rightarrow> bool" where
  "isLoopbackClientIp ip =
     (let normalized = toLowerCase (trim ip) in
      if normalized = ''::1'' \<or> normalized = ''0:0:0:0:0:0:0:1'' then True
      else if take 7 normalized = ''::ffff:'' then isLoopbackClientIp (drop 7 normalized)
      else let octets = split_on (CHR ''.'') normalized in
        length octets = 4 \<and> octets ! 0 = ''127'' \<and> list_all octet octets)"
  by pat_completeness auto
termination
proof (relation "measure length")
  fix ip normalized assume "normalized = toLowerCase (trim ip)" "take 7 normalized = ''::ffff:''"
  moreover from this(2) have "0 < length normalized" by (cases normalized) auto
  ultimately show "(drop 7 normalized, ip) \<in> measure length"
    using trim_length [of ip] by (cases "trim ip") (auto simp: toLowerCase_def)
qed simp

declare isLoopbackClientIp.simps [simp del]

definition shouldTrustHeaders :: "trust_proxy \<Rightarrow> string \<Rightarrow> bool" where
  "shouldTrustHeaders mode socketIp = (case mode of
     TrustNone \<Rightarrow> False | TrustAll \<Rightarrow> True | TrustLoopback \<Rightarrow> isLoopbackClientIp socketIp
   | TrustIps ips \<Rightarrow> socketIp \<in> set ips)"

section \<open>The address of a request\<close>

record ip_headers =
  x_real_ip :: "string option"
  x_forwarded_for :: "string option"

text \<open>\<open>getSocketIp\<close> may throw: \<open>None\<close>.\<close>

definition pickClientIp :: "ip_headers \<Rightarrow> trust_proxy \<Rightarrow> string option \<Rightarrow> string \<Rightarrow> string" where
  "pickClientIp h mode getSocketIp fallbackIp =
     (case getSocketIp of
        None \<Rightarrow> fallbackIp
      | Some socketIp \<Rightarrow>
          if socketIp = [] then fallbackIp
          else if \<not> shouldTrustHeaders mode socketIp then socketIp
          else let realIp = map_option trim (x_real_ip h) in
            case realIp of
              Some (c # cs) \<Rightarrow> c # cs
            | _ \<Rightarrow>
                (case x_forwarded_for h of
                   Some (x # xs) \<Rightarrow>
                     (let first = trim (hd (split_on (CHR '','') (x # xs))) in
                      if first \<noteq> [] then first else socketIp)
                 | _ \<Rightarrow> socketIp))"

text \<open>
  The connection information of the server library: \<open>None\<close> when reading it throws, otherwise the
  address, which may be missing.
\<close>

definition makeClientIpResolver :: "trust_proxy \<Rightarrow> string \<Rightarrow> ip_headers \<Rightarrow> string option option \<Rightarrow> string" where
  "makeClientIpResolver mode fallbackIp h connInfo =
     pickClientIp h mode (map_option (\<lambda>a. case a of None \<Rightarrow> fallbackIp | Some ip \<Rightarrow> ip) connInfo) fallbackIp"

section \<open>Who can choose the address\<close>

lemma set_set_of_list [simp]: "set (set_of_list xs) = set xs" "set_of_list xs = [] \<longleftrightarrow> xs = []"
  by (simp_all add: set_of_list_def)

text \<open>The peers a setting trusts.\<close>

definition trusted_by :: "string option \<Rightarrow> string \<Rightarrow> bool" where
  "trusted_by raw ip \<longleftrightarrow> (case raw of
     None \<Rightarrow> False
   | Some r \<Rightarrow>
       let value = toLowerCase (trim r) in
       if value \<in> {''1'', ''true'', ''all''} then True
       else if value = ''loopback'' then isLoopbackClientIp ip
       else ip \<noteq> [] \<and> ip \<in> trim ` set (split_on (CHR '','') value))"

lemma trusted_by_iff: "ip \<noteq> [] \<Longrightarrow> shouldTrustHeaders (parseTrustProxy raw) ip \<longleftrightarrow> trusted_by raw ip"
proof (cases raw)
  case None
  then show ?thesis by (simp add: shouldTrustHeaders_def parseTrustProxy_def trusted_by_def)
next
  case (Some r)
  assume ip: "ip \<noteq> []"
  define v where "v = toLowerCase (trim r)"
  let ?ips = "set_of_list (filter (\<lambda>s. s \<noteq> []) (map trim (split_on (CHR '','') v)))"
  have mem: "ip \<in> set ?ips \<longleftrightarrow> ip \<in> trim ` set (split_on (CHR '','') v)" using ip by auto
  have parse: "parseTrustProxy raw = (if v = [] then TrustNone
      else if v = ''1'' \<or> v = ''true'' \<or> v = ''all'' then TrustAll else if v = ''loopback'' then TrustLoopback
      else if length ?ips = 0 then TrustNone else TrustIps ?ips)"
    by (simp only: parseTrustProxy_def Some option.case v_def Let_def)
  have trust: "trusted_by raw ip \<longleftrightarrow> (if v \<in> {''1'', ''true'', ''all''} then True
      else if v = ''loopback'' then isLoopbackClientIp ip else ip \<in> set ?ips)"
    using ip by (simp only: trusted_by_def Some option.case v_def [symmetric] Let_def mem) simp
  have empty: "ip \<notin> set ?ips" if "v = [] \<or> length ?ips = 0"
    using that ip by (elim disjE) (simp add: trim_def, simp only: length_0_conv list.set, simp)
  show ?thesis unfolding parse trust
    by (cases "v = [] \<or> v \<in> {''1'', ''true'', ''all'', ''loopback''}")
      (use empty in \<open>auto simp: shouldTrustHeaders_def simp del: set_set_of_list\<close>)
qed

text \<open>C40: a peer that is not a trusted proxy cannot choose the address it is attributed to.  If a
  request is attributed to anything but the address of its socket, the setting trusts that
  address: it is \<open>1\<close>, \<open>true\<close> or \<open>all\<close>, or \<open>loopback\<close> and the socket is a loopback one, or a list
  that names the address.\<close>

theorem client_ip_unspoofable:
  assumes "ip \<noteq> []" "makeClientIpResolver (parseTrustProxy raw) fallback h (Some (Some ip)) \<noteq> ip"
  shows "trusted_by raw ip"
  using assms trusted_by_iff [of ip raw]
  by (auto simp: makeClientIpResolver_def pickClientIp_def split: if_splits)

theorem client_ip_unspoofable_witness:
  "trusted_by (Some ''all'') ''10.0.0.1''"
proof (rule client_ip_unspoofable)
  show "makeClientIpResolver (parseTrustProxy (Some ''all'')) ''127.0.0.1''
      \<lparr>x_real_ip = Some ''1.2.3.4'', x_forwarded_for = None\<rparr> (Some (Some ''10.0.0.1'')) \<noteq> ''10.0.0.1''"
    by (simp add: makeClientIpResolver_def pickClientIp_def parseTrustProxy_def shouldTrustHeaders_def trim_def js_space_def
        toLowerCase_def lower_char_def Let_def)
qed simp

section \<open>Loopback addresses\<close>

definition dotted :: "nat list \<Rightarrow> string" where
  "dotted ns = join_with ''.'' (map (\<lambda>n. map char_of (decimal n)) ns)"

definition digit_char :: "char \<Rightarrow> bool" where
  "digit_char c \<longleftrightarrow> 48 \<le> (of_char c :: nat) \<and> (of_char c :: nat) \<le> 57"

lemma decimal_text:
  "c \<in> set (map char_of (decimal n)) \<Longrightarrow> digit_char c"
  "map of_char (map char_of (decimal n) :: string) = decimal n"
proof -
  have d: "x < 256 \<and> 48 \<le> x \<and> x \<le> 57" if "x \<in> set (decimal n)" for x using decimal_digits [of n] that by fastforce
  then have of: "of_char (char_of x :: char) = x" if "x \<in> set (decimal n)" for x using that by (simp add: of_char_of)
  show "c \<in> set (map char_of (decimal n)) \<Longrightarrow> digit_char c" using d of by (auto simp: digit_char_def)
  show "map of_char (map char_of (decimal n) :: string) = decimal n" using of by (auto intro: map_idI)
qed

lemma octet_decimal: "n \<le> 255 \<Longrightarrow> octet (map char_of (decimal n))"
proof -
  assume n: "n \<le> 255"
  have "length (decimal n) \<le> 3"
    using n by (simp add: decimal.simps [of n] decimal.simps [of "n div 10"] decimal.simps [of "n div 10 div 10"])
  then show ?thesis using n decimal_text(1) [of _ n] decimal_text(2) [of n] decimal_nonempty [of n]
    by (simp add: octet_def list_all_iff digit_char_def Suc_le_eq del: decimal_nonempty) 
qed


lemma digit_plain: "digit_char c \<or> c = CHR ''.'' \<Longrightarrow> \<not> js_space c \<and> lower_char c = c \<and> c \<noteq> CHR '':''"
  by (auto simp: digit_char_def js_space_def lower_char_def Let_def)

lemma dotted_chars: "c \<in> set (dotted ns) \<Longrightarrow> digit_char c \<or> c = CHR ''.''"
proof -
  have "c \<in> set (join_with ''.'' xs) \<Longrightarrow> c = CHR ''.'' \<or> (\<exists>x\<in>set xs. c \<in> set x)" for xs
    by (induction "''.''" xs rule: join_with.induct) auto
  from this [of "map (\<lambda>n. map char_of (decimal n)) ns"] show "c \<in> set (dotted ns) \<Longrightarrow> digit_char c \<or> c = CHR ''.''"
    using decimal_text(1) by (auto simp: dotted_def)
qed

lemma normal_id: "\<forall>c\<in>set s. \<not> js_space c \<and> lower_char c = c \<Longrightarrow> toLowerCase (trim s) = s"
proof -
  assume s: "\<forall>c\<in>set s. \<not> js_space c \<and> lower_char c = c"
  have "\<forall>c\<in>set t. \<not> js_space c \<Longrightarrow> dropWhile js_space t = t" for t by (cases t) auto
  from this [of s] this [of "rev s"] s have "dropWhile js_space s = s" "dropWhile js_space (rev s) = rev s" by simp_all
  with s show ?thesis by (simp add: trim_def toLowerCase_def map_idI)
qed

lemma loopback_dotted:
  assumes "a \<le> 255" "b \<le> 255" "c \<le> 255" "d \<le> 255"
  shows "isLoopbackClientIp (dotted [a, b, c, d]) \<longleftrightarrow> a = 127"
proof -
  let ?s = "dotted [a, b, c, d]" and ?p = "\<lambda>n. map char_of (decimal n) :: string"
  have norm: "toLowerCase (trim ?s) = ?s" using dotted_chars digit_plain by (intro normal_id) blast
  have colon: "CHR '':'' \<notin> set ?s" using dotted_chars digit_plain by blast
  have dot: "CHR ''.'' \<notin> set (?p n)" for n using decimal_text(1) [of "CHR ''.''" n] by (auto simp: digit_char_def)
  have split: "split_on (CHR ''.'') ?s = [?p a, ?p b, ?p c, ?p d]"
    unfolding dotted_def using dot by (subst split_join) auto
  have "?p a = ''127'' \<longleftrightarrow> a = 127"
  proof
    assume "?p a = ''127''"
    then have "(map of_char (?p a) :: jstr) = map of_char ''127''" by (simp only:)
    then have "decimal a = decimal 127" by (simp only: decimal_text(2)) (simp add: decimal.simps)
    then show "a = 127" by simp
  next
    have "map char_of (decimal 127) = ''127''" by code_simp
    then show "a = 127 \<Longrightarrow> ?p a = ''127''" by simp
  qed
  moreover have "take 7 ?s \<noteq> ''::ffff:''" "?s \<noteq> ''::1''" "?s \<noteq> ''0:0:0:0:0:0:0:1''"
    using colon by (auto dest: arg_cong [where f = set] in_set_takeD simp del: set_take_subset)
      (metis in_set_takeD list.set_intros(1))
  ultimately show ?thesis using assms
    by (subst isLoopbackClientIp.simps) (simp add: norm split Let_def octet_decimal)
qed

text \<open>Loopback addresses.  A dotted IPv4 address is taken for loopback exactly when its first octet
  is 127, also when it is written as an IPv4-mapped IPv6 address; the two spellings of the IPv6
  loopback address are as well.\<close>

lemma loopback_addresses:
  assumes "a \<le> 255" "b \<le> 255" "c \<le> 255" "d \<le> 255"
  shows "(isLoopbackClientIp (dotted [a, b, c, d]) \<longleftrightarrow> a = 127) \<and>
    (isLoopbackClientIp (''::ffff:'' @ dotted [a, b, c, d]) \<longleftrightarrow> a = 127) \<and>
    isLoopbackClientIp ''::1'' \<and> isLoopbackClientIp ''0:0:0:0:0:0:0:1''"
proof -
  let ?s = "''::ffff:'' @ dotted [a, b, c, d]"
  have norm: "toLowerCase (trim ?s) = ?s"
    using dotted_chars digit_plain by (intro normal_id) (auto simp: js_space_def lower_char_def)
  have "isLoopbackClientIp ?s \<longleftrightarrow> isLoopbackClientIp (dotted [a, b, c, d])"
    using isLoopbackClientIp.simps [of ?s, unfolded norm] by (simp add: Let_def)
  moreover have "isLoopbackClientIp ''::1''" "isLoopbackClientIp ''0:0:0:0:0:0:0:1''"
    by (subst isLoopbackClientIp.simps, simp add: trim_def js_space_def toLowerCase_def lower_char_def Let_def)+
  ultimately show ?thesis using loopback_dotted [OF assms] by blast
qed

end
