(* ===== verification/History_Gate.thy ===== *)
theory History_Gate
  imports SL_Prelude "HOL-Library.Sublist"
begin

text \<open>
  The gate of history requests, packages/core/src/bridge/apis/history-request-gate.ts: requests run one
  after the other, each with its own minimal distance to its neighbours.  The promise chain
  \<open>tail\<close> is a queue: the callback of a request runs when the result of the one before has settled.
\<close>

section \<open>State\<close>

text \<open>
  A request is its number and its gap.  The callback at the head of the chain is asleep until a time,
  or its operation runs.  \<open>submitted\<close> and \<open>started\<close> record what has happened.
\<close>

datatype turn = Idle | Sleeping nat int int | Running nat

record gate =
  lastStartedAt :: "int option"
  nextAllowedAt :: int
  queue :: "(nat \<times> int) list"
  turn :: turn
  aborted :: "nat set"
  rejected :: "nat set"
  submitted :: "nat list"
  started :: "(nat \<times> int \<times> int) list"

definition new_gate :: gate where
  "new_gate = \<lparr>lastStartedAt = None, nextAllowedAt = 0, queue = [], turn = Idle, aborted = {}, rejected = {},
     submitted = [], started = []\<rparr>"

section \<open>Operations\<close>

text \<open>
  \<open>run\<close>.  A gap that is not a safe integer or is negative is refused (\<open>None\<close> is a number that is not
  a safe integer).  With a signal that is already aborted the caller is rejected at once; the
  callback stays in the chain.
\<close>

definition gate_run :: "nat \<Rightarrow> int option \<Rightarrow> gate \<Rightarrow> bool \<times> gate" where
  "gate_run i minimumGapMs g = (case minimumGapMs of
     None \<Rightarrow> (False, g)
   | Some gap \<Rightarrow>
       if gap < 0 then (False, g)
       else (True, g\<lparr>queue := queue g @ [(i, gap)], submitted := submitted g @ [i],
         rejected := (if i \<in> aborted g then insert i (rejected g) else rejected g)\<rparr>))"

text \<open>The end of a callback that throws because its signal is aborted.\<close>

definition throw_aborted :: "nat \<Rightarrow> gate \<Rightarrow> gate" where
  "throw_aborted i g = g\<lparr>turn := Idle, rejected := insert i (rejected g)\<rparr>"

text \<open>The second part of the callback: the operation starts, unless the signal is aborted.\<close>

definition gate_start :: "nat \<Rightarrow> int \<Rightarrow> int \<Rightarrow> gate \<Rightarrow> gate" where
  "gate_start i gap startedAt g =
     (if i \<in> aborted g then throw_aborted i g
      else g\<lparr>lastStartedAt := Some startedAt, nextAllowedAt := startedAt + gap, turn := Running i,
        started := started g @ [(i, gap, startedAt)]\<rparr>)"

definition gate_wait :: "int \<Rightarrow> int \<Rightarrow> gate \<Rightarrow> int" where
  "gate_wait gap now g =
     (let requestedBoundary = (case lastStartedAt g of None \<Rightarrow> now | Some l \<Rightarrow> l + gap)
      in max (nextAllowedAt g) requestedBoundary - now)"

text \<open>The first part of the callback of the next request; the chain is idle.\<close>

definition gate_turn :: "int \<Rightarrow> gate \<Rightarrow> gate" where
  "gate_turn now g = (case queue g of
     [] \<Rightarrow> g
   | (i, gap) # rest \<Rightarrow>
       let g1 = g\<lparr>queue := rest\<rparr>; wait = gate_wait gap now g in
       if i \<in> aborted g then throw_aborted i g1
       else if 0 < wait then g1\<lparr>turn := Sleeping i gap (now + wait)\<rparr>
       else gate_start i gap now g1)"

definition gate_wake :: "int \<Rightarrow> gate \<Rightarrow> gate" where
  "gate_wake now g = (case turn g of Sleeping i gap until \<Rightarrow> gate_start i gap now g | _ \<Rightarrow> g)"

text \<open>The operation settles, whichever way.\<close>

definition gate_done :: "gate \<Rightarrow> gate" where
  "gate_done g = (case turn g of Running i \<Rightarrow> g\<lparr>turn := Idle\<rparr> | _ \<Rightarrow> g)"

text \<open>
  The signal of a request is aborted.  A sleep ends with a rejection; the caller of a request that is
  queued and has not started is rejected at once; a running operation is left alone.
\<close>

definition has_started :: "nat \<Rightarrow> gate \<Rightarrow> bool" where
  "has_started i g \<longleftrightarrow> i \<in> fst ` set (started g)"

definition gate_abort :: "nat \<Rightarrow> gate \<Rightarrow> gate" where
  "gate_abort i g =
     (let g1 = g\<lparr>aborted := insert i (aborted g),
            rejected := (if i \<in> set (submitted g) \<and> \<not> has_started i g then insert i (rejected g) else rejected g)\<rparr>
      in case turn g of
        Sleeping j gap until \<Rightarrow> if i = j then throw_aborted i g1 else g1
      | _ \<Rightarrow> g1)"

section \<open>Runs\<close>

text \<open>
  The clock of the gate is the one thing it is given from outside: it does not go back, and a sleep of
  \<open>ms\<close> milliseconds ends no earlier than that (the timer of the runtime keeps this for delays below
  2^31 milliseconds, some 24 days; a longer one it cuts to one millisecond.  The gaps of the callers are
  constants of at most a few seconds).  Times are exact, as sums below 2^53 are.  Every request has a number of its own.
\<close>

inductive gate_reach :: "int \<Rightarrow> gate \<Rightarrow> bool" where
  gr_new: "0 \<le> now \<Longrightarrow> gate_reach now new_gate"
| gr_tick: "gate_reach now g \<Longrightarrow> now \<le> now' \<Longrightarrow> gate_reach now' g"
| gr_run: "gate_reach now g \<Longrightarrow> i \<notin> set (submitted g) \<Longrightarrow> gate_reach now (snd (gate_run i gap g))"
| gr_turn: "gate_reach now g \<Longrightarrow> turn g = Idle \<Longrightarrow> gate_reach now (gate_turn now g)"
| gr_wake: "gate_reach now g \<Longrightarrow> turn g = Sleeping i gap until \<Longrightarrow> until \<le> now \<Longrightarrow> gate_reach now (gate_wake now g)"
| gr_done: "gate_reach now g \<Longrightarrow> gate_reach now (gate_done g)"
| gr_abort: "gate_reach now g \<Longrightarrow> gate_reach now (gate_abort i g)"

section \<open>Spacing\<close>

text \<open>Neighbouring starts respect the gaps of both requests.\<close>

definition spaced :: "(nat \<times> int \<times> int) list \<Rightarrow> bool" where
  "spaced xs \<longleftrightarrow> successively (\<lambda>(i, gap, s) (j, gap', s'). s + max gap gap' \<le> s') xs"

fun last_start :: "(nat \<times> int \<times> int) list \<Rightarrow> (int \<times> int) option" where
  "last_start [] = None"
| "last_start [(i, gap, s)] = Some (gap, s)"
| "last_start (x # xs) = last_start xs"

definition gate_inv :: "gate \<Rightarrow> bool" where
  "gate_inv g \<longleftrightarrow> spaced (started g) \<and>
     (case last_start (started g) of
        None \<Rightarrow> lastStartedAt g = None \<and> nextAllowedAt g = 0
      | Some (gap, s) \<Rightarrow> lastStartedAt g = Some s \<and> nextAllowedAt g = s + gap) \<and>
     (case turn g of
        Sleeping i gap until \<Rightarrow> i \<notin> aborted g \<and>
          (case last_start (started g) of None \<Rightarrow> True | Some (gap', s) \<Rightarrow> s + max gap' gap \<le> until)
      | _ \<Rightarrow> True)"

lemma last_start_snoc [simp]: "last_start (xs @ [(i, gap, s)]) = Some (gap, s)"
  by (induction xs rule: last_start.induct) auto

lemma spaced_snoc:
  "spaced (xs @ [(i, gap, s)]) \<longleftrightarrow> spaced xs \<and> (case last_start xs of None \<Rightarrow> True | Some (gap', s') \<Rightarrow> s' + max gap' gap \<le> s)"
proof -
  have "xs \<noteq> [] \<Longrightarrow> last_start xs = Some (snd (last xs))" by (induction xs rule: last_start.induct) auto
  then show ?thesis
    by (cases "xs = []") (auto simp: spaced_def successively_append_iff split: prod.splits)
qed

lemma inv_start:
  assumes "gate_inv g" "case last_start (started g) of None \<Rightarrow> True | Some (gap', s) \<Rightarrow> s + max gap' gap \<le> startedAt"
  shows "gate_inv (gate_start i gap startedAt g)"
  using assms by (auto simp: gate_inv_def gate_start_def throw_aborted_def spaced_snoc split: option.splits)

lemma wait_enough:
  assumes "gate_inv g"
  shows "case last_start (started g) of None \<Rightarrow> True | Some (gap', s) \<Rightarrow> s + max gap' gap \<le> now + gate_wait gap now g"
  using assms by (auto simp: gate_inv_def gate_wait_def split: option.splits)

lemma inv_reach: "gate_reach now g \<Longrightarrow> gate_inv g"
proof (induction rule: gate_reach.induct)
  case (gr_turn now g)
  show ?case
  proof (cases "queue g")
    case (Cons r rest)
    obtain i gap where r: "r = (i, gap)" by (cases r)
    have q: "gate_inv (g\<lparr>queue := rest\<rparr>)" using gr_turn.IH by (auto simp: gate_inv_def split: option.splits turn.splits)
    have w: "case last_start (started g) of None \<Rightarrow> True | Some (gap', s) \<Rightarrow> s + max gap' gap \<le> now + gate_wait gap now g"
      using gr_turn.IH by (rule wait_enough)
    show ?thesis
    proof (cases "i \<notin> aborted g \<and> \<not> 0 < gate_wait gap now g")
      case True
      then have "case last_start (started g) of None \<Rightarrow> True | Some (gap', s) \<Rightarrow> s + max gap' gap \<le> now"
        using w by (auto split: option.splits)
      then have "gate_inv (gate_start i gap now (g\<lparr>queue := rest\<rparr>))" using q by (intro inv_start) auto
      with True show ?thesis by (simp add: gate_turn_def Cons r Let_def)
    next
      case False
      with q w show ?thesis
        by (auto simp: gate_turn_def Cons r Let_def gate_inv_def throw_aborted_def split: option.splits)
    qed
  qed (use gr_turn.IH in \<open>simp add: gate_turn_def\<close>)
next
  case (gr_wake now g i gap until)
  then have "case last_start (started g) of None \<Rightarrow> True | Some (gap', s) \<Rightarrow> s + max gap' gap \<le> now"
    by (auto simp: gate_inv_def split: option.splits)
  with gr_wake show ?case by (simp add: gate_wake_def inv_start)
qed (auto simp: gate_inv_def new_gate_def spaced_def gate_run_def gate_done_def gate_abort_def throw_aborted_def Let_def
    split: option.splits turn.splits)


section \<open>Order\<close>

text \<open>Started, sleeping and queued requests are submitted ones in their order.\<close>

definition waiting :: "gate \<Rightarrow> nat list" where
  "waiting g = (case turn g of Sleeping i gap until \<Rightarrow> [i] | _ \<Rightarrow> []) @ map fst (queue g)"

definition order_inv :: "gate \<Rightarrow> bool" where
  "order_inv g \<longleftrightarrow> distinct (submitted g) \<and> subseq (map fst (started g) @ waiting g) (submitted g)"

lemma subseq_skip: "subseq (xs @ y # ys) zs \<Longrightarrow> subseq (xs @ ys) zs"
  by (rule subseq_order.trans [of _ "xs @ y # ys"]) (simp_all add: list_emb_append_mono list_emb_Cons)

lemma order_start:
  "distinct (submitted g) \<Longrightarrow> subseq (map fst (started g) @ i # map fst (queue g)) (submitted g) \<Longrightarrow>
    order_inv (gate_start i gap t g)"
  by (auto simp: order_inv_def gate_start_def throw_aborted_def waiting_def dest: subseq_skip)

lemma order_reach: "gate_reach now g \<Longrightarrow> order_inv g"
proof (induction rule: gate_reach.induct)
  case (gr_run now g i gap)
  have "subseq (map fst (started g) @ waiting g @ [i]) (submitted g @ [i])"
    using gr_run.IH list_emb_append_mono [of "(=)" "map fst (started g) @ waiting g" "submitted g" "[i]" "[i]"]
    by (simp add: order_inv_def)
  with gr_run show ?case
    by (auto simp: gate_run_def order_inv_def waiting_def split: option.splits turn.splits)
next
  case (gr_turn now g)
  show ?case
  proof (cases "queue g")
    case (Cons r rest)
    obtain i gap where r: "r = (i, gap)" by (cases r)
    have o: "distinct (submitted g)" "subseq (map fst (started g) @ i # map fst rest) (submitted g)"
      using gr_turn Cons r by (simp_all add: order_inv_def waiting_def)
    show ?thesis using o subseq_skip [OF o(2)] order_start [of "g\<lparr>queue := rest\<rparr>" i gap now]
      by (auto simp: gate_turn_def Cons r Let_def order_inv_def throw_aborted_def waiting_def gr_turn.hyps)
  qed (use gr_turn.IH in \<open>simp add: gate_turn_def\<close>)
next
  case (gr_wake now g i gap until)
  then have "order_inv (gate_start i gap now g)" by (intro order_start) (simp_all add: order_inv_def waiting_def)
  with gr_wake.hyps show ?case by (simp add: gate_wake_def)
next
  case (gr_done now g)
  then show ?case by (auto simp: gate_done_def order_inv_def waiting_def split: turn.splits)
next
  case (gr_abort now g i)
  then show ?case
    by (auto simp: gate_abort_def order_inv_def waiting_def throw_aborted_def Let_def dest: subseq_skip split: turn.splits)
qed (auto simp: order_inv_def new_gate_def waiting_def)

lemma order_distinct: "gate_reach now g \<Longrightarrow> distinct (map fst (started g) @ waiting g)"
  using order_reach [of now g] unfolding order_inv_def by (metis subseq_conv_nths distinct_nthsI)

lemma order_submitted: "gate_reach now g \<Longrightarrow> set (map fst (started g) @ waiting g) \<subseteq> set (submitted g)"
  using order_reach [of now g] unfolding order_inv_def by (metis subseq_conv_nths set_nths_subset)

text \<open>C39: spacing and order of history requests.  Whatever requests are submitted, aborted and settled
  in between, the operations start in the order of submission, each at most once, and the starts
  of two operations in a row are at least the larger of their two gaps apart.\<close>

theorem history_spacing:
  assumes "gate_reach now g"
  shows "spaced (started g) \<and> subseq (map fst (started g)) (submitted g) \<and> distinct (map fst (started g))"
proof -
  have "subseq (map fst (started g)) (map fst (started g) @ waiting g)"
    using list_emb_append_mono [of "(=)" "map fst (started g)" "map fst (started g)" "[]" "waiting g"] by simp
  then have "subseq (map fst (started g)) (submitted g)"
    using order_reach [OF assms] unfolding order_inv_def by (blast intro: subseq_order.trans)
  moreover have "distinct (map fst (started g))" using order_distinct [OF assms] by simp
  ultimately show ?thesis using inv_reach [OF assms] by (simp add: gate_inv_def)
qed

text \<open>Two requests with gaps of 100 and 500 milliseconds, submitted at once.\<close>

definition demo_gate :: gate where
  "demo_gate = gate_wake 510 (gate_turn 10 (gate_done (gate_turn 10
     (snd (gate_run 1 (Some 500) (snd (gate_run 0 (Some 100) new_gate)))))))"

lemmas demo_gate_simps = gate_wake_def gate_turn_def gate_done_def gate_run_def gate_start_def gate_wait_def new_gate_def Let_def

lemma demo_gate_reach: "gate_reach 510 demo_gate"
proof -
  have "gate_reach 10 (snd (gate_run 1 (Some 500) (snd (gate_run 0 (Some 100) new_gate))))"
    by (intro gr_run gr_new) (simp_all add: gate_run_def new_gate_def)
  then have "gate_reach 10 (gate_turn 10 (gate_done (gate_turn 10 (snd (gate_run 1 (Some 500) (snd (gate_run 0 (Some 100) new_gate)))))))"
    by (intro gr_turn gr_done) (simp_all add: demo_gate_simps)
  then have "gate_reach 510 (gate_turn 10 (gate_done (gate_turn 10 (snd (gate_run 1 (Some 500) (snd (gate_run 0 (Some 100) new_gate)))))))"
    by (rule gr_tick) simp
  then show ?thesis unfolding demo_gate_def
    by (rule gr_wake [where i = 1 and gap = 500 and until = 510]) (simp_all add: demo_gate_simps)
qed

theorem history_spacing_witness:
  "spaced (started demo_gate) \<and> subseq (map fst (started demo_gate)) [0, 1] \<and> started demo_gate = [(0, 100, 10), (1, 500, 510)]"
proof -
  have "submitted demo_gate = [0, 1]" "started demo_gate = [(0, 100, 10), (1, 500, 510)]"
    by (simp_all add: demo_gate_def demo_gate_simps)
  with history_spacing [OF demo_gate_reach] show ?thesis by simp
qed

section \<open>Aborted requests\<close>

definition abort_inv :: "gate \<Rightarrow> bool" where
  "abort_inv g \<longleftrightarrow> rejected g \<subseteq> aborted g \<and> fst ` set (started g) \<inter> rejected g = {} \<and>
     (\<forall>i\<in>aborted g \<inter> set (submitted g). has_started i g \<or> i \<in> rejected g)"


lemma abort_start:
  assumes "abort_inv g" "i \<notin> fst ` set (started g)"
  shows "abort_inv (gate_start i gap t g)"
  using assms by (auto simp: abort_inv_def gate_start_def throw_aborted_def has_started_def)

lemma abort_reach: "gate_reach now g \<Longrightarrow> abort_inv g"
proof (induction rule: gate_reach.induct)
  case (gr_run now g i gap)
  have "i \<notin> fst ` set (started g)" using order_submitted [OF gr_run.hyps(1)] gr_run.hyps(2) by auto
  with gr_run.IH show ?case
    by (auto simp: gate_run_def abort_inv_def has_started_def split: option.splits)
next
  case (gr_turn now g)
  show ?case
  proof (cases "queue g")
    case (Cons r rest)
    obtain i gap where r: "r = (i, gap)" by (cases r)
    have "i \<notin> fst ` set (started g)"
      using order_distinct [OF gr_turn.hyps(1)] by (auto simp: waiting_def Cons r)
    then show ?thesis using gr_turn.IH abort_start [of "g\<lparr>queue := rest\<rparr>" i gap now]
      by (auto simp: gate_turn_def Cons r Let_def abort_inv_def throw_aborted_def has_started_def)
  qed (use gr_turn.IH in \<open>simp add: gate_turn_def\<close>)
next
  case (gr_wake now g i gap until)
  have "i \<notin> fst ` set (started g)"
    using order_distinct [OF gr_wake.hyps(1)] by (auto simp: waiting_def gr_wake.hyps)
  with gr_wake show ?case by (simp add: gate_wake_def abort_start)
next
  case (gr_done now g)
  then show ?case by (auto simp: gate_done_def abort_inv_def has_started_def split: turn.splits)
next
  case (gr_abort now g i)
  have "turn g = Sleeping i gap until \<Longrightarrow> i \<notin> fst ` set (started g)" for gap until
    using order_distinct [OF gr_abort.hyps] by (auto simp: waiting_def)
  with gr_abort.IH show ?case
    by (auto simp: gate_abort_def abort_inv_def has_started_def throw_aborted_def Let_def split: turn.splits)
qed (auto simp: abort_inv_def new_gate_def)

text \<open>A request whose signal is aborted has either started before, and then runs on and
  its caller is not rejected by the gate, or its caller is rejected and it never starts; a caller
  is rejected only for an aborted signal.\<close>

lemma history_abort:
  assumes "gate_reach now g"
  shows "fst ` set (started g) \<inter> rejected g = {} \<and> rejected g \<subseteq> aborted g \<and>
    aborted g \<inter> set (submitted g) \<subseteq> fst ` set (started g) \<union> rejected g"
  using abort_reach [OF assms] by (auto simp: abort_inv_def has_started_def)

end
