(* ===== verification/Json_Values.thy ===== *)
theory Json_Values
  imports SL_Prelude
begin

text \<open>
  JSON values as the runtime holds them after \<open>JSON.parse\<close>: numbers that are integers are integers, any
  other number is its text.  The members of an object are in enumeration order.  Writing a value with
  \<open>JSON.stringify\<close> and reading it back gives the value.
\<close>

datatype json =
    JNull | JBool bool | JInt int | JFrac jstr | JStr jstr
  | JArr "json list" | JObj "(jstr \<times> json) list"

text \<open>\<open>value.name\<close>: \<open>None\<close> is \<open>undefined\<close>.\<close>

fun member_of :: "json \<Rightarrow> jstr \<Rightarrow> json option" where
  "member_of (JObj ms) k = map_of ms k"
| "member_of _ k = None"

fun is_object :: "json \<Rightarrow> bool" where
  "is_object (JObj ms) = True"
| "is_object _ = False"

fun members :: "json \<Rightarrow> (jstr \<times> json) list" where
  "members (JObj ms) = ms"
| "members _ = []"

fun is_string :: "json option \<Rightarrow> bool" where
  "is_string (Some (JStr s)) = True"
| "is_string _ = False"

fun json_text :: "json option \<Rightarrow> jstr" where
  "json_text (Some (JStr s)) = s"
| "json_text _ = []"

text \<open>\<open>Number.isSafeInteger\<close>.\<close>

fun is_safe_integer :: "json option \<Rightarrow> bool" where
  "is_safe_integer (Some (JInt i)) \<longleftrightarrow> \<bar>i\<bar> \<le> 2 ^ 53 - 1"
| "is_safe_integer _ \<longleftrightarrow> False"

fun int_of :: "json option \<Rightarrow> int" where
  "int_of (Some (JInt i)) = i"
| "int_of _ = 0"

lemma is_string_iff: "is_string x \<longleftrightarrow> (\<exists>s. x = Some (JStr s))"
  by (cases x rule: is_string.cases) auto

lemma is_safe_integer_iff: "is_safe_integer x \<longleftrightarrow> (\<exists>i. x = Some (JInt i) \<and> \<bar>i\<bar> \<le> 2 ^ 53 - 1)"
  by (cases x rule: is_safe_integer.cases) auto

lemma is_object_iff: "is_object x \<longleftrightarrow> (\<exists>ms. x = JObj ms)"
  by (cases x) auto

text \<open>\<open>obj.key = value\<close> and \<open>{ ...obj, key: value }\<close>.\<close>

fun set_member :: "jstr \<Rightarrow> json \<Rightarrow> json \<Rightarrow> json" where
  "set_member k v (JObj ms) = JObj (AList.update k v ms)"
| "set_member k v j = JObj [(k, v)]"

text \<open>Lower-case hexadecimal digits.\<close>

definition hex_digit :: "nat \<Rightarrow> bool" where
  "hex_digit c \<longleftrightarrow> 48 \<le> c \<and> c \<le> 57 \<or> 97 \<le> c \<and> c \<le> 102"

end
