(* ===== verification/Task_Store.thy ===== *)
theory Task_Store
  imports Json_Values
begin

text \<open>
  The persistent tasks of the tool server, packages/mcp/src/tasks.ts: the class \<open>PersistentTasks\<close> with its
  directory, its serial queue and the executions it starts.  Schemas of the protocol library and
  \<open>Date.parse\<close> are parameters.
\<close>

section \<open>Data\<close>

datatype task_status =
    Working | InputRequired "(jstr \<times> json) list" | Completed json
  | Failed int jstr "json option" | Cancelled

record task =
  taskId :: jstr
  createdAt :: jstr
  lastUpdatedAt :: jstr
  statusMessage :: "jstr option"
  status :: task_status

record task_summary =
  s_taskId :: jstr
  s_status :: jstr
  s_createdAt :: jstr
  s_lastUpdatedAt :: jstr
  s_statusMessage :: "jstr option"

record schemas =
  result_schema :: "json \<Rightarrow> json option"              \<comment> \<open>\<open>CallToolResult\<close>\<close>
  request_schema :: "jstr \<Rightarrow> json \<Rightarrow> json option"     \<comment> \<open>of the request with this method\<close>
  response_schema :: "jstr \<Rightarrow> json \<Rightarrow> json option"    \<comment> \<open>of the result of that request\<close>
  finite_date :: "jstr \<Rightarrow> bool"                      \<comment> \<open>\<open>Number.isFinite(Date.parse(s))\<close>\<close>

datatype task_error =
    InvalidIdentifier | UnknownTask | PersistenceFailed | RuntimeClosed | TooManyTasks
  | ResponsesNotObject | InvalidResponse | InvalidRequests | InputCancelled | InputPending | InputKeyReused
  | Unavailable | UnlinkFailed | BadPageSize | UnknownCursor
  | BadRecord | BadMetadata | BadError | BadResult | BadStatus
  | BadDirectory | BadScopeId | BadConcurrency | NotPrivate | TooLarge | BadJson | SaveFailed
  | NotFound | BadLock | Locked | KillFailed | WrongScope | ScopeMissing | IdentifierMismatch

definition INTERRUPTED :: jstr where
  "INTERRUPTED = js ''Task interrupted; remote outcome is unknown. Work was not replayed.''"
definition CANCELLED :: jstr where
  "CANCELLED = js ''Task cancelled; cancellation does not undo remote effects.''"
definition CANCELLATION_REQUESTED :: jstr where
  "CANCELLATION_REQUESTED = js ''Cancellation requested; remote effects may already have occurred.''"
definition MAX_RECORD_BYTES :: nat where "MAX_RECORD_BYTES = 16 * 1024 * 1024"

text \<open>The regular expression \<open>ID\<close>, character by character.\<close>

definition id_char :: "nat \<Rightarrow> nat \<Rightarrow> bool" where
  "id_char i c \<longleftrightarrow>
     (if i = 8 \<or> i = 13 \<or> i = 18 \<or> i = 23 then c = 45
      else if i = 14 then c = 52
      else if i = 19 then c = 56 \<or> c = 57 \<or> c = 97 \<or> c = 98
      else hex_digit c)"

definition is_task_id :: "jstr \<Rightarrow> bool" where
  "is_task_id s \<longleftrightarrow> length s = 36 \<and> list_all (\<lambda>i. id_char i (s ! i)) [0..<36]"

definition task_id :: "json option \<Rightarrow> task_error + jstr" where
  "task_id v = (if is_string v \<and> is_task_id (json_text v) then Inr (json_text v) else Inl InvalidIdentifier)"

fun status_name :: "task_status \<Rightarrow> jstr" where
  "status_name Working = js ''working''"
| "status_name (InputRequired _) = js ''input_required''"
| "status_name (Completed _) = js ''completed''"
| "status_name (Failed _ _ _) = js ''failed''"
| "status_name Cancelled = js ''cancelled''"

definition summary :: "task \<Rightarrow> task_summary" where
  "summary t = \<lparr>s_taskId = taskId t, s_status = status_name (status t), s_createdAt = createdAt t,
     s_lastUpdatedAt = lastUpdatedAt t,
     s_statusMessage = (case statusMessage t of Some (c # cs) \<Rightarrow> Some (c # cs) | _ \<Rightarrow> None)\<rparr>"

text \<open>\<open>{ ...summary, status, lastUpdatedAt, statusMessage }\<close>.\<close>

definition next_task :: "task_summary \<Rightarrow> jstr \<Rightarrow> jstr option \<Rightarrow> task_status \<Rightarrow> task" where
  "next_task s now msg st = \<lparr>taskId = s_taskId s, createdAt = s_createdAt s, lastUpdatedAt = now,
     statusMessage = msg, status = st\<rparr>"

fun terminal_status :: "task_status \<Rightarrow> bool" where
  "terminal_status (Completed _) = True"
| "terminal_status (Failed _ _ _) = True"
| "terminal_status Cancelled = True"
| "terminal_status _ = False"

definition terminal :: "task \<Rightarrow> bool" where
  "terminal t = terminal_status (status t)"

definition interrupted :: "jstr \<Rightarrow> task \<Rightarrow> task" where
  "interrupted now t = next_task (summary t) now (Some INTERRUPTED) (Failed (-32603) INTERRUPTED None)"

section \<open>Records on disk\<close>

text \<open>The members of a task object.\<close>

definition error_json :: "int \<Rightarrow> jstr \<Rightarrow> json option \<Rightarrow> json" where
  "error_json code message data = JObj ([(js ''code'', JInt code), (js ''message'', JStr message)] @
     (case data of None \<Rightarrow> [] | Some d \<Rightarrow> [(js ''data'', d)]))"

fun status_json :: "task_status \<Rightarrow> (jstr \<times> json) list" where
  "status_json (InputRequired reqs) = [(js ''inputRequests'', JObj reqs)]"
| "status_json (Completed result) = [(js ''result'', result)]"
| "status_json (Failed code message data) = [(js ''error'', error_json code message data)]"
| "status_json _ = []"

definition task_json :: "task \<Rightarrow> json" where
  "task_json t = JObj ([(js ''taskId'', JStr (taskId t)), (js ''status'', JStr (status_name (status t))),
       (js ''createdAt'', JStr (createdAt t)), (js ''lastUpdatedAt'', JStr (lastUpdatedAt t)),
       (js ''ttlMs'', JNull), (js ''pollIntervalMs'', JInt 1000)] @
     (case statusMessage t of None \<Rightarrow> [] | Some m \<Rightarrow> [(js ''statusMessage'', JStr m)]) @ status_json (status t))"

definition record_json :: "task \<Rightarrow> json" where
  "record_json t = JObj [(js ''version'', JInt 1), (js ''task'', task_json t)]"

definition request_methods :: "jstr list" where
  "request_methods = [js ''elicitation/create'', js ''sampling/createMessage'', js ''roots/list'']"

definition validate_request :: "schemas \<Rightarrow> json \<Rightarrow> json option" where
  "validate_request S request =
     (let m = member_of request (js ''method'') in
      if \<not> is_object request then None
      else if is_string m \<and> json_text m \<in> set request_methods then request_schema S (json_text m) request
      else None)"

definition validateInputRequests :: "schemas \<Rightarrow> json option \<Rightarrow> task_error + (jstr \<times> json) list" where
  "validateInputRequests S value = (case value of
     Some (JObj ms) \<Rightarrow>
       if ms = [] then Inl InvalidRequests
       else if list_all (\<lambda>(k, r). validate_request S r \<noteq> None) ms
       then Inr (map (\<lambda>(k, r). (k, the (validate_request S r))) ms) else Inl InvalidRequests
   | _ \<Rightarrow> Inl InvalidRequests)"

text \<open>\<open>switch (task.status)\<close> of \<open>validateRecord\<close>.\<close>

definition validate_status :: "schemas \<Rightarrow> json \<Rightarrow> task_error + task_status" where
  "validate_status S t =
     (let st = member_of t (js ''status''); err = member_of t (js ''error'') in
      if st = Some (JStr (js ''working'')) then Inr Working
      else if st = Some (JStr (js ''input_required'')) then
        (case validateInputRequests S (member_of t (js ''inputRequests'')) of Inl e \<Rightarrow> Inl e | Inr reqs \<Rightarrow> Inr (InputRequired reqs))
      else if st = Some (JStr (js ''cancelled'')) then Inr Cancelled
      else if st = Some (JStr (js ''failed'')) then
        (case err of
           None \<Rightarrow> Inl BadError
         | Some e \<Rightarrow>
             if \<not> is_object e \<or> \<not> is_safe_integer (member_of e (js ''code'')) \<or> \<not> is_string (member_of e (js ''message''))
             then Inl BadError
             else Inr (Failed (int_of (member_of e (js ''code''))) (json_text (member_of e (js ''message''))) (member_of e (js ''data''))))
      else if st = Some (JStr (js ''completed'')) then
        (case Option.bind (member_of t (js ''result'')) (result_schema S) of
           None \<Rightarrow> Inl BadResult
         | Some v \<Rightarrow> Inr (Completed (set_member (js ''resultType'') (JStr (js ''complete'')) v)))
      else Inl BadStatus)"

definition validateRecord :: "schemas \<Rightarrow> json \<Rightarrow> task_error + task" where
  "validateRecord S value =
     (case member_of value (js ''task'') of
        None \<Rightarrow> Inl BadRecord
      | Some t \<Rightarrow>
          if \<not> is_object value \<or> member_of value (js ''version'') \<noteq> Some (JInt 1) \<or> \<not> is_object t then Inl BadRecord
          else case task_id (member_of t (js ''taskId'')) of Inl e \<Rightarrow> Inl e | Inr i \<Rightarrow>
            let created = member_of t (js ''createdAt''); updated = member_of t (js ''lastUpdatedAt'');
                msg = member_of t (js ''statusMessage'')
            in if \<not> is_string created \<or> \<not> finite_date S (json_text created) \<or> \<not> is_string updated \<or>
                  \<not> finite_date S (json_text updated) \<or> member_of t (js ''ttlMs'') \<noteq> Some JNull \<or>
                  member_of t (js ''pollIntervalMs'') \<noteq> Some (JInt 1000) \<or> (msg \<noteq> None \<and> \<not> is_string msg)
               then Inl BadMetadata
               else case validate_status S t of Inl e \<Rightarrow> Inl e | Inr st \<Rightarrow>
                 Inr \<lparr>taskId = i, createdAt = json_text created, lastUpdatedAt = json_text updated,
                   statusMessage = (if is_string msg then Some (json_text msg) else None), status = st\<rparr>)"

section \<open>The runtime\<close>

text \<open>
  A directory is its files by name.  A write of a file creates a temporary file, renames it and
  synchronises the directory: it succeeds, fails before the rename, or fails after it.
\<close>

record dir_file =
  f_private :: bool
  f_size :: nat
  f_json :: "json option"    \<comment> \<open>\<open>None\<close>: the text is not JSON\<close>

type_synonym directory = "(jstr \<times> dir_file) list"

datatype write_result = Saved nat | NotRenamed | Renamed nat    \<comment> \<open>with the size of the text\<close>

definition save :: "write_result \<Rightarrow> jstr \<Rightarrow> json \<Rightarrow> directory \<Rightarrow> task_error option \<times> directory" where
  "save oc name data dir = (case oc of
     Saved n \<Rightarrow>
       if n > MAX_RECORD_BYTES then (Some SaveFailed, dir)
       else (None, AList.update name \<lparr>f_private = True, f_size = n, f_json = Some data\<rparr> dir)
   | Renamed n \<Rightarrow>
       if n > MAX_RECORD_BYTES then (Some SaveFailed, dir)
       else (Some SaveFailed, AList.update name \<lparr>f_private = True, f_size = n, f_json = Some data\<rparr> dir)
   | NotRenamed \<Rightarrow> (Some SaveFailed, dir))"

text \<open>
  The object of an execution.  It outlives its entry in the map \<open>active\<close>, so the objects are a store
  by task and the map is a list of tasks.  \<open>asked\<close> are the keys of the request, \<open>settled\<close> says that the
  promise of the request is settled; settling it again does nothing.
\<close>

record pending_input =
  outstanding :: "(jstr \<times> json) list"
  responses :: "(jstr \<times> json) list"
  asked :: "jstr list"
  settled :: bool

record active_task =
  signalAborted :: bool
  usedInputKeys :: "jstr list"
  input :: "pending_input option"

text \<open>What the code throws into an execution; \<open>Some\<close> is a \<open>ProtocolError\<close>.\<close>

type_synonym thrown = "(int \<times> jstr \<times> json option) option"

text \<open>Callbacks in the serial queue.\<close>

datatype task_op =
    OpStart | OpComplete jstr json | OpError jstr thrown | OpInput jstr "(jstr \<times> json) list"
  | OpUpdate jstr "(jstr \<times> json) list" | OpCancel jstr | OpClose

text \<open>Where the method \<open>run\<close> of a task stands.\<close>

datatype run_phase = Launching | Executing | Settling | Ending

text \<open>What promises of input requests and reports have become, in order.\<close>

datatype task_event =
    InputResolved jstr "jstr list" "(jstr \<times> json) list" | InputRejected jstr jstr | Reported jstr jstr

record tasks =
  records :: "(jstr \<times> task) list"
  active :: "jstr list"
  objects :: "(jstr \<times> active_task) list"
  ops :: "task_op list"
  runs :: "(jstr \<times> run_phase) list"
  closed :: bool
  closingRequested :: bool
  leaseReleased :: bool
  persistenceError :: bool
  dir :: directory
  lease :: jstr
  maxConcurrent :: nat
  changes :: "task list"
  events :: "task_event list"

definition task_file :: "jstr \<Rightarrow> jstr" where
  "task_file i = i @ js ''.task.json''"

definition put :: "write_result \<Rightarrow> task \<Rightarrow> tasks \<Rightarrow> task_error option \<times> tasks" where
  "put oc t s = (case save oc (task_file (taskId t)) (record_json t) (dir s) of
     (Some e, d) \<Rightarrow> (Some PersistenceFailed, s\<lparr>dir := d, persistenceError := True\<rparr>)
   | (None, d) \<Rightarrow>
       (None, s\<lparr>dir := d, records := AList.update (taskId t) t (records s), changes := changes s @ [t]\<rparr>))"

definition task_get :: "jstr \<Rightarrow> tasks \<Rightarrow> task_error + task" where
  "task_get i s =
     (if persistenceError s then Inl PersistenceFailed
      else if \<not> is_task_id i then Inl InvalidIdentifier
      else case map_of (records s) i of None \<Rightarrow> Inl UnknownTask | Some t \<Rightarrow> Inr t)"

definition set_object :: "jstr \<Rightarrow> active_task \<Rightarrow> tasks \<Rightarrow> tasks" where
  "set_object i a s = s\<lparr>objects := AList.update i a (objects s)\<rparr>"

definition report :: "jstr \<Rightarrow> jstr \<Rightarrow> tasks \<Rightarrow> tasks" where
  "report event i s = s\<lparr>events := events s @ [Reported event i]\<rparr>"

text \<open>\<open>active.input?.reject(error)\<close>.\<close>

definition reject_input :: "jstr \<Rightarrow> jstr \<Rightarrow> tasks \<Rightarrow> tasks" where
  "reject_input i message s = (case map_of (objects s) i of
     None \<Rightarrow> s
   | Some a \<Rightarrow>
       (case input a of
          None \<Rightarrow> s
        | Some p \<Rightarrow>
            if settled p then s
            else set_object i (a\<lparr>input := Some (p\<lparr>settled := True\<rparr>)\<rparr>) (s\<lparr>events := events s @ [InputRejected i message]\<rparr>)))"

definition abort_signal :: "jstr \<Rightarrow> tasks \<Rightarrow> tasks" where
  "abort_signal i s = (case map_of (objects s) i of
     None \<Rightarrow> s | Some a \<Rightarrow> set_object i (a\<lparr>signalAborted := True\<rparr>) s)"

definition is_aborted :: "jstr \<Rightarrow> tasks \<Rightarrow> bool" where
  "is_aborted i s = (case map_of (objects s) i of None \<Rightarrow> False | Some a \<Rightarrow> signalAborted a)"

section \<open>Callbacks of the serial queue\<close>

text \<open>\<open>start\<close>: the callback; \<open>uuid\<close> is the new identifier.\<close>

definition do_start :: "jstr \<Rightarrow> jstr \<Rightarrow> write_result \<Rightarrow> tasks \<Rightarrow> task_error option \<times> tasks" where
  "do_start now uuid oc s =
     (if closed s then (Some RuntimeClosed, s)
      else if persistenceError s then (Some PersistenceFailed, s)
      else if length (active s) \<ge> maxConcurrent s then (Some TooManyTasks, s)
      else case put oc \<lparr>taskId = uuid, createdAt = now, lastUpdatedAt = now, statusMessage = None, status = Working\<rparr> s of
        (Some e, s1) \<Rightarrow> (Some e, s1)
      | (None, s1) \<Rightarrow>
          (None, (set_object uuid \<lparr>signalAborted = False, usedInputKeys = [], input = None\<rparr> s1)
             \<lparr>active := active s1 @ [uuid], runs := AList.update uuid Launching (runs s1)\<rparr>))"

text \<open>\<open>run\<close>: the callback after a result.\<close>

definition do_complete :: "jstr \<Rightarrow> jstr \<Rightarrow> json \<Rightarrow> write_result \<Rightarrow> tasks \<Rightarrow> task_error option \<times> tasks" where
  "do_complete now i v oc s =
     (if closed s then (None, s)
      else case task_get i s of
        Inl e \<Rightarrow> (Some e, s)
      | Inr t \<Rightarrow>
          if terminal t then (None, s)
          else put oc (next_task (summary t) now None
            (Completed (set_member (js ''resultType'') (JStr (js ''complete'')) v))) s)"

text \<open>\<open>run\<close>: the callback after an exception.\<close>

definition failure_status :: "thrown \<Rightarrow> task_status" where
  "failure_status e = (case e of
     Some (code, message, data) \<Rightarrow> Failed code message data
   | None \<Rightarrow> Failed (-32603) (js ''Task execution failed; remote outcome may be unknown.'') None)"

definition do_error :: "jstr \<Rightarrow> jstr \<Rightarrow> thrown \<Rightarrow> write_result \<Rightarrow> tasks \<Rightarrow> task_error option \<times> tasks" where
  "do_error now i err oc s =
     (if closed s then (None, s)
      else case task_get i s of
        Inl e \<Rightarrow> (Some e, s)
      | Inr t \<Rightarrow>
          if terminal t then (None, s)
          else put oc (if is_aborted i s then next_task (summary t) now (Some CANCELLED) Cancelled
            else next_task (summary t) now (Some (js ''Task execution failed; check the correlated call diagnostics.''))
              (failure_status err)) s)"

text \<open>\<open>requestInput\<close>: the callback, with the validated requests.\<close>

definition do_input :: "jstr \<Rightarrow> jstr \<Rightarrow> (jstr \<times> json) list \<Rightarrow> write_result \<Rightarrow> tasks \<Rightarrow> task_error option \<times> tasks" where
  "do_input now i validated oc s =
     (case (if i \<in> set (active s) then map_of (objects s) i else None) of
        None \<Rightarrow> (Some InputCancelled, s)
      | Some a \<Rightarrow>
          if signalAborted a \<or> closed s then (Some InputCancelled, s)
          else case task_get i s of
            Inl e \<Rightarrow> (Some e, s)
          | Inr t \<Rightarrow>
              if terminal t then (Some InputCancelled, s)
              else if input a \<noteq> None then (Some InputPending, s)
              else if list_ex (\<lambda>(k, _). k \<in> set (usedInputKeys a)) validated then (Some InputKeyReused, s)
              else case put oc (next_task (summary t) now (s_statusMessage (summary t)) (InputRequired validated)) s of
                (Some e, s1) \<Rightarrow> (Some e, s1)
              | (None, s1) \<Rightarrow>
                  (None, set_object i (a\<lparr>
                     input := Some \<lparr>outstanding = validated, responses = [], asked = map fst validated, settled = False\<rparr>,
                     usedInputKeys := usedInputKeys a @ map fst validated\<rparr>) s1))"

text \<open>\<open>update\<close>: the responses that answer an outstanding request, in their order.\<close>

fun accepted_responses :: "schemas \<Rightarrow> (jstr \<times> json) list \<Rightarrow> (jstr \<times> json) list \<Rightarrow> task_error + (jstr \<times> json) list" where
  "accepted_responses S out [] = Inr []"
| "accepted_responses S out ((k, r) # rs) =
     (case map_of out k of
        None \<Rightarrow> accepted_responses S out rs
      | Some request \<Rightarrow>
          (case response_schema S (json_text (member_of request (js ''method''))) r of
             None \<Rightarrow> Inl InvalidResponse
           | Some v \<Rightarrow>
               (case accepted_responses S out rs of Inl e \<Rightarrow> Inl e | Inr acc \<Rightarrow> Inr ((k, v) # acc))))"

definition resolve_input :: "jstr \<Rightarrow> pending_input \<Rightarrow> tasks \<Rightarrow> tasks" where
  "resolve_input i p s =
     (if settled p then s else s\<lparr>events := events s @ [InputResolved i (asked p) (responses p)]\<rparr>)"

definition answer_input ::
    "jstr \<Rightarrow> jstr \<Rightarrow> task \<Rightarrow> active_task \<Rightarrow> pending_input \<Rightarrow> (jstr \<times> json) list \<Rightarrow> write_result \<Rightarrow> tasks \<Rightarrow> task_error option \<times> tasks" where
  "answer_input now i t a p acc oc s =
     (let rest = filter (\<lambda>(k, _). k \<notin> fst ` set acc) (outstanding p);
          done = (rest = []);
          sm = summary t
      in case put oc (next_task sm now (s_statusMessage sm) (if done then Working else InputRequired rest)) s of
        (Some e, s1) \<Rightarrow> (Some e, s1)
      | (None, s1) \<Rightarrow>
          let p1 = p\<lparr>responses := fold (\<lambda>(k, v). AList.update k v) acc (responses p), outstanding := rest\<rparr>
          in (None, if done then resolve_input i p1 (set_object i (a\<lparr>input := None\<rparr>) s1)
               else set_object i (a\<lparr>input := Some p1\<rparr>) s1))"

definition do_update :: "schemas \<Rightarrow> jstr \<Rightarrow> jstr \<Rightarrow> (jstr \<times> json) list \<Rightarrow> write_result \<Rightarrow> tasks \<Rightarrow> task_error option \<times> tasks" where
  "do_update S now i resp oc s =
     (if closed s then (Some RuntimeClosed, s)
      else case task_get i s of
        Inl e \<Rightarrow> (Some e, s)
      | Inr t \<Rightarrow>
          (case (status t, if i \<in> set (active s) then map_of (objects s) i else None) of
             (InputRequired _, Some a) \<Rightarrow>
               (case input a of
                  None \<Rightarrow> (None, s)
                | Some p \<Rightarrow>
                    (case accepted_responses S (outstanding p) resp of
                       Inl e \<Rightarrow> (Some e, s)
                     | Inr acc \<Rightarrow> if acc = [] then (None, s) else answer_input now i t a p acc oc s))
           | _ \<Rightarrow> (None, s)))"

definition do_cancel :: "jstr \<Rightarrow> jstr \<Rightarrow> write_result \<Rightarrow> tasks \<Rightarrow> task_error option \<times> tasks" where
  "do_cancel now i oc s =
     (if closed s then (Some RuntimeClosed, s)
      else case task_get i s of
        Inl e \<Rightarrow> (Some e, s)
      | Inr t \<Rightarrow>
          if terminal t then (None, s)
          else if i \<notin> set (active s) then (Some Unavailable, s)
          else case put oc (t\<lparr>lastUpdatedAt := now, statusMessage := Some CANCELLATION_REQUESTED\<rparr>) s of
            (Some e, s1) \<Rightarrow> (Some e, s1)
          | (None, s1) \<Rightarrow> (None, reject_input i CANCELLED (abort_signal i s1)))"

text \<open>\<open>close\<close>: the loop over the active tasks; \<open>ocs\<close> are the outcomes of their writes.\<close>

fun close_loop :: "jstr \<Rightarrow> (jstr \<Rightarrow> write_result) \<Rightarrow> jstr list \<Rightarrow> tasks \<Rightarrow> task_error option \<times> tasks" where
  "close_loop now ocs [] s = (None, s)"
| "close_loop now ocs (i # is) s =
     (case map_of (records s) i of
        None \<Rightarrow> (Some UnknownTask, snd (close_loop now ocs is s))
      | Some t \<Rightarrow>
          if terminal t then close_loop now ocs is s
          else case put (ocs i) (interrupted now t) s of
            (None, s1) \<Rightarrow> close_loop now ocs is s1
          | (Some e, s1) \<Rightarrow> (Some e, snd (close_loop now ocs is s1)))"

definition do_close :: "jstr \<Rightarrow> (jstr \<Rightarrow> write_result) \<Rightarrow> bool \<Rightarrow> tasks \<Rightarrow> task_error option \<times> tasks" where
  "do_close now ocs unlinked s =
     (if leaseReleased s then (None, s)
      else
        let s1 = fold (\<lambda>i s. reject_input i INTERRUPTED (abort_signal i s)) (active s) (s\<lparr>closed := True\<rparr>)
        in case close_loop now ocs (active s) s1 of (failure, s2) \<Rightarrow>
          if \<not> unlinked then (Some UnlinkFailed, s2)
          else (failure, s2\<lparr>dir := AList.delete (lease s2) (dir s2), leaseReleased := True, active := []\<rparr>))"

section \<open>Calls and executions\<close>

definition push_op :: "task_op \<Rightarrow> tasks \<Rightarrow> tasks" where
  "push_op op s = s\<lparr>ops := ops s @ [op]\<rparr>"

definition task_start :: "tasks \<Rightarrow> task_error option \<times> tasks" where
  "task_start s = (if closingRequested s then (Some RuntimeClosed, s) else (None, push_op OpStart s))"

definition task_update :: "jstr \<Rightarrow> json \<Rightarrow> tasks \<Rightarrow> task_error option \<times> tasks" where
  "task_update i resp s =
     (if \<not> is_object resp then (Some ResponsesNotObject, s) else (None, push_op (OpUpdate i (members resp)) s))"

definition task_cancel :: "jstr \<Rightarrow> tasks \<Rightarrow> tasks" where
  "task_cancel i s = push_op (OpCancel i) s"

definition task_close :: "tasks \<Rightarrow> tasks" where
  "task_close s = push_op OpClose (s\<lparr>closingRequested := True\<rparr>)"

definition set_phase :: "jstr \<Rightarrow> run_phase \<Rightarrow> tasks \<Rightarrow> tasks" where
  "set_phase i ph s = s\<lparr>runs := AList.update i ph (runs s)\<rparr>"

text \<open>\<open>run\<close> up to the call of \<open>execute\<close>.\<close>

definition run_begin :: "jstr \<Rightarrow> tasks \<Rightarrow> tasks" where
  "run_begin i s =
     (if closingRequested s then s\<lparr>runs := AList.delete i (runs s)\<rparr>
      else if persistenceError s \<or> is_aborted i s then push_op (OpError i None) (set_phase i Settling s)
      else set_phase i Executing s)"

text \<open>The execution calls \<open>requestInput\<close>, or ends.\<close>

definition exec_request :: "schemas \<Rightarrow> jstr \<Rightarrow> json option \<Rightarrow> tasks \<Rightarrow> task_error option \<times> tasks" where
  "exec_request S i requests s = (case validateInputRequests S requests of
     Inl e \<Rightarrow> (Some e, s) | Inr validated \<Rightarrow> (None, push_op (OpInput i validated) s))"

definition exec_end :: "schemas \<Rightarrow> jstr \<Rightarrow> thrown + json \<Rightarrow> tasks \<Rightarrow> tasks" where
  "exec_end S i r s = (case r of
     Inl e \<Rightarrow> push_op (OpError i e) (set_phase i Settling s)
   | Inr v \<Rightarrow>
       (case result_schema S v of
          None \<Rightarrow> push_op (OpError i None) (set_phase i Settling s)
        | Some w \<Rightarrow> push_op (OpComplete i w) (set_phase i Settling s)))"

definition run_finally :: "jstr \<Rightarrow> tasks \<Rightarrow> tasks" where
  "run_finally i s =
     (reject_input i (js ''Task execution ended'') s)\<lparr>active := filter (\<lambda>j. j \<noteq> i) (active s), runs := AList.delete i (runs s)\<rparr>"

text \<open>An error of the store as the execution would throw it on.\<close>

definition thrown_of :: "task_error \<Rightarrow> thrown" where
  "thrown_of e = (case e of
     InvalidIdentifier \<Rightarrow> Some (-32602, js ''Invalid task identifier'', None)
   | UnknownTask \<Rightarrow> Some (-32602, js ''Unknown task identifier'', None)
   | _ \<Rightarrow> None)"

text \<open>The first callback of the queue runs.\<close>

record turn_env =
  now :: jstr
  uuid :: jstr
  written :: write_result
  closing_writes :: "jstr \<Rightarrow> write_result"
  unlinked :: bool

definition serial_op :: "schemas \<Rightarrow> turn_env \<Rightarrow> task_op \<Rightarrow> tasks \<Rightarrow> task_error option \<times> tasks" where
  "serial_op S E op s = (case op of
     OpStart \<Rightarrow> do_start (now E) (uuid E) (written E) s
   | OpComplete i v \<Rightarrow>
       (case do_complete (now E) i v (written E) s of
          (None, s1) \<Rightarrow> (None, set_phase i Ending s1)
        | (Some e, s1) \<Rightarrow> (Some e, push_op (OpError i (thrown_of e)) s1))
   | OpError i err \<Rightarrow>
       (case do_error (now E) i err (written E) s of (r, s1) \<Rightarrow>
          let s2 = (if r \<noteq> None then report (js ''task_persistence_failed'') i s1 else s1);
              s3 = (if is_aborted i s2 then s2 else report (js ''task_execution_failed'') i s2)
          in (None, set_phase i Ending s3))
   | OpInput i validated \<Rightarrow> do_input (now E) i validated (written E) s
   | OpUpdate i resp \<Rightarrow> do_update S (now E) i resp (written E) s
   | OpCancel i \<Rightarrow> do_cancel (now E) i (written E) s
   | OpClose \<Rightarrow> do_close (now E) (closing_writes E) (unlinked E) s)"

definition serial_turn :: "schemas \<Rightarrow> turn_env \<Rightarrow> tasks \<Rightarrow> task_error option \<times> tasks" where
  "serial_turn S E s = (case ops s of [] \<Rightarrow> (None, s) | op # rest \<Rightarrow> serial_op S E op (s\<lparr>ops := rest\<rparr>))"

end
