(* ===== verification/Task_Runtime.thy ===== *)
theory Task_Runtime
  imports Task_Store
begin

text \<open>
  What holds of the task store at every moment of every run: calls, executions, failing writes and the
  serial queue in any order.  The callback of a queue entry runs to its end in one step: while it waits for a
  write, only steps outside the queue can run, and they touch nothing it reads afterwards.
\<close>

section \<open>Runs\<close>

text \<open>What the code relies on: validating a validated value changes nothing.\<close>

definition schema_laws :: "schemas \<Rightarrow> bool" where
  "schema_laws S \<longleftrightarrow>
     (\<forall>m r r'. request_schema S m r = Some r' \<longrightarrow>
        is_object r' \<and> member_of r' (js ''method'') = Some (JStr m) \<and> request_schema S m r' = Some r') \<and>
     (\<forall>v w. result_schema S v = Some w \<longrightarrow> is_object w \<and>
        result_schema S (set_member (js ''resultType'') (JStr (js ''complete'')) w) =
          Some (set_member (js ''resultType'') (JStr (js ''complete'')) w))"

text \<open>
  The executions are the tool handlers of the server.  The \<open>ProtocolError\<close>s they throw carry the error
  codes of the protocol, small integers.  The class accepts any number, and \<open>run\<close> stores it as it is, but
  \<open>validateRecord\<close> refuses a file with a code that is no safe integer (\<open>unsafe_code_refused\<close> below), so a run
  in which a handler throws one is left out.
\<close>

definition safe_thrown :: "thrown \<Rightarrow> bool" where
  "safe_thrown e \<longleftrightarrow> (case e of None \<Rightarrow> True | Some (code, _) \<Rightarrow> is_safe_integer (Some (JInt code)))"

text \<open>
  A clock whose times can be parsed and identifiers that have not been used are what the runtime gives.
\<close>

inductive task_step :: "schemas \<Rightarrow> tasks \<Rightarrow> tasks \<Rightarrow> bool" for S where
  ts_start: "task_step S s (snd (task_start s))"
| ts_update: "task_step S s (snd (task_update i resp s))"
| ts_cancel: "task_step S s (task_cancel i s)"
| ts_close: "task_step S s (task_close s)"
| ts_begin: "map_of (runs s) i = Some Launching \<Longrightarrow> task_step S s (run_begin i s)"
| ts_request: "map_of (objects s) i \<noteq> None \<Longrightarrow> task_step S s (snd (exec_request S i reqs s))"
| ts_end: "map_of (runs s) i = Some Executing \<Longrightarrow> (case r of Inl e \<Rightarrow> safe_thrown e | _ \<Rightarrow> True) \<Longrightarrow>
    task_step S s (exec_end S i r s)"
| ts_finally: "map_of (runs s) i = Some Ending \<Longrightarrow> task_step S s (run_finally i s)"
| ts_turn: "is_task_id (uuid E) \<Longrightarrow> map_of (records s) (uuid E) = None \<Longrightarrow> finite_date S (now E) \<Longrightarrow>
    task_step S s (snd (serial_turn S E s))"

inductive task_reach :: "schemas \<Rightarrow> tasks \<Rightarrow> tasks \<Rightarrow> bool" for S s0 where
  tr_init: "task_reach S s0 s0"
| tr_step: "task_reach S s0 s \<Longrightarrow> task_step S s s' \<Longrightarrow> task_reach S s0 s'"

section \<open>Memory and disk\<close>

fun wf_status :: "schemas \<Rightarrow> task_status \<Rightarrow> bool" where
  "wf_status S (InputRequired reqs) \<longleftrightarrow> reqs \<noteq> [] \<and> (\<forall>(k, r)\<in>set reqs. validate_request S r = Some r)"
| "wf_status S (Completed v) \<longleftrightarrow>
     result_schema S v = Some v \<and> set_member (js ''resultType'') (JStr (js ''complete'')) v = v"
| "wf_status S (Failed code m d) \<longleftrightarrow> is_safe_integer (Some (JInt code))"
| "wf_status S _ \<longleftrightarrow> True"

definition wf_task :: "schemas \<Rightarrow> task \<Rightarrow> bool" where
  "wf_task S t \<longleftrightarrow> is_task_id (taskId t) \<and> finite_date S (createdAt t) \<and> finite_date S (lastUpdatedAt t) \<and>
     wf_status S (status t)"

definition task_name :: "jstr \<Rightarrow> bool" where
  "task_name name \<longleftrightarrow> (\<exists>p. name = task_file p)"

text \<open>A file that is read back as the task.\<close>

definition holds_task :: "schemas \<Rightarrow> dir_file \<Rightarrow> task \<Rightarrow> bool" where
  "holds_task S f t \<longleftrightarrow> f_private f \<and> f_size f \<le> MAX_RECORD_BYTES \<and>
     (\<exists>j. f_json f = Some j \<and> validateRecord S j = Inr t)"

definition on_disk :: "schemas \<Rightarrow> task \<Rightarrow> directory \<Rightarrow> bool" where
  "on_disk S t d \<longleftrightarrow> (\<exists>f. map_of d (task_file (taskId t)) = Some f \<and> holds_task S f t)"

lemma error_json_members [simp]:
  "member_of (error_json c m d) (js ''code'') = Some (JInt c)" "member_of (error_json c m d) (js ''message'') = Some (JStr m)"
  "member_of (error_json c m d) (js ''data'') = d" "is_object (error_json c m d)"
  by (simp_all add: error_json_def js_def split: option.split)

lemma task_json_members [simp]:
  "member_of (task_json t) (js ''taskId'') = Some (JStr (taskId t))"
  "member_of (task_json t) (js ''status'') = Some (JStr (status_name (status t)))"
  "member_of (task_json t) (js ''createdAt'') = Some (JStr (createdAt t))"
  "member_of (task_json t) (js ''lastUpdatedAt'') = Some (JStr (lastUpdatedAt t))"
  "member_of (task_json t) (js ''ttlMs'') = Some JNull"
  "member_of (task_json t) (js ''pollIntervalMs'') = Some (JInt 1000)"
  "is_object (task_json t)"
  by (simp_all add: task_json_def js_def)

lemma task_json_optional:
  "member_of (task_json t) (js ''statusMessage'') = map_option JStr (statusMessage t)"
  "status t = InputRequired reqs \<Longrightarrow> member_of (task_json t) (js ''inputRequests'') = Some (JObj reqs)"
  "status t = Completed v \<Longrightarrow> member_of (task_json t) (js ''result'') = Some v"
  "status t = Failed c m d \<Longrightarrow> member_of (task_json t) (js ''error'') = Some (error_json c m d)"
  by (cases "status t"; simp add: task_json_def js_def split: option.split)+

lemma validate_status_json:
  assumes "wf_status S (status t)"
  shows "validate_status S (task_json t) = Inr (status t)"
proof (cases "status t")
  case (InputRequired reqs)
  have "map (\<lambda>(k, r). (k, the (validate_request S r))) reqs = reqs"
    using assms InputRequired by (intro map_idI) fastforce
  then have "validateInputRequests S (Some (JObj reqs)) = Inr reqs"
    using assms InputRequired by (auto simp: validateInputRequests_def list_all_iff)
  then show ?thesis using task_json_optional(2) [OF InputRequired]
    by (simp add: validate_status_def InputRequired Let_def)
next
  case (Completed v)
  then show ?thesis using assms task_json_optional(3) [OF Completed]
    by (simp add: validate_status_def Let_def)
next
  case (Failed c m d)
  then show ?thesis using assms task_json_optional(4) [OF Failed]
    by (simp add: validate_status_def Let_def)
qed (simp_all add: validate_status_def Let_def)

lemma record_roundtrip:
  assumes "wf_task S t"
  shows "validateRecord S (record_json t) = Inr t"
proof -
  have m: "member_of (record_json t) (js ''task'') = Some (task_json t)" "member_of (record_json t) (js ''version'') = Some (JInt 1)"
      "is_object (record_json t)" by (simp_all add: record_json_def js_def)
  show ?thesis using assms validate_status_json [of S t] task_json_optional(1) [of t]
    by (cases "statusMessage t") (auto simp: validateRecord_def m task_id_def wf_task_def Let_def)
qed

lemma unsafe_code_refused:
  assumes "status t = Failed code m d" "\<not> is_safe_integer (Some (JInt code))"
  shows "\<exists>e. validateRecord S (record_json t) = Inl e"
proof -
  have m: "member_of (record_json t) (js ''task'') = Some (task_json t)" "member_of (record_json t) (js ''version'') = Some (JInt 1)"
      "is_object (record_json t)" by (simp_all add: record_json_def js_def)
  have "status_name (status t) = js ''failed''" by (simp add: assms(1))
  then have "validate_status S (task_json t) = Inl BadError"
    using assms task_json_optional(4) [OF assms(1)] by (simp add: validate_status_def Let_def)
  then show ?thesis by (auto simp: validateRecord_def m task_id_def Let_def)
qed

definition one_each :: "directory \<Rightarrow> bool" where
  "one_each d \<longleftrightarrow> distinct (map fst d)"

lemma one_each_update [simp]: "one_each d \<Longrightarrow> one_each (AList.update n f d)" "one_each d \<Longrightarrow> one_each (AList.delete n d)"
  by (simp_all add: one_each_def distinct_update distinct_delete)

definition memory_inv :: "schemas \<Rightarrow> tasks \<Rightarrow> bool" where
  "memory_inv S s \<longleftrightarrow> (\<forall>i t. map_of (records s) i = Some t \<longrightarrow>
     taskId t = i \<and> wf_task S t \<and> (terminal t \<or> \<not> persistenceError s \<longrightarrow> on_disk S t (dir s)))"

definition disk_inv :: "schemas \<Rightarrow> tasks \<Rightarrow> bool" where
  "disk_inv S s \<longleftrightarrow> \<not> task_name (lease s) \<and> one_each (dir s) \<and>
     (\<forall>i f. map_of (dir s) (task_file i) = Some f \<longrightarrow>
        (\<exists>t. taskId t = i \<and> wf_task S t \<and> holds_task S f t \<and>
           (\<not> persistenceError s \<longrightarrow> map_of (records s) i = Some t)))"

definition store_inv :: "schemas \<Rightarrow> tasks \<Rightarrow> bool" where
  "store_inv S s \<longleftrightarrow> memory_inv S s \<and> disk_inv S s"

text \<open>What no step undoes.\<close>

definition keeps :: "tasks \<Rightarrow> tasks \<Rightarrow> bool" where
  "keeps s s' \<longleftrightarrow> (\<forall>i t. map_of (records s) i = Some t \<and> terminal t \<longrightarrow> map_of (records s') i = Some t) \<and>
     (\<forall>i. map_of (records s) i \<noteq> None \<longrightarrow> map_of (records s') i \<noteq> None) \<and>
     (persistenceError s \<longrightarrow> persistenceError s') \<and> (closed s \<longrightarrow> closed s') \<and>
     maxConcurrent s' = maxConcurrent s \<and> lease s' = lease s \<and>
     (\<forall>name. \<not> task_name name \<and> name \<noteq> lease s \<longrightarrow> map_of (dir s') name = map_of (dir s) name) \<and>
     map_of (dir s') (lease s) \<in> {map_of (dir s) (lease s), None}"

lemma keeps_refl [simp]: "keeps s s"
  by (simp add: keeps_def)

lemma keeps_trans: "keeps s t \<Longrightarrow> keeps t u \<Longrightarrow> keeps s u"
  by (auto simp: keeps_def)

text \<open>Only four fields matter here.\<close>

definition same_store :: "tasks \<Rightarrow> tasks \<Rightarrow> bool" where
  "same_store s s' \<longleftrightarrow> records s' = records s \<and> dir s' = dir s \<and> persistenceError s' = persistenceError s \<and>
     closed s' = closed s \<and> maxConcurrent s' = maxConcurrent s \<and> lease s' = lease s"

lemma same_store_inv: "same_store s s' \<Longrightarrow> store_inv S s' = store_inv S s"
  by (simp add: same_store_def store_inv_def memory_inv_def disk_inv_def)

lemma same_store_keeps: "same_store s s' \<Longrightarrow> keeps s s'"
  by (simp add: same_store_def keeps_def)

lemma same_store_refl [simp]: "same_store s s"
  by (simp add: same_store_def)

lemma same_store_trans: "same_store s t \<Longrightarrow> same_store t u \<Longrightarrow> same_store s u"
  by (simp add: same_store_def)

lemma same_store_small [simp]:
  "same_store s (set_object i a s)" "same_store s (report m i s)" "same_store s (set_phase i ph s)"
  "same_store s (push_op op s)" "same_store s (resolve_input i p s)" "same_store s (abort_signal i s)"
  "same_store s (reject_input i m s)"
  by (auto simp: same_store_def set_object_def report_def set_phase_def push_op_def resolve_input_def abort_signal_def
      reject_input_def split: option.splits)

lemma task_file_inj [simp]: "task_file i = task_file j \<longleftrightarrow> i = j"
  by (simp add: task_file_def)

lemma task_name_file [simp]: "task_name (task_file i)"
  by (auto simp: task_name_def)

text \<open>A write changes the file and the record of one task that is not finished.\<close>

definition open_task :: "tasks \<Rightarrow> jstr \<Rightarrow> bool" where
  "open_task s i \<longleftrightarrow> (case map_of (records s) i of None \<Rightarrow> \<not> persistenceError s | Some t \<Rightarrow> \<not> terminal t)"

lemma put_cases:
  assumes "put oc t s = (r, s')"
  obtains (saved) n where "r = None" "oc = Saved n" "n \<le> MAX_RECORD_BYTES"
      "s' = s\<lparr>dir := AList.update (task_file (taskId t)) \<lparr>f_private = True, f_size = n, f_json = Some (record_json t)\<rparr> (dir s),
        records := AList.update (taskId t) t (records s), changes := changes s @ [t]\<rparr>"
  | (lost) "r = Some PersistenceFailed" "s' = s\<lparr>persistenceError := True\<rparr>"
  | (kept) n where "r = Some PersistenceFailed" "n \<le> MAX_RECORD_BYTES"
      "s' = s\<lparr>dir := AList.update (task_file (taskId t)) \<lparr>f_private = True, f_size = n, f_json = Some (record_json t)\<rparr> (dir s),
        persistenceError := True\<rparr>"
  using assms by (cases oc) (auto simp: put_def save_def not_less split: if_splits)

lemma task_name_other: "\<not> task_name name \<Longrightarrow> name \<noteq> task_file i"
  by auto

lemma put_store:
  assumes "store_inv S s" "wf_task S t" "open_task s (taskId t)" "put oc t s = (r, s')"
  shows "store_inv S s' \<and> keeps s s'"
proof -
  have lease: "lease s \<noteq> task_file i" for i using assms(1) by (auto simp: store_inv_def disk_inv_def)
  from assms(4) show ?thesis
  proof (cases rule: put_cases)
    case (saved n)
    have "memory_inv S s'" using assms(1-3) saved record_roundtrip [OF assms(2)]
      by (auto simp: store_inv_def memory_inv_def update_conv' on_disk_def holds_task_def)
    moreover have "disk_inv S s'" using assms(1-3) saved record_roundtrip [OF assms(2)]
      by (auto simp: store_inv_def disk_inv_def update_conv' holds_task_def)
    moreover have "keeps s s'" using assms(3) saved lease
      by (auto simp: keeps_def update_conv' open_task_def split: option.splits)
    ultimately show ?thesis by (simp add: store_inv_def)
  next
    case lost
    then show ?thesis using assms(1)
      by (auto simp: store_inv_def memory_inv_def disk_inv_def keeps_def) blast
  next
    case (kept n)
    have "memory_inv S s'" using assms(1,3) kept
      by (auto simp: store_inv_def memory_inv_def update_conv' on_disk_def holds_task_def open_task_def split: option.splits)
    moreover have "disk_inv S s'" using assms(1,2) kept record_roundtrip [OF assms(2)]
      by (auto simp: store_inv_def disk_inv_def update_conv' holds_task_def split: if_splits) blast
    moreover have "keeps s s'" using kept lease by (auto simp: keeps_def update_conv')
    ultimately show ?thesis by (simp add: store_inv_def)
  qed
qed

text \<open>
  What most callbacks do: nothing, a failed write, or a write for an unfinished task, and changes that
  leave the active tasks alone.
\<close>

definition same_live :: "tasks \<Rightarrow> tasks \<Rightarrow> bool" where
  "same_live s s' \<longleftrightarrow> same_store s s' \<and> active s' = active s \<and> runs s' = runs s \<and>
     (\<forall>i. map_of (objects s) i \<noteq> None \<longrightarrow> map_of (objects s') i \<noteq> None)"

lemma same_live_refl [simp]: "same_live s s"
  by (simp add: same_live_def)

lemma same_live_trans: "same_live s t \<Longrightarrow> same_live t u \<Longrightarrow> same_live s u"
  by (auto simp: same_live_def intro: same_store_trans)

lemma same_live_small [simp]:
  "same_live s (set_object i a s)" "same_live s (report m i s)" "same_live s (push_op op s)"
  "same_live s (resolve_input i p s)" "same_live s (abort_signal i s)" "same_live s (reject_input i m s)"
  by (auto simp: same_live_def same_store_def set_object_def report_def push_op_def resolve_input_def abort_signal_def
      reject_input_def update_conv' split: option.splits)

definition op_effect :: "schemas \<Rightarrow> tasks \<Rightarrow> tasks \<Rightarrow> bool" where
  "op_effect S s s' \<longleftrightarrow> same_live s s' \<or>
     (\<exists>oc t t0 r s1. put oc t s = (r, s1) \<and> wf_task S t \<and> map_of (records s) (taskId t) = Some t0 \<and> \<not> terminal t0 \<and>
        same_live s1 s')"

lemma op_effect_store: "store_inv S s \<Longrightarrow> op_effect S s s' \<Longrightarrow> store_inv S s' \<and> keeps s s'"
proof -
  assume s: "store_inv S s" and "op_effect S s s'"
  then consider "same_store s s'"
    | oc t r s1 where "put oc t s = (r, s1)" "wf_task S t" "open_task s (taskId t)" "same_store s1 s'"
    by (auto simp: op_effect_def same_live_def open_task_def)
  then show "store_inv S s' \<and> keeps s s'"
    using s put_store same_store_inv same_store_keeps keeps_trans by cases metis+
qed

lemma op_effect_same [simp]: "op_effect S s s" "same_live s s' \<Longrightarrow> op_effect S s s'"
  by (simp_all add: op_effect_def)

lemma op_effect_put:
  "put oc t s = (r, s1) \<Longrightarrow> wf_task S t \<Longrightarrow> map_of (records s) (taskId t) = Some old \<Longrightarrow> \<not> terminal old \<Longrightarrow>
    same_live s1 s' \<Longrightarrow> op_effect S s s'"
  unfolding op_effect_def by blast

lemma next_task_id [simp]: "taskId (next_task (summary t) n m st) = taskId t" "status (next_task sm n m st) = st"
  by (simp_all add: next_task_def summary_def)

lemma wf_next [simp]: "wf_task S t \<Longrightarrow> wf_task S (next_task (summary t) n m st) \<longleftrightarrow> finite_date S n \<and> wf_status S st"
  by (simp add: wf_task_def next_task_def summary_def)

lemma task_get_Inr:
  "task_get i s = Inr t \<longleftrightarrow> \<not> persistenceError s \<and> is_task_id i \<and> map_of (records s) i = Some t"
  by (auto simp: task_get_def split: option.splits)

lemma got_task:
  assumes "store_inv S s" "task_get i s = Inr t"
  shows "taskId t = i" "wf_task S t" "map_of (records s) i = Some t" "\<not> persistenceError s"
  using assms by (auto simp: task_get_Inr store_inv_def memory_inv_def)

text \<open>The callbacks a run can queue.\<close>

fun op_wf :: "schemas \<Rightarrow> tasks \<Rightarrow> task_op \<Rightarrow> bool" where
  "op_wf S s (OpComplete i v) \<longleftrightarrow> map_of (records s) i \<noteq> None \<and>
     wf_status S (Completed (set_member (js ''resultType'') (JStr (js ''complete'')) v))"
| "op_wf S s (OpError i e) \<longleftrightarrow> map_of (records s) i \<noteq> None \<and> safe_thrown e"
| "op_wf S s (OpInput i reqs) \<longleftrightarrow> wf_status S (InputRequired reqs)"
| "op_wf S s _ \<longleftrightarrow> True"

lemma op_wf_keeps: "op_wf S s op \<Longrightarrow> keeps s s' \<Longrightarrow> op_wf S s' op"
  by (cases "(S, s, op)" rule: op_wf.cases) (auto simp: keeps_def)

definition ops_inv :: "schemas \<Rightarrow> tasks \<Rightarrow> bool" where
  "ops_inv S s \<longleftrightarrow> (\<forall>op\<in>set (ops s). op_wf S s op)"

text \<open>A pending request: what is open and what is answered together are what was asked.\<close>

definition wf_pending :: "schemas \<Rightarrow> pending_input \<Rightarrow> bool" where
  "wf_pending S p \<longleftrightarrow> (\<forall>(k, r)\<in>set (outstanding p). validate_request S r = Some r) \<and>
     fst ` set (outstanding p) \<union> fst ` set (responses p) = set (asked p) \<and>
     fst ` set (outstanding p) \<inter> fst ` set (responses p) = {}"

definition wf_object :: "schemas \<Rightarrow> active_task \<Rightarrow> bool" where
  "wf_object S a \<longleftrightarrow> (case input a of None \<Rightarrow> True | Some p \<Rightarrow> wf_pending S p \<and> set (asked p) \<subseteq> set (usedInputKeys a))"

definition answered :: "task_event \<Rightarrow> bool" where
  "answered e \<longleftrightarrow> (case e of InputResolved i ks rs \<Rightarrow> fst ` set rs = set ks | _ \<Rightarrow> True)"

definition input_inv :: "schemas \<Rightarrow> tasks \<Rightarrow> bool" where
  "input_inv S s \<longleftrightarrow> (\<forall>i a. map_of (objects s) i = Some a \<longrightarrow> wf_object S a) \<and> list_all answered (events s)"

lemma do_start_store:
  assumes "store_inv S s" "finite_date S n" "is_task_id u" "map_of (records s) u = None"
  shows "store_inv S (snd (do_start n u oc s)) \<and> keeps s (snd (do_start n u oc s))"
proof -
  let ?t = "\<lparr>taskId = u, createdAt = n, lastUpdatedAt = n, statusMessage = None, status = Working\<rparr>"
  obtain r s1 where p: "put oc ?t s = (r, s1)" by fastforce
  have same: "same_store s1 ((set_object u a s1)\<lparr>active := x, runs := y\<rparr>)" for a x y
    by (simp add: same_store_def set_object_def)
  have "wf_task S ?t" using assms by (simp add: wf_task_def)
  then have "store_inv S s1 \<and> keeps s s1" if "\<not> persistenceError s"
    using assms that put_store [of S s ?t oc r s1] p by (simp add: open_task_def)
  then show ?thesis using p assms(1) same_store_inv [OF same] keeps_trans [OF _ same_store_keeps [OF same]]
    by (auto simp: do_start_def split: option.split)
qed

lemma do_complete_effect:
  assumes "store_inv S s" "finite_date S n" "op_wf S s (OpComplete i v)"
  shows "op_effect S s (snd (do_complete n i v oc s))"
proof (cases "task_get i s")
  case (Inr t)
  obtain r s1 where "put oc (next_task (summary t) n None (Completed (set_member (js ''resultType'') (JStr (js ''complete'')) v))) s = (r, s1)"
    by fastforce
  with op_effect_put [OF this, where old = t] got_task [OF assms(1) Inr] assms Inr show ?thesis
    by (auto simp: do_complete_def)
qed (simp add: do_complete_def)

lemma failure_status_wf: "safe_thrown e \<Longrightarrow> wf_status S (failure_status e)"
  by (auto simp: failure_status_def safe_thrown_def split: option.splits)

lemma do_error_effect:
  assumes "store_inv S s" "finite_date S n" "op_wf S s (OpError i e)"
  shows "op_effect S s (snd (do_error n i e oc s))"
proof (cases "task_get i s")
  case (Inr t)
  define u where "u = (if is_aborted i s then next_task (summary t) n (Some CANCELLED) Cancelled
      else next_task (summary t) n (Some (js ''Task execution failed; check the correlated call diagnostics.'')) (failure_status e))"
  obtain r s1 where "put oc u s = (r, s1)" by fastforce
  moreover have "taskId u = taskId t" "wf_task S u"
    using got_task [OF assms(1) Inr] assms failure_status_wf by (auto simp: u_def)
  ultimately show ?thesis using op_effect_put [of oc u s r s1 S t] got_task [OF assms(1) Inr] Inr
    by (auto simp: do_error_def u_def [symmetric])
qed (simp add: do_error_def)

lemma do_input_effect:
  assumes "store_inv S s" "finite_date S n" "op_wf S s (OpInput i reqs)"
  shows "op_effect S s (snd (do_input n i reqs oc s))"
proof (cases "task_get i s")
  case (Inr t)
  obtain r s1 where p: "put oc (next_task (summary t) n (s_statusMessage (summary t)) (InputRequired reqs)) s = (r, s1)"
    by fastforce
  show ?thesis using op_effect_put [OF p, where old = t] p got_task [OF assms(1) Inr] assms Inr
    by (auto simp: do_input_def split: option.splits)
qed (auto simp: do_input_def split: option.splits)

lemma answer_input_effect:
  assumes "store_inv S s" "finite_date S n" "task_get i s = Inr t" "status t = InputRequired reqs" "wf_pending S p"
  shows "op_effect S s (snd (answer_input n i t a p acc oc s))"
proof -
  define rest where "rest = filter (\<lambda>(k, _). k \<notin> fst ` set acc) (outstanding p)"
  define u where "u = next_task (summary t) n (s_statusMessage (summary t)) (if rest = [] then Working else InputRequired rest)"
  obtain r s1 where p: "put oc u s = (r, s1)" by fastforce
  have "wf_task S u" using got_task [OF assms(1,3)] assms(2,5) by (auto simp: u_def rest_def wf_pending_def)
  moreover have "map_of (records s) (taskId u) = Some t" using got_task [OF assms(1,3)] by (simp add: u_def)
  moreover have "\<not> terminal t" by (simp add: terminal_def assms(4))
  moreover have "same_live s1 (resolve_input i p (set_object i a s1))" for p a
    by (meson same_live_small same_live_trans)
  ultimately show ?thesis using op_effect_put [OF p, where old = t] p
    by (auto simp: answer_input_def Let_def u_def [symmetric] rest_def [symmetric] split: option.split)
qed

lemma do_update_effect:
  assumes "store_inv S s" "finite_date S n" "input_inv S s"
  shows "op_effect S s (snd (do_update S n i resp oc s))"
proof -
  have "wf_pending S p" if "map_of (objects s) i = Some a" "input a = Some p" for a p
    using assms(3) that by (fastforce simp: input_inv_def wf_object_def)
  then show ?thesis using answer_input_effect [OF assms(1,2)]
    by (auto simp: do_update_def split: sum.split option.split task_status.split)
qed

lemma do_cancel_effect:
  assumes "store_inv S s" "finite_date S n"
  shows "op_effect S s (snd (do_cancel n i oc s))"
proof (cases "task_get i s")
  case (Inr t)
  obtain r s1 where p: "put oc (t\<lparr>lastUpdatedAt := n, statusMessage := Some CANCELLATION_REQUESTED\<rparr>) s = (r, s1)"
    by fastforce
  have "same_live s1 (reject_input i CANCELLED (abort_signal i s1))" by (meson same_live_small same_live_trans)
  then show ?thesis using op_effect_put [OF p, where old = t] p got_task [OF assms(1) Inr] assms Inr
    by (auto simp: do_cancel_def wf_task_def split: option.splits)
qed (simp add: do_cancel_def)

section \<open>Closing\<close>

definition close_frame :: "tasks \<Rightarrow> tasks \<Rightarrow> bool" where
  "close_frame s s' \<longleftrightarrow> active s' = active s \<and> objects s' = objects s \<and> ops s' = ops s \<and> runs s' = runs s \<and>
     closed s' = closed s \<and> closingRequested s' = closingRequested s \<and> leaseReleased s' = leaseReleased s \<and>
     lease s' = lease s \<and> maxConcurrent s' = maxConcurrent s \<and> events s' = events s \<and>
     (\<forall>i. map_of (records s') i \<noteq> None \<longrightarrow> map_of (records s) i \<noteq> None)"

lemma put_frame: "put oc t s = (r, s') \<Longrightarrow> map_of (records s) (taskId t) \<noteq> None \<Longrightarrow> close_frame s s'"
  by (erule put_cases) (auto simp: close_frame_def update_conv' split: if_splits)

lemma close_frame_trans: "close_frame s t \<Longrightarrow> close_frame t u \<Longrightarrow> close_frame s u"
  by (auto simp: close_frame_def)

lemma interrupted_task [simp]:
  "taskId (interrupted n t) = taskId t" "terminal (interrupted n t)"
  "wf_task S t \<Longrightarrow> wf_task S (interrupted n t) \<longleftrightarrow> finite_date S n"
  by (simp_all add: interrupted_def terminal_def)

lemma close_loop_store:
  assumes "store_inv S s" "finite_date S n" "close_loop n ocs is s = (r, s')"
  shows "store_inv S s' \<and> keeps s s' \<and> close_frame s s' \<and>
    (\<forall>i\<in>set is. persistenceError s' \<or> (case map_of (records s) i of None \<Rightarrow> True | Some _ \<Rightarrow>
       (\<exists>t. map_of (records s') i = Some t \<and> terminal t))) \<and>
    (r = None \<longrightarrow> persistenceError s' = persistenceError s \<and>
      (\<forall>i\<in>set is. \<exists>t. map_of (records s') i = Some t \<and> terminal t))"
  using assms(1,3)
proof (induction "is" arbitrary: s r s')
  case Nil
  then show ?case by (simp add: close_frame_def)
next
  case (Cons i "is")
  show ?case
  proof (cases "map_of (records s) i")
    case None
    obtain r1 where "close_loop n ocs is s = (r1, s')" "r = Some UnknownTask"
      using Cons.prems None by (cases "close_loop n ocs is s") auto
    with Cons.IH [OF Cons.prems(1)] None show ?thesis by auto
  next
    case (Some t)
    show ?thesis
    proof (cases "terminal t")
      case True
      with Cons.prems Some have "close_loop n ocs is s = (r, s')" by simp
      with Cons.IH [OF Cons.prems(1) this] Some True show ?thesis by (auto simp: keeps_def)
    next
      case False
      obtain r1 s1 where p: "put (ocs i) (interrupted n t) s = (r1, s1)" by fastforce
      have t: "taskId t = i" "wf_task S t" using Cons.prems(1) Some by (auto simp: store_inv_def memory_inv_def)
      have s1: "store_inv S s1 \<and> keeps s s1"
        using put_store [OF Cons.prems(1) _ _ p] t assms(2) Some False by (simp add: open_task_def)
      have fr: "close_frame s s1" using put_frame [OF p] t Some by simp
      have step: "case r1 of None \<Rightarrow> map_of (records s1) i = Some (interrupted n t) \<and> persistenceError s1 = persistenceError s
          | Some _ \<Rightarrow> persistenceError s1"
        using p by (cases rule: put_cases) (auto simp: t update_conv')
      obtain r2 where loop: "close_loop n ocs is s1 = (r2, s')" and r: "r = (case r1 of None \<Rightarrow> r2 | Some e \<Rightarrow> Some e)"
        using Cons.prems(2) Some False p by (cases "close_loop n ocs is s1") (auto split: option.splits)
      note IH = Cons.IH [OF conjunct1 [OF s1] loop]
      have "keeps s1 s'" using IH by blast
      then have mono: "persistenceError s1 \<Longrightarrow> persistenceError s'"
          "\<And>t. map_of (records s1) i = Some t \<Longrightarrow> terminal t \<Longrightarrow> map_of (records s') i = Some t"
        by (auto simp: keeps_def)
      have i: "persistenceError s' \<or> (\<exists>t. map_of (records s') i = Some t \<and> terminal t)"
        using step mono by (cases r1) auto
      have "\<forall>j\<in>set is. persistenceError s' \<or> (case map_of (records s) j of None \<Rightarrow> True | Some _ \<Rightarrow>
       (\<exists>t. map_of (records s') j = Some t \<and> terminal t))"
      proof
        fix j assume "j \<in> set is"
        with IH have "persistenceError s' \<or> (case map_of (records s1) j of None \<Rightarrow> True | Some _ \<Rightarrow>
            (\<exists>t. map_of (records s') j = Some t \<and> terminal t))" by blast
        moreover have "map_of (records s) j \<noteq> None \<Longrightarrow> map_of (records s1) j \<noteq> None" using s1 by (simp add: keeps_def)
        ultimately show "persistenceError s' \<or> (case map_of (records s) j of None \<Rightarrow> True | Some _ \<Rightarrow>
            (\<exists>t. map_of (records s') j = Some t \<and> terminal t))" by (auto split: option.splits)
      qed
      moreover have "r = None \<Longrightarrow> persistenceError s' = persistenceError s \<and>
          (\<forall>j\<in>set (i # is). \<exists>t. map_of (records s') j = Some t \<and> terminal t)"
        using step IH r mono(2) [of "interrupted n t"] by (cases r1) auto
      moreover have "keeps s s'" using s1 IH by (blast intro: keeps_trans)
      moreover have "close_frame s s'" using fr IH by (blast intro: close_frame_trans)
      ultimately show ?thesis using IH i Some by simp blast
    qed
  qed
qed

lemma fold_same_live:
  assumes "\<And>i s. same_live s (f i s)"
  shows "same_live s (fold f is s)"
  using assms by (induction "is" arbitrary: s) (auto intro: same_live_trans)

lemma delete_lease: "store_inv S s \<Longrightarrow> store_inv S (s\<lparr>dir := AList.delete (lease s) (dir s)\<rparr>)"
proof -
  assume s: "store_inv S s"
  then have "lease s \<noteq> task_file i" for i by (metis store_inv_def disk_inv_def task_name_file)
  then have "map_of (AList.delete (lease s) (dir s)) (task_file i) = map_of (dir s) (task_file i)" for i
    by (simp add: delete_conv' not_sym)
  with s show ?thesis by (auto simp: store_inv_def disk_inv_def memory_inv_def on_disk_def)
qed

text \<open>Everything \<open>close\<close> does: the active tasks are finished, unless a write fails.\<close>

lemma do_close_cases:
  assumes "store_inv S s" "finite_date S n" "do_close n ocs u s = (r, s')" "\<not> leaseReleased s"
  obtains s1 s2 r2 where
    "same_live (s\<lparr>closed := True\<rparr>) s1" "close_loop n ocs (active s) s1 = (r2, s2)" "store_inv S s1"
    "s' = (if u then s2\<lparr>dir := AList.delete (lease s2) (dir s2), leaseReleased := True, active := []\<rparr> else s2)"
    "r = (if u then r2 else Some UnlinkFailed)"
    "s1 = fold (\<lambda>i s. reject_input i INTERRUPTED (abort_signal i s)) (active s) (s\<lparr>closed := True\<rparr>)"
proof -
  let ?s1 = "fold (\<lambda>i s. reject_input i INTERRUPTED (abort_signal i s)) (active s) (s\<lparr>closed := True\<rparr>)"
  obtain r2 s2 where loop: "close_loop n ocs (active s) ?s1 = (r2, s2)" by fastforce
  have live: "same_live (s\<lparr>closed := True\<rparr>) ?s1" by (rule fold_same_live) (meson same_live_small same_live_trans)
  have "store_inv S (s\<lparr>closed := True\<rparr>)"
    using assms(1) by (simp add: store_inv_def memory_inv_def disk_inv_def)
  moreover have "same_store (s\<lparr>closed := True\<rparr>) ?s1" using live by (simp only: same_live_def)
  ultimately have "store_inv S ?s1" using same_store_inv by blast
  with that [OF live loop] assms(3,4) loop show thesis by (auto simp: do_close_def Let_def split: if_splits)
qed

lemma do_close_store:
  assumes "store_inv S s" "finite_date S n"
  shows "store_inv S (snd (do_close n ocs u s)) \<and> keeps s (snd (do_close n ocs u s))"
proof (cases "leaseReleased s")
  case False
  obtain r s' where c: "do_close n ocs u s = (r, s')" by fastforce
  from assms c False show ?thesis
  proof (cases rule: do_close_cases)
    case (1 s1 s2 r2)
    have "keeps s (s\<lparr>closed := True\<rparr>)" by (simp add: keeps_def)
    then have "keeps s s1" using 1(1) by (auto intro: keeps_trans same_store_keeps simp: same_live_def)
    moreover have s2: "store_inv S s2" "keeps s1 s2" using close_loop_store [OF 1(3) assms(2) 1(2)] by auto
    moreover have "keeps s2 s'" using 1(4) by (auto simp: keeps_def delete_conv')
    moreover have "store_inv S s'" using 1(4) s2(1) delete_lease [OF s2(1)]
      by (simp add: store_inv_def memory_inv_def disk_inv_def)
    ultimately show ?thesis unfolding c by (auto intro: keeps_trans)
  qed
qed (simp add: do_close_def assms)

section \<open>Active tasks\<close>

text \<open>An unfinished task is active, as long as writes succeed; an execution has ended only if its task has.\<close>

definition finished :: "tasks \<Rightarrow> jstr \<Rightarrow> bool" where
  "finished s i \<longleftrightarrow> persistenceError s \<or> closed s \<or> (\<exists>t. map_of (records s) i = Some t \<and> terminal t)"

definition active_inv :: "tasks \<Rightarrow> bool" where
  "active_inv s \<longleftrightarrow> distinct (active s) \<and> length (active s) \<le> maxConcurrent s \<and>
     (\<forall>i\<in>set (active s). map_of (records s) i \<noteq> None \<and> map_of (objects s) i \<noteq> None) \<and>
     (\<forall>i t. map_of (records s) i = Some t \<and> \<not> terminal t \<and> \<not> persistenceError s \<longrightarrow> i \<in> set (active s) \<and> \<not> closed s) \<and>
     (\<forall>i ph. map_of (runs s) i = Some ph \<longrightarrow> map_of (records s) i \<noteq> None \<and> (ph = Ending \<longrightarrow> finished s i))"

lemma finished_keeps: "finished s i \<Longrightarrow> keeps s s' \<Longrightarrow> finished s' i"
  by (auto simp: finished_def keeps_def)

lemma active_same: "same_live s s' \<Longrightarrow> active_inv s \<Longrightarrow> active_inv s'"
  by (auto simp: active_inv_def same_live_def same_store_def finished_def)

lemma active_put:
  assumes "active_inv s" "put oc t s = (r, s')" "map_of (records s) (taskId t) = Some t0" "\<not> terminal t0"
  shows "active_inv s'"
  using assms(2)
proof (cases rule: put_cases)
  case (saved n)
  have "map_of (runs s) (taskId t) \<noteq> Some Ending" if "\<not> persistenceError s"
    using assms(1,3,4) that by (fastforce simp: active_inv_def finished_def)
  with assms(1,3,4) show ?thesis by (auto simp: saved(4) active_inv_def update_conv' finished_def)
qed (use assms(1) in \<open>auto simp: active_inv_def finished_def\<close>)

lemma op_effect_active: "active_inv s \<Longrightarrow> op_effect S s s' \<Longrightarrow> active_inv s'"
  unfolding op_effect_def using active_same active_put by metis

lemma do_start_active:
  assumes "active_inv s" "map_of (records s) u = None"
  shows "active_inv (snd (do_start n u oc s))"
proof -
  let ?t = "\<lparr>taskId = u, createdAt = n, lastUpdatedAt = n, statusMessage = None, status = Working\<rparr>"
  obtain r s1 where p: "put oc ?t s = (r, s1)" by fastforce
  have u: "u \<notin> set (active s)" using assms by (auto simp: active_inv_def)
  from p show ?thesis
  proof (cases rule: put_cases)
    case (saved k)
    show ?thesis
    proof (cases "closed s \<or> persistenceError s \<or> maxConcurrent s \<le> length (active s)")
      case False
      then show ?thesis using assms u p saved(1)
        by (auto simp: do_start_def saved(4) active_inv_def update_conv' finished_def set_object_def)
    qed (use assms in \<open>auto simp: do_start_def\<close>)
  qed (use assms p in \<open>auto simp: do_start_def active_inv_def finished_def\<close>)
qed

lemma phase_active:
  "active_inv s \<Longrightarrow> map_of (records s) i \<noteq> None \<Longrightarrow> (ph = Ending \<Longrightarrow> finished s i) \<Longrightarrow> active_inv (set_phase i ph s)"
  by (auto simp: active_inv_def set_phase_def update_conv' finished_def)

lemma do_complete_ends: "do_complete n i v oc s = (None, s') \<Longrightarrow> store_inv S s \<Longrightarrow> finished s' i"
proof -
  assume d: "do_complete n i v oc s = (None, s')" and s: "store_inv S s"
  show "finished s' i"
  proof (cases "closed s")
    case False
    then obtain t where t: "task_get i s = Inr t" using d by (cases "task_get i s") (auto simp: do_complete_def)
    let ?t = "next_task (summary t) n None (Completed (set_member (js ''resultType'') (JStr (js ''complete'')) v))"
    show ?thesis
    proof (cases "terminal t")
      case True
      then show ?thesis using d False t got_task [OF s t] by (auto simp: do_complete_def finished_def)
    next
      case ok: False
      then have "put oc ?t s = (None, s')" using d False t by (simp add: do_complete_def)
      then show ?thesis using got_task [OF s t]
        by (cases rule: put_cases) (auto simp: finished_def update_conv' terminal_def)
    qed
  qed (use d in \<open>auto simp: do_complete_def finished_def\<close>)
qed

lemma failure_terminal [simp]: "terminal_status (failure_status e)"
  by (auto simp: failure_status_def split: option.splits)

lemma do_error_ends: "do_error n i e oc s = (r, s') \<Longrightarrow> store_inv S s \<Longrightarrow> map_of (records s) i \<noteq> None \<Longrightarrow> finished s' i"
proof -
  assume d: "do_error n i e oc s = (r, s')" and s: "store_inv S s" and i: "map_of (records s) i \<noteq> None"
  then have id: "is_task_id i" by (auto simp: store_inv_def memory_inv_def wf_task_def)
  show "finished s' i"
  proof (cases "closed s \<or> persistenceError s")
    case True
    then show ?thesis using d by (auto simp: do_error_def finished_def task_get_def split: if_splits)
  next
    case False
    then obtain t where t: "task_get i s = Inr t" using i id by (auto simp: task_get_def)
    show ?thesis
    proof (cases "terminal t")
      case True
      then show ?thesis using d False t got_task [OF s t] by (auto simp: do_error_def finished_def)
    next
      case ok: False
      define u where "u = (if is_aborted i s then next_task (summary t) n (Some CANCELLED) Cancelled
          else next_task (summary t) n (Some (js ''Task execution failed; check the correlated call diagnostics.'')) (failure_status e))"
      have "put oc u s = (r, s')" "taskId u = i" "terminal u"
        using d False t ok got_task [OF s t] by (auto simp: do_error_def u_def terminal_def)
      then show ?thesis by (auto elim!: put_cases simp: finished_def update_conv')
    qed
  qed
qed

lemma do_close_active:
  assumes "active_inv s" "store_inv S s" "finite_date S n"
  shows "active_inv (snd (do_close n ocs u s))"
proof (cases "leaseReleased s")
  case False
  obtain r s' where c: "do_close n ocs u s = (r, s')" by fastforce
  from assms(2,3) c False show ?thesis
  proof (cases rule: do_close_cases)
    case (1 s1 s2 r2)
    note loop = close_loop_store [OF 1(3) assms(3) 1(2)]
    have s1: "active s1 = active s" "records s1 = records s" "runs s1 = runs s" "closed s1"
        "persistenceError s1 = persistenceError s" "maxConcurrent s1 = maxConcurrent s"
        "\<And>i. map_of (objects s) i \<noteq> None \<Longrightarrow> map_of (objects s1) i \<noteq> None"
      using 1(1) by (auto simp: same_live_def same_store_def)
    have fr: "active s2 = active s" "objects s2 = objects s1" "runs s2 = runs s" "closed s2" "maxConcurrent s2 = maxConcurrent s"
        "\<And>i. map_of (records s2) i \<noteq> None \<Longrightarrow> map_of (records s) i \<noteq> None"
      using loop s1 by (auto simp: close_frame_def)
    have k: "keeps s1 s2" using loop by blast
    have all: "terminal t" if rec: "map_of (records s2) i = Some t" and ok: "\<not> persistenceError s2" for i t
    proof (rule ccontr)
      assume "\<not> terminal t"
      obtain t0 where t0: "map_of (records s) i = Some t0" using fr(6) [of i] rec by (cases "map_of (records s) i") auto
      have "\<not> terminal t0" using k t0 rec \<open>\<not> terminal t\<close> s1(2) by (auto simp: keeps_def)
      moreover have "\<not> persistenceError s" using k ok s1(5) by (auto simp: keeps_def)
      ultimately have "i \<in> set (active s)" using assms(1) t0 by (auto simp: active_inv_def)
      moreover have "\<forall>i\<in>set (active s). persistenceError s2 \<or> (case map_of (records s1) i of None \<Rightarrow> True | Some _ \<Rightarrow>
          (\<exists>t. map_of (records s2) i = Some t \<and> terminal t))" using loop by blast
      ultimately have "terminal t" using rec ok t0 by (auto simp: s1(2))
      with \<open>\<not> terminal t\<close> show False by blast
    qed
    have dom: "map_of (records s) i \<noteq> None \<Longrightarrow> map_of (records s2) i \<noteq> None" for i using k s1(2) by (simp add: keeps_def)
    have "distinct (active s2) \<and> length (active s2) \<le> maxConcurrent s2" using assms(1) fr by (simp add: active_inv_def)
    moreover have "\<forall>i\<in>set (active s2). map_of (records s2) i \<noteq> None \<and> map_of (objects s2) i \<noteq> None"
      using assms(1) dom s1(7) unfolding fr active_inv_def by blast
    moreover have "\<forall>i ph. map_of (runs s2) i = Some ph \<longrightarrow> map_of (records s2) i \<noteq> None \<and> (ph = Ending \<longrightarrow> finished s2 i)"
      using assms(1) dom fr(4) unfolding fr active_inv_def finished_def by blast
    ultimately have "active_inv s2" unfolding active_inv_def using all by blast
    then have "active_inv s'" using 1(4) fr(4) all
      by (auto simp: active_inv_def finished_def)
    then show ?thesis by (simp add: c)
  qed
qed (simp add: do_close_def assms)

lemma leave_active:
  assumes "active_inv s" "finished s i"
  shows "active_inv (s\<lparr>active := filter (\<lambda>j. j \<noteq> i) (active s), runs := AList.delete i (runs s)\<rparr>)"
  using assms le_trans [OF length_filter_le]
  by (auto simp: active_inv_def finished_def delete_conv' split: if_splits)

lemma run_finally_active:
  assumes "active_inv s" "map_of (runs s) i = Some Ending"
  shows "active_inv (run_finally i s)"
proof -
  let ?s1 = "reject_input i (js ''Task execution ended'') s"
  have live: "same_live s ?s1" by simp
  then have "active_inv ?s1" using assms(1) active_same by blast
  moreover have "finished s i" using assms by (auto simp: active_inv_def)
  then have "finished ?s1 i" using finished_keeps same_store_keeps same_store_small(7) by blast
  ultimately show ?thesis using leave_active [of ?s1 i] live by (simp add: run_finally_def same_live_def)
qed

section \<open>Requests for input\<close>

text \<open>The record of a task shows the requests its execution waits for.\<close>

fun shows_input :: "(jstr \<times> active_task) list \<Rightarrow> jstr \<Rightarrow> task_status \<Rightarrow> bool" where
  "shows_input objs i Working \<longleftrightarrow> (\<exists>a. map_of objs i = Some a \<and> input a = None)"
| "shows_input objs i (InputRequired reqs) \<longleftrightarrow>
     (\<exists>a p. map_of objs i = Some a \<and> input a = Some p \<and> outstanding p = reqs)"
| "shows_input objs i _ \<longleftrightarrow> True"

definition pending_inv :: "tasks \<Rightarrow> bool" where
  "pending_inv s \<longleftrightarrow> (\<forall>i t. map_of (records s) i = Some t \<and> \<not> persistenceError s \<longrightarrow> shows_input (objects s) i (status t))"

lemma shows_terminal [simp]: "terminal_status st \<Longrightarrow> shows_input objs i st"
  by (cases st) auto

lemma put_objects: "put oc t s = (r, s') \<Longrightarrow> objects s' = objects s \<and> events s' = events s \<and> (r \<noteq> None \<longrightarrow> persistenceError s')"
  by (erule put_cases) auto

lemma put_input: "input_inv S s \<Longrightarrow> put oc t s = (r, s') \<Longrightarrow> input_inv S s'"
  using put_objects by (metis (mono_tags, lifting) input_inv_def)

lemma put_pending:
  assumes "pending_inv s" "put oc t s = (r, s')" "r = None \<Longrightarrow> shows_input (objects s) (taskId t) (status t)"
  shows "pending_inv s'"
  using assms(2)
proof (cases rule: put_cases)
  case (saved n)
  then show ?thesis using assms(1,3) by (auto simp: pending_inv_def update_conv')
qed (auto simp: pending_inv_def)

text \<open>A new object for one task.\<close>

lemma object_input: "input_inv S s \<Longrightarrow> wf_object S a \<Longrightarrow> input_inv S (set_object i a s)"
  by (auto simp: input_inv_def set_object_def update_conv')

lemma object_pending:
  assumes "pending_inv s" "\<And>t. map_of (records s) i = Some t \<Longrightarrow> \<not> persistenceError s \<Longrightarrow> shows_input (objects (set_object i a s)) i (status t)"
  shows "pending_inv (set_object i a s)"
  unfolding pending_inv_def
proof (intro allI impI)
  fix j t assume t: "map_of (records (set_object i a s)) j = Some t \<and> \<not> persistenceError (set_object i a s)"
  then have "shows_input (objects s) j (status t)" using assms(1) by (simp add: pending_inv_def set_object_def)
  then show "shows_input (objects (set_object i a s)) j (status t)"
    using assms(2) [of t] t
    by (cases "j = i"; cases "status t") (auto simp: set_object_def update_conv')
qed

lemma object_same:
  assumes "pending_inv s" "map_of (objects s) i = Some a0" "map_option outstanding (input a) = map_option outstanding (input a0)"
  shows "pending_inv (set_object i a s)"
proof (rule object_pending [OF assms(1)])
  fix t assume "map_of (records s) i = Some t" "\<not> persistenceError s"
  then have "shows_input (objects s) i (status t)" using assms(1) by (simp add: pending_inv_def)
  then show "shows_input (objects (set_object i a s)) i (status t)"
    using assms(2,3) by (cases "status t"; cases "input a") (auto simp: set_object_def update_conv')
qed

lemma event_input: "input_inv S s \<Longrightarrow> answered e \<Longrightarrow> input_inv S (s\<lparr>events := events s @ [e]\<rparr>)"
  "pending_inv s \<Longrightarrow> pending_inv (s\<lparr>events := events s @ [e]\<rparr>)"
  by (auto simp: input_inv_def pending_inv_def)

lemma abort_input:
  assumes "input_inv S s" shows "input_inv S (abort_signal i s)"
  using assms by (auto simp: abort_signal_def intro!: object_input split: option.split) (auto simp: input_inv_def wf_object_def split: option.splits)

lemma abort_pending: "pending_inv s \<Longrightarrow> pending_inv (abort_signal i s)"
  by (auto simp: abort_signal_def intro!: object_same split: option.split)

lemma reject_keeps_input:
  assumes "input_inv S s" shows "input_inv S (reject_input i m s)"
  using assms
  by (auto simp: reject_input_def answered_def intro!: object_input event_input split: option.split)
    (auto simp: input_inv_def wf_object_def wf_pending_def split: option.splits)

lemma reject_pending: "pending_inv s \<Longrightarrow> pending_inv (reject_input i m s)"
  by (auto simp: reject_input_def intro!: object_same event_input split: option.split)

lemma resolve_keeps_input:
  "input_inv S s \<Longrightarrow> wf_pending S p \<Longrightarrow> outstanding p = [] \<Longrightarrow> input_inv S (resolve_input i p s)"
  by (auto simp: resolve_input_def answered_def wf_pending_def intro!: event_input)

lemma resolve_pending: "pending_inv s \<Longrightarrow> pending_inv (resolve_input i p s)"
  by (auto simp: resolve_input_def intro!: event_input)

definition io_inv :: "schemas \<Rightarrow> tasks \<Rightarrow> bool" where
  "io_inv S s \<longleftrightarrow> input_inv S s \<and> pending_inv s"

lemma io_frame:
  assumes "io_inv S s" "objects s' = objects s" "events s' = events s" "records s' = records s" "persistenceError s' = persistenceError s"
  shows "io_inv S s'"
  using assms by (simp add: io_inv_def input_inv_def pending_inv_def)

text \<open>A write together with the new object of the task.\<close>

lemma put_object_io:
  assumes "io_inv S s" "put oc t s = (None, s1)" "wf_object S a" "shows_input [(taskId t, a)] (taskId t) (status t)"
  shows "io_inv S (set_object (taskId t) a s1)"
  using assms(2)
proof (cases rule: put_cases)
  case (saved k)
  let ?o = "AList.update (taskId t) a (objects s)"
  have other: "shows_input ?o i st" if "shows_input (objects s) i st" "i \<noteq> taskId t" for i st
    using that by (cases st) (auto simp: update_conv')
  have "shows_input ?o (taskId t) (status t)" using assms(4) by (cases "status t") (auto simp: update_conv')
  with other have "pending_inv (set_object (taskId t) a s1)"
    using assms(1) saved by (auto simp: io_inv_def pending_inv_def set_object_def update_conv')
  moreover have "input_inv S (set_object (taskId t) a s1)"
    using assms(1,3) put_input [OF _ assms(2)] by (simp add: io_inv_def object_input)
  ultimately show ?thesis by (simp add: io_inv_def)
qed auto

lemma put_failed_io: "io_inv S s \<Longrightarrow> put oc t s = (Some e, s1) \<Longrightarrow> io_inv S s1"
  using put_input [of S s oc t "Some e" s1] put_pending [of s oc t "Some e" s1] by (simp add: io_inv_def)

lemma do_start_io:
  assumes "io_inv S s"
  shows "io_inv S (snd (do_start n u oc s))"
proof -
  let ?t = "\<lparr>taskId = u, createdAt = n, lastUpdatedAt = n, statusMessage = None, status = Working\<rparr>"
  let ?a = "\<lparr>signalAborted = False, usedInputKeys = [], input = None\<rparr>"
  obtain r s1 where p: "put oc ?t s = (r, s1)" by fastforce
  show ?thesis
  proof (cases r)
    case None
    have "io_inv S (set_object u ?a s1)"
      using put_object_io [OF assms p [unfolded None], of ?a] by (simp add: wf_object_def)
    then have "io_inv S ((set_object u ?a s1)\<lparr>active := x, runs := y\<rparr>)" for x y
      by (rule io_frame) simp_all
    then show ?thesis using p assms None by (auto simp: do_start_def)
  next
    case (Some e)
    then show ?thesis using p assms put_failed_io [OF assms] by (auto simp: do_start_def)
  qed
qed

lemma do_complete_io: "io_inv S s \<Longrightarrow> io_inv S (snd (do_complete n i v oc s))"
proof (cases "task_get i s")
  case (Inr t)
  assume s: "io_inv S s"
  obtain r s1 where "put oc (next_task (summary t) n None (Completed (set_member (js ''resultType'') (JStr (js ''complete'')) v))) s = (r, s1)"
    by fastforce
  with put_input [OF _ this] put_pending [OF _ this] s Inr show ?thesis by (auto simp: do_complete_def io_inv_def)
qed (simp add: do_complete_def)

lemma do_error_io: "io_inv S s \<Longrightarrow> io_inv S (snd (do_error n i e oc s))"
proof (cases "task_get i s")
  case (Inr t)
  assume s: "io_inv S s"
  define u where "u = (if is_aborted i s then next_task (summary t) n (Some CANCELLED) Cancelled
      else next_task (summary t) n (Some (js ''Task execution failed; check the correlated call diagnostics.'')) (failure_status e))"
  obtain r s1 where p: "put oc u s = (r, s1)" by fastforce
  have "terminal_status (status u)" by (simp add: u_def)
  with put_input [OF _ p] put_pending [OF _ p] s Inr p show ?thesis
    by (auto simp: do_error_def io_inv_def u_def [symmetric])
qed (simp add: do_error_def)

lemma do_input_io:
  assumes "io_inv S s" "store_inv S s" "wf_status S (InputRequired reqs)"
  shows "io_inv S (snd (do_input n i reqs oc s))"
proof (cases "task_get i s")
  case (Inr t)
  define u where "u = next_task (summary t) n (s_statusMessage (summary t)) (InputRequired reqs)"
  have u: "taskId u = i" "status u = InputRequired reqs" using got_task [OF assms(2) Inr] by (simp_all add: u_def)
  obtain r s1 where p: "put oc u s = (r, s1)" by fastforce
  let ?p = "\<lparr>outstanding = reqs, responses = [], asked = map fst reqs, settled = False\<rparr>"
  have "io_inv S (set_object i (a\<lparr>input := Some ?p, usedInputKeys := usedInputKeys a @ map fst reqs\<rparr>) s1)" if "r = None" for a
    using put_object_io [OF assms(1) p [unfolded that]] assms(3) u by (simp add: wf_object_def wf_pending_def)
  then show ?thesis using put_failed_io [OF assms(1), of oc u] p assms(1) Inr
    by (auto simp: do_input_def u_def [symmetric] split: option.splits)
qed (use assms(1) in \<open>auto simp: do_input_def split: option.splits\<close>)

lemma accepted_known: "accepted_responses S out resp = Inr acc \<Longrightarrow> fst ` set acc \<subseteq> fst ` set out"
proof (induction S out resp arbitrary: acc rule: accepted_responses.induct)
  case (2 S out k r rs)
  show ?case
  proof (cases "map_of out k")
    case None
    with 2 show ?thesis by simp
  next
    case (Some q)
    then have "k \<in> fst ` set out" by (metis domI dom_map_of_conv_image_fst)
    moreover obtain v acc' where "acc = (k, v) # acc'" "accepted_responses S out rs = Inr acc'"
        "response_schema S (json_text (member_of q (js ''method''))) r = Some v"
      using 2(3) Some by (auto split: option.splits sum.splits)
    ultimately show ?thesis using 2(2) [OF Some] by simp
  qed
qed simp

lemma fold_update_keys: "fst ` set (fold (\<lambda>(k, v). AList.update k v) acc rs) = fst ` set acc \<union> fst ` set rs"
proof (induction acc arbitrary: rs)
  case (Cons kv acc)
  have "fst ` set (AList.update k v rs) = insert k (fst ` set rs)" for k v and rs :: "('a \<times> 'b) list"
    using dom_update [of k v rs] by (simp add: dom_map_of_conv_image_fst)
  then show ?case by (cases kv) (simp add: Cons)
qed simp

lemma update_pending:
  assumes "wf_pending S p" "accepted_responses S (outstanding p) resp = Inr acc"
  shows "wf_pending S (p\<lparr>responses := fold (\<lambda>(k, v). AList.update k v) acc (responses p),
     outstanding := filter (\<lambda>(k, _). k \<notin> fst ` set acc) (outstanding p)\<rparr>)"
proof -
  let ?out = "fst ` set (outstanding p)" and ?acc = "fst ` set acc" and ?rs = "fst ` set (responses p)"
  have rest: "fst ` set (filter (\<lambda>(k, _). k \<notin> ?acc) (outstanding p)) = ?out - ?acc" by force
  have "?out \<union> ?rs = set (asked p)" "?out \<inter> ?rs = {}" using assms(1) by (simp_all add: wf_pending_def)
  with accepted_known [OF assms(2)] have "(?out - ?acc) \<union> (?acc \<union> ?rs) = set (asked p)" "(?out - ?acc) \<inter> (?acc \<union> ?rs) = {}"
    by blast+
  note sets = this
  let ?p1 = "p\<lparr>responses := fold (\<lambda>(k, v). AList.update k v) acc (responses p),
     outstanding := filter (\<lambda>(k, _). k \<notin> ?acc) (outstanding p)\<rparr>"
  have sel: "outstanding ?p1 = filter (\<lambda>(k, _). k \<notin> ?acc) (outstanding p)"
      "responses ?p1 = fold (\<lambda>(k, v). AList.update k v) acc (responses p)" "asked ?p1 = asked p" by simp_all
  have "\<forall>(k, r)\<in>set (outstanding ?p1). validate_request S r = Some r" using assms(1) by (auto simp: wf_pending_def)
  then show ?thesis using sets unfolding wf_pending_def sel rest fold_update_keys by blast
qed

lemma answer_input_io:
  assumes "io_inv S s" "store_inv S s" "task_get i s = Inr t" "map_of (objects s) i = Some a" "input a = Some p"
    "accepted_responses S (outstanding p) resp = Inr acc"
  shows "io_inv S (snd (answer_input n i t a p acc oc s))"
proof -
  define rest where "rest = filter (\<lambda>(k, _). k \<notin> fst ` set acc) (outstanding p)"
  define p1 where "p1 = p\<lparr>responses := fold (\<lambda>(k, v). AList.update k v) acc (responses p), outstanding := rest\<rparr>"
  define u where "u = next_task (summary t) n (s_statusMessage (summary t)) (if rest = [] then Working else InputRequired rest)"
  have u: "taskId u = i" "status u = (if rest = [] then Working else InputRequired rest)"
    using got_task [OF assms(2,3)] by (simp_all add: u_def)
  have a: "wf_object S a" using assms(1,4) by (auto simp: io_inv_def input_inv_def)
  then have p1: "wf_pending S p1" "set (asked p1) \<subseteq> set (usedInputKeys a)" "outstanding p1 = rest"
    using update_pending [of S p resp acc] assms(5,6) by (auto simp: wf_object_def p1_def rest_def)
  obtain r s1 where p: "put oc u s = (r, s1)" by fastforce
  have "io_inv S (set_object i (a\<lparr>input := None\<rparr>) s1)" if "r = None" "rest = []"
    using put_object_io [OF assms(1) p [unfolded that(1)], of "a\<lparr>input := None\<rparr>"] u that(2) by (simp add: wf_object_def)
  then have "io_inv S (resolve_input i p1 (set_object i (a\<lparr>input := None\<rparr>) s1))" if "r = None" "rest = []"
    using that p1 resolve_keeps_input resolve_pending by (simp add: io_inv_def)
  moreover have "io_inv S (set_object i (a\<lparr>input := Some p1\<rparr>) s1)" if "r = None" "rest \<noteq> []"
    using put_object_io [OF assms(1) p [unfolded that(1)], of "a\<lparr>input := Some p1\<rparr>"] u that(2) p1 by (simp add: wf_object_def)
  ultimately show ?thesis using put_failed_io [OF assms(1), of oc u] p
    by (auto simp: answer_input_def Let_def u_def [symmetric] rest_def [symmetric] p1_def [symmetric] split: option.split)
qed

lemma do_update_io:
  assumes "io_inv S s" "store_inv S s"
  shows "io_inv S (snd (do_update S n i resp oc s))"
  using assms answer_input_io [OF assms]
  by (auto simp: do_update_def split: sum.split option.split task_status.split)

lemma do_cancel_io:
  assumes "io_inv S s" "store_inv S s" "active_inv s"
  shows "io_inv S (snd (do_cancel n i oc s))"
proof (cases "task_get i s")
  case (Inr t)
  define u where "u = t\<lparr>lastUpdatedAt := n, statusMessage := Some CANCELLATION_REQUESTED\<rparr>"
  have "shows_input (objects s) (taskId u) (status u)"
    using assms(1) got_task [OF assms(2) Inr] by (auto simp: io_inv_def pending_inv_def u_def)
  moreover obtain r s1 where p: "put oc u s = (r, s1)" by fastforce
  ultimately have "io_inv S s1" using assms(1) put_input [OF _ p] put_pending [OF _ p] by (simp add: io_inv_def)
  then show ?thesis using p assms(1) Inr abort_input abort_pending reject_keeps_input reject_pending
    by (auto simp: do_cancel_def u_def [symmetric] io_inv_def split: option.split)
qed (use assms(1) in \<open>simp add: do_cancel_def\<close>)

lemma fold_input: "input_inv S s \<Longrightarrow> input_inv S (fold (\<lambda>i s. reject_input i m (abort_signal i s)) is s)"
  by (induction "is" arbitrary: s) (simp_all add: abort_input reject_keeps_input)

lemma do_close_io:
  assumes "io_inv S s" "store_inv S s" "active_inv s" "finite_date S n"
  shows "io_inv S (snd (do_close n ocs u s))"
proof (cases "leaseReleased s")
  case False
  obtain r s' where c: "do_close n ocs u s = (r, s')" by fastforce
  have act: "active_inv s'" using do_close_active [OF assms(3,2,4), of ocs u] c by simp
  from assms(2,4) c False show ?thesis
  proof (cases rule: do_close_cases)
    case (1 s1 s2 r2)
    have "input_inv S (s\<lparr>closed := True\<rparr>)" using assms(1) by (simp add: io_inv_def input_inv_def)
    then have "input_inv S s1" unfolding 1(6) by (rule fold_input)
    moreover have "objects s2 = objects s1" "events s2 = events s1" "closed s2 = closed s1" "closed s1"
      using close_loop_store [OF 1(3) assms(4) 1(2)] 1(1) by (auto simp: close_frame_def same_live_def same_store_def)
    ultimately have "input_inv S s'" "closed s'" using 1(4) by (auto simp: input_inv_def)
    moreover have "terminal t" if "map_of (records s') i = Some t" "\<not> persistenceError s'" for i t
      using act that \<open>closed s'\<close> by (auto simp: active_inv_def)
    then have "pending_inv s'" by (auto simp: pending_inv_def terminal_def)
    ultimately show ?thesis by (simp add: c io_inv_def)
  qed
qed (use assms(1) in \<open>simp add: do_close_def\<close>)

section \<open>Every step keeps the invariant\<close>

definition task_inv :: "schemas \<Rightarrow> tasks \<Rightarrow> bool" where
  "task_inv S s \<longleftrightarrow> store_inv S s \<and> ops_inv S s \<and> io_inv S s \<and> active_inv s"

lemma put_ops: "put oc t s = (r, s') \<Longrightarrow> ops s' = ops s"
  by (erule put_cases) auto

lemma small_ops [simp]:
  "ops (set_object i a s) = ops s" "ops (report m i s) = ops s" "ops (set_phase i ph s) = ops s"
  "ops (resolve_input i p s) = ops s" "ops (abort_signal i s) = ops s" "ops (reject_input i m s) = ops s"
  by (auto simp: set_object_def report_def set_phase_def resolve_input_def abort_signal_def reject_input_def split: option.splits)

lemma put_snd_ops [simp]: "ops (snd (put oc t s)) = ops s"
  by (cases "put oc t s") (simp add: put_ops)

lemma put_case_ops:
  "(\<And>s1. ops s1 = ops s \<Longrightarrow> ops (snd (f s1)) = ops s) \<Longrightarrow>
    ops (snd (case put oc t s of (Some e, s1) \<Rightarrow> (Some e, s1) | (None, s1) \<Rightarrow> f s1)) = ops s"
  by (cases "put oc t s"; cases "fst (put oc t s)") (auto dest: put_ops)

lemma do_ops:
  "ops (snd (do_complete n i v oc s)) = ops s" "ops (snd (do_error n i e oc s)) = ops s"
  "ops (snd (do_start n u oc s)) = ops s" "ops (snd (do_cancel n i oc s)) = ops s"
  "ops (snd (do_input n i reqs oc s)) = ops s" "ops (snd (answer_input n i t a p acc oc s)) = ops s"
  by (auto simp: do_start_def do_complete_def do_error_def do_input_def answer_input_def do_cancel_def Let_def
      intro!: put_case_ops split: option.split sum.split)

lemma do_update_ops: "ops (snd (do_update S n i resp oc s)) = ops s"
  by (auto simp: do_update_def do_ops split: option.split sum.split task_status.split)

lemma do_close_ops:
  assumes "store_inv S s" "finite_date S n"
  shows "ops (snd (do_close n ocs u s)) = ops s"
proof (cases "leaseReleased s")
  case False
  obtain r s' where c: "do_close n ocs u s = (r, s')" by fastforce
  from assms c False show ?thesis
  proof (cases rule: do_close_cases)
    case (1 s1 s2 r2)
    have "ops (fold (\<lambda>i s. reject_input i m (abort_signal i s)) is t) = ops t" for m "is" t
      by (induction "is" arbitrary: t) simp_all
    then have "ops s1 = ops s" unfolding 1(6) by simp
    then show ?thesis using close_loop_store [OF 1(3) assms(2) 1(2)] 1(4) c by (auto simp: close_frame_def)
  qed
qed (simp add: do_close_def)

lemma ops_keeps: "ops_inv S s \<Longrightarrow> keeps s s' \<Longrightarrow> ops s' = ops s \<Longrightarrow> ops_inv S s'"
  by (auto simp: ops_inv_def intro: op_wf_keeps)

text \<open>The small changes around a callback.\<close>

lemma push_inv:
  assumes "task_inv S s" "op_wf S s op" shows "task_inv S (push_op op s)"
proof -
  have live: "same_live s (push_op op s)" by simp
  have "store_inv S (push_op op s)" using assms(1) same_store_inv [OF same_store_small(4)] by (simp add: task_inv_def)
  moreover have "\<forall>x\<in>set (ops s) \<union> {op}. op_wf S (push_op op s) x"
    using assms op_wf_keeps [OF _ same_store_keeps [OF same_store_small(4)]] by (auto simp: task_inv_def ops_inv_def)
  then have "ops_inv S (push_op op s)" by (auto simp: ops_inv_def push_op_def)
  moreover have "io_inv S (push_op op s)"
    by (rule io_frame [of S s]) (use assms(1) in \<open>simp_all add: task_inv_def push_op_def\<close>)
  ultimately show ?thesis using assms(1) active_same [OF live] by (simp add: task_inv_def)
qed

lemma phase_inv:
  assumes "task_inv S s" "map_of (records s) i \<noteq> None" "ph = Ending \<Longrightarrow> finished s i"
  shows "task_inv S (set_phase i ph s)"
proof -
  have k: "keeps s (set_phase i ph s)" by (rule same_store_keeps) simp
  have "store_inv S (set_phase i ph s)" using assms(1) same_store_inv [OF same_store_small(3)] by (simp add: task_inv_def)
  moreover have "ops_inv S (set_phase i ph s)" using assms(1) ops_keeps [OF _ k] by (simp add: task_inv_def)
  moreover have "io_inv S (set_phase i ph s)"
    by (rule io_frame [of S s]) (use assms(1) in \<open>simp_all add: task_inv_def set_phase_def\<close>)
  moreover have "active_inv (set_phase i ph s)" using assms by (intro phase_active) (simp_all add: task_inv_def)
  ultimately show ?thesis by (simp add: task_inv_def)
qed

lemma report_inv: assumes "task_inv S s" shows "task_inv S (report m i s)"
proof -
  have live: "same_live s (report m i s)" by simp
  have k: "keeps s (report m i s)" by (rule same_store_keeps) simp
  have "store_inv S (report m i s)" using assms same_store_inv [OF same_store_small(2)] by (simp add: task_inv_def)
  moreover have "ops_inv S (report m i s)" using assms ops_keeps [OF _ k] by (simp add: task_inv_def)
  moreover have "io_inv S (report m i s)" using assms unfolding report_def io_inv_def
    by (intro conjI event_input) (simp_all add: task_inv_def io_inv_def answered_def)
  ultimately show ?thesis using assms active_same [OF live] by (simp add: task_inv_def)
qed

lemma effect_inv:
  assumes "task_inv S s" "op_effect S s s'" "ops s' = ops s" "io_inv S s'"
  shows "task_inv S s' \<and> keeps s s'"
  using assms op_effect_store [of S s s'] op_effect_active [of s S s'] ops_keeps [of S s s']
  by (auto simp: task_inv_def)

lemma thrown_of_safe: "safe_thrown (thrown_of e)"
  by (cases e) (simp_all add: safe_thrown_def thrown_of_def)

lemma serial_op_inv:
  assumes s: "task_inv S s" and op: "op_wf S s op" and E: "is_task_id (uuid E)" "map_of (records s) (uuid E) = None" "finite_date S (now E)"
  shows "task_inv S (snd (serial_op S E op s)) \<and> keeps s (snd (serial_op S E op s))"
proof -
  have inv: "store_inv S s" "io_inv S s" "active_inv s" "input_inv S s" "ops_inv S s" using s by (simp_all add: task_inv_def io_inv_def)
  show ?thesis
  proof (cases op)
    case OpStart
    let ?s = "snd (do_start (now E) (uuid E) (written E) s)"
    have st: "store_inv S ?s \<and> keeps s ?s" using do_start_store [OF inv(1) E(3,1,2)] .
    then have "ops_inv S ?s" using ops_keeps [OF inv(5), of ?s] by (simp add: do_ops)
    with st show ?thesis using do_start_active [OF inv(3) E(2)] do_start_io [OF inv(2)]
      by (simp add: OpStart serial_op_def task_inv_def)
  next
    case (OpComplete i v)
    obtain r s1 where d: "do_complete (now E) i v (written E) s = (r, s1)" by fastforce
    have s1: "task_inv S s1 \<and> keeps s s1"
      using effect_inv [OF s, of s1] do_complete_effect [OF inv(1) E(3), of i v "written E"] op OpComplete
        do_ops(1) [of "now E" i v "written E" s] do_complete_io [OF inv(2), of "now E" i v "written E"] d by simp
    then have i: "map_of (records s1) i \<noteq> None" using op OpComplete by (simp add: keeps_def)
    show ?thesis
    proof (cases r)
      case None
      then have "finished s1 i" using do_complete_ends [of "now E" i v "written E" s s1 S] d inv(1) by simp
      then have "task_inv S (set_phase i Ending s1)" using phase_inv s1 i by blast
      moreover have "keeps s (set_phase i Ending s1)" using s1 keeps_trans same_store_keeps same_store_small(3) by blast
      ultimately show ?thesis using None d by (simp add: OpComplete serial_op_def)
    next
      case (Some e)
      have "task_inv S (push_op (OpError i (thrown_of e)) s1)" using push_inv s1 i thrown_of_safe by simp
      moreover have "keeps s (push_op (OpError i (thrown_of e)) s1)" using s1 keeps_trans same_store_keeps same_store_small(4) by blast
      ultimately show ?thesis using Some d by (simp add: OpComplete serial_op_def)
    qed
  next
    case (OpError i e)
    obtain r s1 where d: "do_error (now E) i e (written E) s = (r, s1)" by fastforce
    have s1: "task_inv S s1 \<and> keeps s s1"
      using effect_inv [OF s, of s1] do_error_effect [OF inv(1) E(3), of i e "written E"] op OpError
        do_ops(2) [of "now E" i e "written E" s] do_error_io [OF inv(2), of "now E" i e "written E"] d by simp
    have i: "map_of (records s) i \<noteq> None" using op OpError by simp
    have f: "finished s1 i" using do_error_ends [OF d inv(1) i] .
    define s2 where "s2 = (if r \<noteq> None then report (js ''task_persistence_failed'') i s1 else s1)"
    define s3 where "s3 = (if is_aborted i s2 then s2 else report (js ''task_execution_failed'') i s2)"
    have k: "keeps t (report m i t)" for m t by (rule same_store_keeps) simp
    have s3: "task_inv S s3" "keeps s1 s3" using s1 report_inv k keeps_trans [OF k k] by (auto simp: s2_def s3_def)
    then have "keeps s s3" using s1 keeps_trans by blast
    moreover from this have "map_of (records s3) i \<noteq> None" using i by (simp add: keeps_def)
    moreover have "finished s3 i" using f finished_keeps s3(2) by blast
    ultimately have "task_inv S (set_phase i Ending s3)" "keeps s (set_phase i Ending s3)"
      using phase_inv s3 keeps_trans same_store_keeps same_store_small(3) by blast+
    moreover have "serial_op S E op s = (None, set_phase i Ending s3)"
      by (simp only: OpError serial_op_def task_op.case d prod.case Let_def s3_def s2_def)
    ultimately show ?thesis by simp
  next
    case (OpInput i reqs)
    then show ?thesis
      using effect_inv [OF s do_input_effect [OF inv(1) E(3)] do_ops(5) do_input_io [OF inv(2,1)]] op
      by (simp add: serial_op_def)
  next
    case (OpUpdate i resp)
    then show ?thesis
      using effect_inv [OF s do_update_effect [OF inv(1) E(3) inv(4)] do_update_ops do_update_io [OF inv(2,1)]]
      by (simp add: serial_op_def)
  next
    case (OpCancel i)
    then show ?thesis
      using effect_inv [OF s do_cancel_effect [OF inv(1) E(3)] do_ops(4) do_cancel_io [OF inv(2,1,3)]]
      by (simp add: serial_op_def)
  next
    case OpClose
    let ?s = "snd (do_close (now E) (closing_writes E) (unlinked E) s)"
    have st: "store_inv S ?s \<and> keeps s ?s" using do_close_store [OF inv(1) E(3)] .
    then have "ops_inv S ?s" using ops_keeps [OF inv(5), of ?s] do_close_ops [OF inv(1) E(3)] by simp
    with st show ?thesis using do_close_active [OF inv(3,1) E(3)] do_close_io [OF inv(2,1,3) E(3)]
      by (simp add: OpClose serial_op_def task_inv_def)
  qed
qed

lemma ops_wf_rest:
  assumes "task_inv S s" "ops s = op # rest"
  shows "task_inv S (s\<lparr>ops := rest\<rparr>)" "op_wf S (s\<lparr>ops := rest\<rparr>) op" "keeps s (s\<lparr>ops := rest\<rparr>)"
proof -
  have same: "same_live s (s\<lparr>ops := rest\<rparr>)" by (simp add: same_live_def same_store_def)
  then have st: "same_store s (s\<lparr>ops := rest\<rparr>)" by (simp add: same_live_def)
  show k: "keeps s (s\<lparr>ops := rest\<rparr>)" using same_store_keeps [OF st] .
  have wf: "op_wf S (s\<lparr>ops := rest\<rparr>) x" if "x \<in> set (ops s)" for x
    using assms(1) that op_wf_keeps [OF _ k] by (auto simp: task_inv_def ops_inv_def)
  then show "op_wf S (s\<lparr>ops := rest\<rparr>) op" using assms(2) by simp
  have "store_inv S (s\<lparr>ops := rest\<rparr>)" using assms(1) same_store_inv [OF st] by (simp add: task_inv_def)
  moreover have "ops_inv S (s\<lparr>ops := rest\<rparr>)" using wf assms(2) by (simp add: ops_inv_def)
  moreover have "io_inv S (s\<lparr>ops := rest\<rparr>)"
    by (rule io_frame [of S s]) (use assms(1) in \<open>simp_all add: task_inv_def\<close>)
  ultimately show "task_inv S (s\<lparr>ops := rest\<rparr>)" using assms(1) active_same [OF same] by (simp add: task_inv_def)
qed

lemma validated_again:
  assumes "schema_laws S" "validate_request S r = Some r'"
  shows "validate_request S r' = Some r'"
proof -
  obtain m where m: "member_of r (js ''method'') = Some (JStr m)" "m \<in> set request_methods" "request_schema S m r = Some r'"
    using assms(2) by (auto simp: validate_request_def Let_def is_string_iff split: if_splits)
  then have "is_object r'" "member_of r' (js ''method'') = Some (JStr m)" "request_schema S m r' = Some r'"
    using assms(1) by (auto simp: schema_laws_def)
  with m(2) show ?thesis by (simp add: validate_request_def)
qed

lemma validated_requests:
  assumes "schema_laws S" "validateInputRequests S v = Inr reqs"
  shows "wf_status S (InputRequired reqs)"
proof -
  obtain ms where ms: "ms \<noteq> []" "list_all (\<lambda>(k, r). validate_request S r \<noteq> None) ms"
      "reqs = map (\<lambda>(k, r). (k, the (validate_request S r))) ms"
    using assms(2) by (auto simp: validateInputRequests_def split: option.splits json.splits if_splits)
  then show ?thesis using validated_again [OF assms(1)] by (fastforce simp: list_all_iff)
qed

lemma update_twice: "AList.update k v (AList.update k v ms) = AList.update k v ms"
  by (induction ms) auto

lemma completed_wf:
  assumes "schema_laws S" "result_schema S v = Some w"
  shows "wf_status S (Completed (set_member (js ''resultType'') (JStr (js ''complete'')) w))"
proof -
  have "is_object w" "result_schema S (set_member (js ''resultType'') (JStr (js ''complete'')) w) =
      Some (set_member (js ''resultType'') (JStr (js ''complete'')) w)"
    using assms unfolding schema_laws_def by blast+
  then show ?thesis by (auto simp: is_object_iff update_twice)
qed

lemma run_begin_inv:
  assumes "task_inv S s" "map_of (runs s) i = Some Launching"
  shows "task_inv S (run_begin i s) \<and> keeps s (run_begin i s)"
proof -
  have i: "map_of (records s) i \<noteq> None" using assms by (auto simp: task_inv_def active_inv_def)
  let ?d = "s\<lparr>runs := AList.delete i (runs s)\<rparr>"
  have k: "keeps s ?d" "same_store s ?d" by (simp_all add: keeps_def same_store_def)
  have "active_inv ?d" using assms(1) by (auto simp: task_inv_def active_inv_def finished_def delete_conv')
  moreover have "io_inv S ?d" by (rule io_frame [of S s]) (use assms(1) in \<open>simp_all add: task_inv_def\<close>)
  ultimately have "task_inv S ?d" using assms(1) same_store_inv [OF k(2)] ops_keeps [OF _ k(1)] by (simp add: task_inv_def)
  moreover have "task_inv S (push_op (OpError i None) (set_phase i Settling s))"
    by (rule push_inv [OF phase_inv [OF assms(1) i]]) (use i in \<open>simp_all add: set_phase_def safe_thrown_def\<close>)
  moreover have "task_inv S (set_phase i Executing s)" using phase_inv assms(1) i by blast
  moreover have "keeps s (set_phase i ph s)" "keeps s (push_op op (set_phase i ph s))" for ph op
    by (meson keeps_trans same_store_keeps same_store_small)+
  ultimately show ?thesis using k by (simp add: run_begin_def)
qed

lemma exec_end_inv:
  assumes "task_inv S s" "map_of (runs s) i = Some Executing" "case r of Inl e \<Rightarrow> safe_thrown e | _ \<Rightarrow> True" "schema_laws S"
  shows "task_inv S (exec_end S i r s) \<and> keeps s (exec_end S i r s)"
proof -
  have i: "map_of (records s) i \<noteq> None" using assms by (auto simp: task_inv_def active_inv_def)
  have p: "task_inv S (set_phase i Settling s)" using phase_inv assms(1) i by blast
  have k: "keeps s (push_op op (set_phase i ph s))" for ph op by (meson keeps_trans same_store_keeps same_store_small)
  have rec: "records (set_phase i Settling s) = records s" by (simp add: set_phase_def)
  have "\<exists>op. exec_end S i r s = push_op op (set_phase i Settling s) \<and> op_wf S (set_phase i Settling s) op"
  proof (cases r)
    case (Inl e)
    then show ?thesis using assms(3) i by (intro exI [of _ "OpError i e"]) (simp add: exec_end_def rec)
  next
    case (Inr v)
    show ?thesis
    proof (cases "result_schema S v")
      case None
      then show ?thesis using i by (intro exI [of _ "OpError i None"]) (simp add: exec_end_def Inr rec safe_thrown_def)
    next
      case (Some w)
      then show ?thesis using i completed_wf [OF assms(4) Some]
        by (intro exI [of _ "OpComplete i w"]) (simp add: exec_end_def Inr rec)
    qed
  qed
  then obtain op where op: "exec_end S i r s = push_op op (set_phase i Settling s)" "op_wf S (set_phase i Settling s) op"
    by blast
  with push_inv [OF p op(2)] k show ?thesis by simp
qed

lemma run_finally_inv:
  assumes "task_inv S s" "map_of (runs s) i = Some Ending"
  shows "task_inv S (run_finally i s) \<and> keeps s (run_finally i s)"
proof -
  let ?r = "reject_input i (js ''Task execution ended'') s"
  have st: "same_store s ?r" by simp
  have same: "same_store ?r (run_finally i s)" by (simp add: run_finally_def same_store_def)
  then have all: "same_store s (run_finally i s)" using st same_store_trans by blast
  have "io_inv S ?r" using assms(1) reject_keeps_input reject_pending by (simp add: task_inv_def io_inv_def)
  then have "io_inv S (run_finally i s)" by (rule io_frame) (simp_all add: run_finally_def)
  moreover have "active_inv (run_finally i s)" using run_finally_active assms by (simp add: task_inv_def)
  moreover have "ops_inv S (run_finally i s)"
    using assms(1) ops_keeps [OF _ same_store_keeps [OF all]] by (simp add: task_inv_def run_finally_def)
  ultimately show ?thesis using assms(1) same_store_inv [OF all] same_store_keeps [OF all] by (simp add: task_inv_def)
qed

theorem task_step_inv:
  assumes "task_step S s s'" "task_inv S s" "schema_laws S"
  shows "task_inv S s' \<and> keeps s s'"
  using assms(1)
proof cases
  case ts_start
  then show ?thesis using push_inv [OF assms(2)] same_store_keeps by (auto simp: task_start_def assms(2))
next
  case (ts_update i resp)
  then show ?thesis using push_inv [OF assms(2)] same_store_keeps by (auto simp: task_update_def assms(2))
next
  case (ts_cancel i)
  then show ?thesis using push_inv [OF assms(2)] same_store_keeps by (auto simp: task_cancel_def)
next
  case ts_close
  let ?c = "s\<lparr>closingRequested := True\<rparr>"
  have live: "same_live s ?c" by (simp add: same_live_def same_store_def)
  then have k: "keeps s ?c" "store_inv S ?c = store_inv S s" using same_store_keeps same_store_inv by (auto simp: same_live_def)
  have "io_inv S ?c" by (rule io_frame [of S s]) (use assms(2) in \<open>simp_all add: task_inv_def\<close>)
  then have "task_inv S ?c" using assms(2) k active_same [OF live] ops_keeps [OF _ k(1)] by (simp add: task_inv_def)
  then show ?thesis using ts_close push_inv [of S ?c OpClose] k(1) keeps_trans same_store_keeps same_store_small(4)
    by (simp add: task_close_def)
next
  case (ts_begin i)
  then show ?thesis using run_begin_inv assms(2) by blast
next
  case (ts_request i reqs)
  then show ?thesis using push_inv [OF assms(2)] same_store_keeps validated_requests [OF assms(3)]
    by (auto simp: exec_request_def assms(2) split: sum.split)
next
  case (ts_end i r)
  then show ?thesis using exec_end_inv assms(2,3) by blast
next
  case (ts_finally i)
  then show ?thesis using run_finally_inv assms(2) by blast
next
  case (ts_turn E)
  show ?thesis
  proof (cases "ops s")
    case (Cons op rest)
    note s1 = ops_wf_rest [OF assms(2) Cons]
    have "task_inv S s' \<and> keeps (s\<lparr>ops := rest\<rparr>) s'"
      using serial_op_inv [OF s1(1,2), of E] ts_turn by (simp add: serial_turn_def Cons)
    with s1(3) show ?thesis using keeps_trans by blast
  qed (use ts_turn assms(2) in \<open>simp add: serial_turn_def\<close>)
qed

end
