(* ===== verification/Task_Recovery.thy ===== *)
theory Task_Recovery
  imports Task_Runtime
begin

text \<open>
  Opening the directory of the task store, packages/mcp/src/tasks.ts \<open>PersistentTasks.open\<close>, and what a restart
  finds after a crash at any moment.
\<close>

section \<open>Opening a directory\<close>

datatype kill_result = Alive | NoSuchProcess | KillError

text \<open>The process: its host name, its number and what \<open>process.kill(pid, 0)\<close> answers.\<close>

record host =
  hostname :: jstr
  pid :: int
  kill :: "int \<Rightarrow> kill_result"

record open_options =
  absolute :: bool                      \<comment> \<open>\<open>path.isAbsolute(directory)\<close>\<close>
  dirPrivate :: bool                    \<comment> \<open>a directory, no link, mode 0700\<close>
  scopeId :: jstr
  o_maxConcurrent :: "int option"
  leaseId :: jstr                       \<comment> \<open>\<open>randomUUID()\<close>\<close>
  startTime :: jstr
  writes :: "jstr \<Rightarrow> write_result"           \<comment> \<open>of each file\<close>

definition readPrivateJson :: "dir_file \<Rightarrow> task_error + json" where
  "readPrivateJson f =
     (if \<not> f_private f then Inl NotPrivate
      else if f_size f > MAX_RECORD_BYTES then Inl TooLarge
      else case f_json f of None \<Rightarrow> Inl BadJson | Some j \<Rightarrow> Inr j)"

definition ends_with :: "jstr \<Rightarrow> jstr \<Rightarrow> bool" where
  "ends_with suffix s \<longleftrightarrow> length suffix \<le> length s \<and> drop (length s - length suffix) s = suffix"

text \<open>\<open>/^\.lease-[a-f0-9-]+\.json$/\<close>.\<close>

definition is_lease :: "jstr \<Rightarrow> bool" where
  "is_lease name \<longleftrightarrow> take 7 name = js ''.lease-'' \<and> ends_with (js ''.json'') name \<and> 12 < length name \<and>
     list_all (\<lambda>c. hex_digit c \<or> c = 45) (take (length name - 12) (drop 7 name))"

definition lease_name :: "jstr \<Rightarrow> jstr" where
  "lease_name u = js ''.lease-'' @ u @ js ''.json''"

definition check_lease :: "host \<Rightarrow> dir_file \<Rightarrow> task_error option" where
  "check_lease H f = (case readPrivateJson f of
     Inl e \<Rightarrow> Some e
   | Inr owner \<Rightarrow>
       let p = member_of owner (js ''pid'') in
       if \<not> is_object owner \<or> \<not> is_safe_integer p \<or> int_of p \<le> 0 \<or>
          member_of owner (js ''host'') \<noteq> Some (JStr (hostname H)) then Some BadLock
       else case kill H (int_of p) of Alive \<Rightarrow> Some Locked | KillError \<Rightarrow> Some KillFailed | NoSuchProcess \<Rightarrow> None)"

text \<open>The loop over the leases; a file that is gone by then is skipped.\<close>

fun lease_loop :: "host \<Rightarrow> jstr list \<Rightarrow> tasks \<Rightarrow> task_error option \<times> tasks" where
  "lease_loop H [] s = (None, s)"
| "lease_loop H (name # names) s =
     (if \<not> is_lease name \<or> name = lease s then lease_loop H names s
      else case map_of (dir s) name of
        None \<Rightarrow> lease_loop H names s
      | Some f \<Rightarrow>
          (case check_lease H f of
             Some e \<Rightarrow> (Some e, s)
           | None \<Rightarrow> lease_loop H names (report (js ''recovered_stale_lock'') [] (s\<lparr>dir := AList.delete name (dir s)\<rparr>))))"

definition open_scope :: "open_options \<Rightarrow> tasks \<Rightarrow> task_error option \<times> tasks" where
  "open_scope Op s = (case map_of (dir s) (js ''scope.json'') of
     Some f \<Rightarrow>
       (case readPrivateJson f of
          Inl e \<Rightarrow> (Some e, s)
        | Inr scope \<Rightarrow>
            if \<not> is_object scope \<or> member_of scope (js ''version'') \<noteq> Some (JInt 1) \<or>
               member_of scope (js ''scopeId'') \<noteq> Some (JStr (scopeId Op)) then (Some WrongScope, s)
            else (None, s))
   | None \<Rightarrow>
       if list_ex (\<lambda>(name, _). ends_with (js ''.task.json'') name) (dir s) then (Some ScopeMissing, s)
       else case save (writes Op (js ''scope.json'')) (js ''scope.json'')
           (JObj [(js ''version'', JInt 1), (js ''scopeId'', JStr (scopeId Op))]) (dir s) of
         (r, d) \<Rightarrow> (r, s\<lparr>dir := d\<rparr>))"

text \<open>One task file: the record, and the file and record of an interrupted task.\<close>

definition load_task :: "schemas \<Rightarrow> open_options \<Rightarrow> jstr \<Rightarrow> tasks \<Rightarrow> task_error option \<times> tasks" where
  "load_task S Op name s =
     (case (task_id (Some (JStr (take (length name - 10) name))), map_of (dir s) name) of
        (Inl e, _) \<Rightarrow> (Some e, s)
      | (Inr i, None) \<Rightarrow> (Some NotFound, s)
      | (Inr i, Some f) \<Rightarrow>
          (case readPrivateJson f of
             Inl e \<Rightarrow> (Some e, s)
           | Inr j \<Rightarrow>
               (case validateRecord S j of
                  Inl e \<Rightarrow> (Some e, s)
                | Inr t \<Rightarrow>
                    if taskId t \<noteq> i then (Some IdentifierMismatch, s)
                    else if terminal t then (None, s\<lparr>records := AList.update i t (records s)\<rparr>)
                    else let t1 = interrupted (startTime Op) t in
                      (case save (writes Op name) name (record_json t1) (dir s) of
                         (Some e, d) \<Rightarrow> (Some e, s\<lparr>dir := d\<rparr>)
                       | (None, d) \<Rightarrow>
                           (None, (report (js ''interrupted_task_not_replayed'') i s)
                              \<lparr>dir := d, records := AList.update i t1 (records s)\<rparr>)))))"

fun load_tasks :: "schemas \<Rightarrow> open_options \<Rightarrow> jstr list \<Rightarrow> tasks \<Rightarrow> task_error option \<times> tasks" where
  "load_tasks S Op [] s = (None, s)"
| "load_tasks S Op (name # names) s =
     (if \<not> ends_with (js ''.task.json'') name then load_tasks S Op names s
      else case load_task S Op name s of
        (Some e, s1) \<Rightarrow> (Some e, s1)
      | (None, s1) \<Rightarrow> load_tasks S Op names s1)"

definition new_tasks :: "open_options \<Rightarrow> directory \<Rightarrow> tasks" where
  "new_tasks Op d = \<lparr>records = [], active = [], objects = [], ops = [], runs = [], closed = False, closingRequested = False,
     leaseReleased = False, persistenceError = False, dir = d, lease = lease_name (leaseId Op),
     maxConcurrent = (case o_maxConcurrent Op of None \<Rightarrow> 4 | Some n \<Rightarrow> nat n), changes = [], events = []\<rparr>"

text \<open>The body of the \<open>try\<close> block.\<close>

definition open_body :: "schemas \<Rightarrow> host \<Rightarrow> open_options \<Rightarrow> tasks \<Rightarrow> task_error option \<times> tasks" where
  "open_body S H Op s =
     (case save (writes Op (lease s)) (lease s)
         (JObj [(js ''pid'', JInt (pid H)), (js ''host'', JStr (hostname H))]) (dir s) of
        (Some e, d) \<Rightarrow> (Some e, s\<lparr>dir := d\<rparr>)
      | (None, d) \<Rightarrow>
          (case lease_loop H (map fst d) (s\<lparr>dir := d\<rparr>) of
             (Some e, s1) \<Rightarrow> (Some e, s1)
           | (None, s1) \<Rightarrow>
               let entries = map fst (dir s1) in
               (case open_scope Op s1 of
                  (Some e, s2) \<Rightarrow> (Some e, s2)
                | (None, s2) \<Rightarrow> load_tasks S Op entries s2)))"

definition scope_ok :: "jstr \<Rightarrow> bool" where
  "scope_ok s \<longleftrightarrow> length s = 64 \<and> list_all hex_digit s"

definition open_store :: "schemas \<Rightarrow> host \<Rightarrow> open_options \<Rightarrow> directory \<Rightarrow> task_error option \<times> tasks" where
  "open_store S H Op d =
     (let s = new_tasks Op d in
      if \<not> absolute Op \<or> \<not> scope_ok (scopeId Op) then (Some BadScopeId, s)
      else if (case o_maxConcurrent Op of None \<Rightarrow> False | Some n \<Rightarrow> \<not> is_safe_integer (Some (JInt n)) \<or> n < 1)
      then (Some BadConcurrency, s)
      else if \<not> dirPrivate Op then (Some BadDirectory, s)
      else case open_body S H Op s of
        (None, s1) \<Rightarrow> (None, s1)
      | (Some e, s1) \<Rightarrow> (Some e, s1\<lparr>dir := AList.delete (lease s1) (dir s1)\<rparr>))"

section \<open>The state after opening\<close>

lemma ends_with_task: "ends_with (js ''.task.json'') name \<longleftrightarrow> task_name name"
proof
  have len: "length (js ''.task.json'') = 10" by (simp add: js_def)
  assume "ends_with (js ''.task.json'') name"
  then have "name = take (length name - 10) name @ js ''.task.json''"
    using append_take_drop_id [of "length name - 10" name] by (simp add: ends_with_def len)
  then show "task_name name" unfolding task_name_def task_file_def by blast
qed (auto simp: task_name_def task_file_def ends_with_def)

lemma file_id [simp]: "take (length (task_file i) - 10) (task_file i) = i"
  by (simp add: task_file_def js_def)

lemma lease_no_task:
  assumes "is_task_id u"
  shows "\<not> task_name (lease_name u)"
proof
  obtain v c where u: "u = v @ [c]" using assms by (cases u rule: rev_cases) (auto simp: is_task_id_def)
  then have v: "length v = 35" using assms by (simp add: is_task_id_def)
  have "id_char 35 (u ! 35)" using assms by (simp add: is_task_id_def list_all_iff)
  with v have "hex_digit c" by (simp add: u nth_append id_char_def)
  moreover assume "task_name (lease_name u)"
  then obtain p where "js ''.lease-'' @ v @ [c] @ js ''.json'' = p @ js ''.tas'' @ [107] @ js ''.json''"
    by (auto simp: task_name_def lease_name_def task_file_def u js_def)
  then have "(js ''.lease-'' @ v) @ [c] = (p @ js ''.tas'') @ [107]" by simp
  then have "c = 107" unfolding append1_eq_conv by simp
  ultimately show False by (simp add: hex_digit_def)
qed

text \<open>What validation returns is well-formed.\<close>

lemma validate_status_wf:
  assumes "schema_laws S" "validate_status S t = Inr st"
  shows "wf_status S st"
  using assms(2) validated_requests [OF assms(1)] completed_wf [OF assms(1)]
  by (auto simp: validate_status_def Let_def is_string_iff bind_eq_Some_conv is_safe_integer_iff split: if_splits sum.splits option.splits)

lemma validateRecord_wf:
  assumes "schema_laws S" "validateRecord S j = Inr t"
  shows "wf_task S t"
  using assms(2) validate_status_wf [OF assms(1)]
  by (auto simp: validateRecord_def Let_def task_id_def wf_task_def split: if_splits sum.splits option.splits)

text \<open>The record a task file is opened as.\<close>

definition reopened :: "open_options \<Rightarrow> task \<Rightarrow> task" where
  "reopened Op t = (if terminal t then t else interrupted (startTime Op) t)"

lemma reopened_simps [simp]: "taskId (reopened Op t) = taskId t" "terminal (reopened Op t)"
  by (simp_all add: reopened_def)

definition same_rest :: "tasks \<Rightarrow> tasks \<Rightarrow> bool" where
  "same_rest s s' \<longleftrightarrow> active s' = active s \<and> objects s' = objects s \<and> ops s' = ops s \<and> runs s' = runs s \<and> closed s' = closed s \<and>
     persistenceError s' = persistenceError s \<and> lease s' = lease s \<and> maxConcurrent s' = maxConcurrent s \<and>
     (list_all answered (events s) \<longrightarrow> list_all answered (events s'))"

lemma same_rest_refl [simp]: "same_rest s s"
  by (simp add: same_rest_def)

lemma same_rest_trans: "same_rest s t \<Longrightarrow> same_rest t u \<Longrightarrow> same_rest s u"
  by (simp add: same_rest_def)

text \<open>Only the task \<open>i\<close> may differ.\<close>

definition only_task :: "jstr \<Rightarrow> tasks \<Rightarrow> tasks \<Rightarrow> bool" where
  "only_task i s s' \<longleftrightarrow> (\<forall>j. j \<noteq> i \<longrightarrow> map_of (records s') j = map_of (records s) j) \<and>
     (\<forall>name. name \<noteq> task_file i \<longrightarrow> map_of (dir s') name = map_of (dir s) name) \<and> same_rest s s' \<and>
     (one_each (dir s) \<longrightarrow> one_each (dir s'))"

lemma load_task_ok:
  assumes "schema_laws S" "finite_date S (startTime Op)" "load_task S Op (task_file i) s = (None, s')"
  obtains f t where "map_of (dir s) (task_file i) = Some f" "holds_task S f t" "taskId t = i" "wf_task S t"
    "map_of (records s') i = Some (reopened Op t)" "on_disk S (reopened Op t) (dir s')" "only_task i s s'"
proof -
  obtain f j t where f: "map_of (dir s) (task_file i) = Some f" "readPrivateJson f = Inr j" "validateRecord S j = Inr t" "taskId t = i"
    using assms(3) by (auto simp: load_task_def task_id_def split: sum.splits option.splits if_splits)
  have wf: "wf_task S t" using validateRecord_wf [OF assms(1) f(3)] .
  have id: "task_id (Some (JStr i)) = Inr i" using wf f(4) by (simp add: task_id_def wf_task_def)
  have h: "holds_task S f t" using f(2,3) by (auto simp: readPrivateJson_def holds_task_def split: if_splits option.splits)
  show thesis
  proof (cases "terminal t")
    case True
    then have "s' = s\<lparr>records := AList.update i t (records s)\<rparr>"
      using assms(3) f id by (simp add: load_task_def)
    with True f h that [OF f(1) h f(4) wf] show thesis
      by (auto simp: reopened_def update_conv' on_disk_def only_task_def same_rest_def)
  next
    case False
    let ?t = "interrupted (startTime Op) t"
    obtain d where sv: "save (writes Op (task_file i)) (task_file i) (record_json ?t) (dir s) = (None, d)"
      and s': "s' = (report (js ''interrupted_task_not_replayed'') i s)\<lparr>dir := d, records := AList.update i ?t (records s)\<rparr>"
      using assms(3) f id False by (auto simp: load_task_def Let_def split: prod.splits option.splits)
    have "validateRecord S (record_json ?t) = Inr ?t" using record_roundtrip wf assms(2) by simp
    with False f h that [OF f(1) h f(4) wf] sv show thesis
      by (auto simp: s' reopened_def update_conv' on_disk_def holds_task_def only_task_def same_rest_def report_def save_def answered_def
          split: write_result.splits if_splits)
  qed
qed

lemma only_task_same: "only_task i s s' \<Longrightarrow> same_rest s s'"
  by (simp add: only_task_def)

lemma load_tasks_ok:
  assumes "schema_laws S" "finite_date S (startTime Op)" "load_tasks S Op names s = (None, s')" "distinct names"
  shows "same_rest s s' \<and> (one_each (dir s) \<longrightarrow> one_each (dir s')) \<and>
    (\<forall>i. task_file i \<in> set names \<longrightarrow> (\<exists>f t. map_of (dir s) (task_file i) = Some f \<and> holds_task S f t \<and> taskId t = i \<and> wf_task S t \<and>
       map_of (records s') i = Some (reopened Op t) \<and> on_disk S (reopened Op t) (dir s'))) \<and>
    (\<forall>i. task_file i \<notin> set names \<longrightarrow> map_of (records s') i = map_of (records s) i) \<and>
    (\<forall>name. name \<notin> set names \<or> \<not> task_name name \<longrightarrow> map_of (dir s') name = map_of (dir s) name)"
  using assms(3,4)
proof (induction names arbitrary: s)
  case (Cons name names)
  show ?case
  proof (cases "task_name name")
    case False
    then have "load_tasks S Op names s = (None, s')" using Cons.prems by (simp add: ends_with_task)
    with Cons.IH [OF this] Cons.prems(2) False show ?thesis by auto
  next
    case True
    then obtain i where i: "name = task_file i" by (auto simp: task_name_def)
    obtain s1 where s1: "load_task S Op (task_file i) s = (None, s1)" "load_tasks S Op names s1 = (None, s')"
      using Cons.prems(1) True by (auto simp: ends_with_task i split: prod.splits option.splits)
    obtain f t where t: "map_of (dir s) (task_file i) = Some f" "holds_task S f t" "taskId t = i" "wf_task S t"
        "map_of (records s1) i = Some (reopened Op t)" "on_disk S (reopened Op t) (dir s1)" "only_task i s s1"
      using load_task_ok [OF assms(1,2) s1(1)] by blast
    have nin: "task_file i \<notin> set names" using Cons.prems(2) i by simp
    note IH = Cons.IH [OF s1(2)]
    have IH': "same_rest s1 s'" "\<And>j. task_file j \<in> set names \<Longrightarrow> \<exists>f t. map_of (dir s1) (task_file j) = Some f \<and> holds_task S f t \<and>
        taskId t = j \<and> wf_task S t \<and> map_of (records s') j = Some (reopened Op t) \<and> on_disk S (reopened Op t) (dir s')"
      "\<And>j. task_file j \<notin> set names \<Longrightarrow> map_of (records s') j = map_of (records s1) j"
      "\<And>name. name \<notin> set names \<or> \<not> task_name name \<Longrightarrow> map_of (dir s') name = map_of (dir s1) name"
      "one_each (dir s1) \<longrightarrow> one_each (dir s')"
      using IH Cons.prems(2) by auto
    have other: "\<And>j. j \<noteq> i \<Longrightarrow> map_of (records s1) j = map_of (records s) j"
      "\<And>n. n \<noteq> task_file i \<Longrightarrow> map_of (dir s1) n = map_of (dir s) n" using t(7) by (auto simp: only_task_def)
    have "same_rest s s'" using same_rest_trans [OF only_task_same [OF t(7)] IH'(1)] .
    moreover have "one_each (dir s) \<longrightarrow> one_each (dir s')" using t(7) IH'(5) by (simp add: only_task_def)
    moreover have "\<exists>f t. map_of (dir s) (task_file j) = Some f \<and> holds_task S f t \<and> taskId t = j \<and> wf_task S t \<and>
       map_of (records s') j = Some (reopened Op t) \<and> on_disk S (reopened Op t) (dir s')" if "task_file j \<in> set (name # names)" for j
    proof (cases "j = i")
      case True
      have "map_of (records s') i = Some (reopened Op t)" using IH'(3) [OF nin] t(5) by simp
      moreover have "on_disk S (reopened Op t) (dir s')" using IH'(4) [of "task_file i"] nin t(3,6) by (simp add: on_disk_def)
      ultimately show ?thesis using t True by blast
    next
      case False
      then have "task_file j \<in> set names" using that i by simp
      then show ?thesis using IH'(2) [of j] other(2) [of "task_file j"] False by simp
    qed
    moreover have "map_of (records s') j = map_of (records s) j" if "task_file j \<notin> set (name # names)" for j
      using that i IH'(3) [of j] other(1) [of j] by auto
    moreover have "map_of (dir s') n = map_of (dir s) n" if "n \<notin> set (name # names) \<or> \<not> task_name n" for n
      using that i IH'(4) [of n] other(2) [of n] by (cases "n = task_file i") auto
    ultimately show ?thesis by blast
  qed
qed simp

text \<open>Conversely: files that hold tasks are loaded, if the writes succeed.\<close>

definition writable :: "open_options \<Rightarrow> bool" where
  "writable Op \<longleftrightarrow> (\<forall>name. \<exists>n. writes Op name = Saved n \<and> n \<le> MAX_RECORD_BYTES)"

lemma load_task_succeeds:
  assumes "writable Op" "map_of (dir s) (task_file i) = Some f" "holds_task S f t" "taskId t = i" "wf_task S t"
  shows "\<exists>s'. load_task S Op (task_file i) s = (None, s') \<and> (\<forall>name. name \<noteq> task_file i \<longrightarrow> map_of (dir s') name = map_of (dir s) name)"
proof -
  obtain j where j: "readPrivateJson f = Inr j" "validateRecord S j = Inr t"
    using assms(3) by (auto simp: holds_task_def readPrivateJson_def)
  have id: "task_id (Some (JStr i)) = Inr i" using assms(4,5) by (simp add: task_id_def wf_task_def)
  obtain n where "writes Op (task_file i) = Saved n" "n \<le> MAX_RECORD_BYTES" using assms(1) by (auto simp: writable_def)
  then show ?thesis using assms(2,4) j id
    by (cases "terminal t") (auto simp: load_task_def save_def Let_def update_conv')
qed

lemma load_tasks_succeeds:
  assumes "writable Op" "distinct names"
    "\<And>i. task_file i \<in> set names \<Longrightarrow> \<exists>f t. map_of (dir s) (task_file i) = Some f \<and> holds_task S f t \<and> taskId t = i \<and> wf_task S t"
  shows "\<exists>s'. load_tasks S Op names s = (None, s')"
  using assms(2,3)
proof (induction names arbitrary: s)
  case (Cons name names)
  show ?case
  proof (cases "task_name name")
    case True
    then obtain i where i: "name = task_file i" by (auto simp: task_name_def)
    obtain f t where "map_of (dir s) (task_file i) = Some f" "holds_task S f t" "taskId t = i" "wf_task S t"
      using Cons.prems(2) [of i] i by auto
    then obtain s1 where s1: "load_task S Op (task_file i) s = (None, s1)"
        "\<forall>name. name \<noteq> task_file i \<longrightarrow> map_of (dir s1) name = map_of (dir s) name"
      using load_task_succeeds [OF assms(1)] by blast
    have "\<exists>s'. load_tasks S Op names s1 = (None, s')"
    proof (rule Cons.IH)
      fix j assume j: "task_file j \<in> set names"
      then have "j \<noteq> i" using Cons.prems(1) i by auto
      with j s1(2) Cons.prems(2) [of j] show "\<exists>f t. map_of (dir s1) (task_file j) = Some f \<and> holds_task S f t \<and> taskId t = j \<and> wf_task S t"
        by simp
    qed (use Cons.prems in simp)
    with s1 True show ?thesis by (auto simp: i ends_with_task)
  qed (use Cons in \<open>simp add: ends_with_task\<close>)
qed simp

section \<open>Leases and scope\<close>

lemma lease_other:
  assumes "is_lease name"
  shows "\<not> task_name name" "name \<noteq> js ''scope.json''"
proof
  have len: "length (js ''.json'') = 5" by (simp add: js_def)
  have n: "12 < length name" "list_all (\<lambda>c. hex_digit c \<or> c = 45) (take (length name - 12) (drop 7 name))" "take 7 name = js ''.lease-''"
    using assms by (simp_all add: is_lease_def)
  assume "task_name name"
  then obtain p where p: "name = p @ js ''.task.json''" by (auto simp: task_name_def task_file_def)
  then have l: "length name = length p + 10" by (simp add: js_def)
  have "name ! (length name - 6) = 107" unfolding l by (simp add: p nth_append js_def)
  moreover have "name ! (length name - 6) = take (length name - 12) (drop 7 name) ! (length name - 13)" using n(1) by simp
  moreover have "take (length name - 12) (drop 7 name) ! (length name - 13) \<in> set (take (length name - 12) (drop 7 name))"
    using n(1) by (intro nth_mem) simp
  ultimately show False using n(2) by (auto simp: list_all_iff hex_digit_def)
next
  show "name \<noteq> js ''scope.json''" using assms by (auto simp: is_lease_def js_def)
qed

lemma lease_loop_frame:
  assumes "lease_loop H names s = (r, s')" "one_each (dir s)"
  shows "same_rest s s' \<and> records s' = records s \<and> one_each (dir s') \<and>
    (\<forall>name. \<not> is_lease name \<or> name = lease s \<longrightarrow> map_of (dir s') name = map_of (dir s) name)"
  using assms
proof (induction names arbitrary: s)
  case (Cons name names)
  show ?case
  proof (cases "is_lease name \<and> name \<noteq> lease s")
    case True
    show ?thesis
    proof (cases "map_of (dir s) name")
      case (Some f)
      let ?s = "report (js ''recovered_stale_lock'') [] (s\<lparr>dir := AList.delete name (dir s)\<rparr>)"
      show ?thesis
      proof (cases "check_lease H f")
        case None
        then have "lease_loop H names ?s = (r, s')" using Cons.prems(1) True Some by simp
        moreover have "one_each (dir ?s)" using Cons.prems(2) by (simp add: report_def)
        ultimately have IH: "same_rest ?s s' \<and> records s' = records ?s \<and> one_each (dir s') \<and>
            (\<forall>name. \<not> is_lease name \<or> name = lease ?s \<longrightarrow> map_of (dir s') name = map_of (dir ?s) name)" by (rule Cons.IH)
        have "same_rest s ?s" by (simp add: same_rest_def report_def answered_def)
        with IH True show ?thesis using same_rest_trans by (auto simp: report_def delete_conv')
      qed (use Cons.prems True Some in simp)
    qed (use Cons True in simp)
  qed (use Cons in simp)
qed simp

text \<open>A loop that ends well has removed every other lease.\<close>

lemma lease_loop_monotone:
  "lease_loop H names s = (r, s') \<Longrightarrow> map_of (dir s) name = None \<Longrightarrow> map_of (dir s') name = None"
proof (induction names arbitrary: s)
  case (Cons m names)
  show ?case
  proof (cases "is_lease m \<and> m \<noteq> lease s \<and> map_of (dir s) m \<noteq> None")
    case True
    then obtain f where f: "map_of (dir s) m = Some f" by blast
    show ?thesis
    proof (cases "check_lease H f")
      case None
      then have "lease_loop H names (report (js ''recovered_stale_lock'') [] (s\<lparr>dir := AList.delete m (dir s)\<rparr>)) = (r, s')"
        using Cons.prems(1) True f by simp
      from Cons.IH [OF this] Cons.prems(2) show ?thesis by (simp add: report_def delete_conv')
    qed (use Cons.prems True f in simp)
  next
    case False
    then have "lease_loop H names s = (r, s')" using Cons.prems(1) by (auto split: if_splits)
    then show ?thesis using Cons by blast
  qed
qed simp

lemma lease_loop_removes:
  assumes "lease_loop H names s = (None, s')" "one_each (dir s)" "name \<in> set names" "is_lease name" "name \<noteq> lease s"
  shows "map_of (dir s') name = None"
  using assms
proof (induction names arbitrary: s)
  case (Cons n names)
  show ?case
  proof (cases "is_lease n \<and> n \<noteq> lease s \<and> map_of (dir s) n \<noteq> None")
    case True
    let ?s = "report (js ''recovered_stale_lock'') [] (s\<lparr>dir := AList.delete n (dir s)\<rparr>)"
    have l: "lease_loop H names ?s = (None, s')" using Cons.prems(1) True by (auto split: option.splits)
    have "one_each (dir ?s)" "lease ?s = lease s" using Cons.prems(2) by (simp_all add: report_def)
    with l show ?thesis using Cons lease_loop_monotone [OF l, of name] by (cases "name = n") (auto simp: report_def delete_conv')
  next
    case False
    then have l: "lease_loop H names s = (None, s')" using Cons.prems(1) by (auto split: if_splits)
    show ?thesis
    proof (cases "name = n")
      case True
      then show ?thesis using lease_loop_monotone [OF l, of name] False Cons.prems by auto
    qed (use Cons l in auto)
  qed
qed simp

lemma lease_loop_succeeds:
  assumes "\<And>name f. map_of (dir s) name = Some f \<Longrightarrow> is_lease name \<Longrightarrow> name \<noteq> lease s \<Longrightarrow> check_lease H f = None"
  shows "\<exists>s'. lease_loop H names s = (None, s')"
  using assms
proof (induction names arbitrary: s)
  case (Cons name names)
  let ?s = "report (js ''recovered_stale_lock'') [] (s\<lparr>dir := AList.delete name (dir s)\<rparr>)"
  have "\<exists>s'. lease_loop H names ?s = (None, s')"
    by (rule Cons.IH) (auto simp: report_def delete_conv' split: if_splits intro: Cons.prems)
  with Cons show ?case by (auto split: option.split)
qed simp

definition scope_file :: "jstr \<Rightarrow> dir_file \<Rightarrow> bool" where
  "scope_file i f \<longleftrightarrow> (\<exists>sc. readPrivateJson f = Inr sc \<and> is_object sc \<and> member_of sc (js ''version'') = Some (JInt 1) \<and>
     member_of sc (js ''scopeId'') = Some (JStr i))"

lemma scope_no_task [simp]: "task_file i \<noteq> js ''scope.json''"
proof
  assume eq: "task_file i = js ''scope.json''"
  then have "length (task_file i) = length (js ''scope.json'')" by simp
  then have "i = []" by (simp add: task_file_def js_def)
  with eq show False by (simp add: task_file_def js_def)
qed

lemma open_scope_ok:
  assumes "open_scope Op s = (None, s')" "one_each (dir s)"
  shows "same_rest s s' \<and> records s' = records s \<and> one_each (dir s') \<and>
    (\<forall>name. name \<noteq> js ''scope.json'' \<longrightarrow> map_of (dir s') name = map_of (dir s) name) \<and>
    (\<exists>f. map_of (dir s') (js ''scope.json'') = Some f \<and> scope_file (scopeId Op) f)"
proof (cases "map_of (dir s) (js ''scope.json'')")
  case (Some f)
  then show ?thesis using assms by (auto simp: open_scope_def scope_file_def split: sum.splits if_splits)
next
  case None
  have "readPrivateJson \<lparr>f_private = True, f_size = n, f_json = Some (JObj [(js ''version'', JInt 1), (js ''scopeId'', JStr (scopeId Op))])\<rparr> =
      Inr (JObj [(js ''version'', JInt 1), (js ''scopeId'', JStr (scopeId Op))])" if "n \<le> MAX_RECORD_BYTES" for n
    using that by (simp add: readPrivateJson_def)
  moreover have "js ''version'' \<noteq> js ''scopeId''" by (simp add: js_def)
  ultimately show ?thesis using None assms
    by (auto simp: open_scope_def save_def scope_file_def same_rest_def update_conv' not_less
        split: write_result.splits if_splits)
qed

section \<open>Opening gives the invariant\<close>

text \<open>What the identifiers and the clock of the runtime give, and a directory with one file per name.\<close>

definition open_env :: "schemas \<Rightarrow> open_options \<Rightarrow> directory \<Rightarrow> bool" where
  "open_env S Op d \<longleftrightarrow> is_task_id (leaseId Op) \<and> finite_date S (startTime Op) \<and> one_each d"

lemma new_tasks_fields:
  "lease (new_tasks Op d) = lease_name (leaseId Op)" "dir (new_tasks Op d) = d" "records (new_tasks Op d) = []"
  by (simp_all add: new_tasks_def)

lemma open_store_None:
  "open_store S H Op d = (None, s) \<longleftrightarrow> absolute Op \<and> scope_ok (scopeId Op) \<and>
     (case o_maxConcurrent Op of None \<Rightarrow> True | Some n \<Rightarrow> is_safe_integer (Some (JInt n)) \<and> 1 \<le> n) \<and> dirPrivate Op \<and>
     open_body S H Op (new_tasks Op d) = (None, s)"
  by (auto simp: open_store_def Let_def split: option.splits prod.splits)

lemma open_body_ok:
  assumes "schema_laws S" "open_env S Op d" "open_body S H Op (new_tasks Op d) = (None, s)"
  shows "same_rest (new_tasks Op d) s \<and> one_each (dir s) \<and>
    (\<exists>f. map_of (dir s) (js ''scope.json'') = Some f \<and> scope_file (scopeId Op) f) \<and>
    (\<forall>i f. map_of d (task_file i) = Some f \<longrightarrow> (\<exists>t. holds_task S f t \<and> taskId t = i \<and> wf_task S t \<and>
       map_of (records s) i = Some (reopened Op t) \<and> on_disk S (reopened Op t) (dir s))) \<and>
    (\<forall>i. map_of d (task_file i) = None \<longrightarrow> map_of (records s) i = None \<and> map_of (dir s) (task_file i) = None)"
proof -
  let ?s = "new_tasks Op d"
  note env = assms(2) [unfolded open_env_def]
  have nt: "\<not> task_name (lease ?s)" using env lease_no_task by (simp add: new_tasks_fields)
  obtain d1 where d1: "save (writes Op (lease ?s)) (lease ?s) (JObj [(js ''pid'', JInt (pid H)), (js ''host'', JStr (hostname H))]) d = (None, d1)"
    using assms(3) by (auto simp: open_body_def new_tasks_fields split: prod.splits option.splits)
  then have d1': "one_each d1" "\<And>name. name \<noteq> lease ?s \<Longrightarrow> map_of d1 name = map_of d name"
    using env by (auto simp: save_def update_conv' split: write_result.splits if_splits)
  obtain s1 where s1: "lease_loop H (map fst d1) (?s\<lparr>dir := d1\<rparr>) = (None, s1)"
    using assms(3) d1 by (auto simp: open_body_def new_tasks_fields split: prod.splits option.splits)
  have f1: "same_rest ?s s1" "records s1 = []" "one_each (dir s1)" "\<And>i. map_of (dir s1) (task_file i) = map_of d (task_file i)"
  proof -
    have fr: "same_rest (?s\<lparr>dir := d1\<rparr>) s1 \<and> records s1 = records ?s \<and> one_each (dir s1) \<and>
        (\<forall>name. \<not> is_lease name \<or> name = lease ?s \<longrightarrow> map_of (dir s1) name = map_of d1 name)"
      using lease_loop_frame [OF s1] d1'(1) by simp
    moreover have "same_rest ?s (?s\<lparr>dir := d1\<rparr>)" by (simp add: same_rest_def)
    ultimately show "same_rest ?s s1" "records s1 = []" "one_each (dir s1)"
      using same_rest_trans by (blast, simp_all add: new_tasks_fields)
    show "map_of (dir s1) (task_file i) = map_of d (task_file i)" for i
    proof -
      have "task_file i \<noteq> lease ?s" using nt by (metis task_name_file)
      moreover have "\<not> is_lease (task_file i)" using lease_other(1) by (metis task_name_file)
      ultimately show ?thesis using fr d1'(2) [of "task_file i"] by simp
    qed
  qed
  obtain s2 where s2: "open_scope Op s1 = (None, s2)" "load_tasks S Op (map fst (dir s1)) s2 = (None, s)"
    using assms(3) d1 s1 by (auto simp: open_body_def new_tasks_fields Let_def split: prod.splits option.splits)
  note f2 = open_scope_ok [OF s2(1) f1(3)]
  have f2': "map_of (dir s2) (task_file i) = map_of d (task_file i)" for i using f2 f1(4) by simp
  have ents: "task_file i \<in> set (map fst (dir s1)) \<longleftrightarrow> map_of d (task_file i) \<noteq> None" for i
    unfolding f1(4) [symmetric] by (simp add: map_of_eq_None_iff)
  have "finite_date S (startTime Op)" "distinct (map fst (dir s1))" using env f1(3) by (simp_all add: one_each_def)
  note f3 = load_tasks_ok [OF assms(1) this(1) s2(2) this(2), unfolded ents]
  note f3a = conjunct1 [OF f3] and f3b = conjunct1 [OF conjunct2 [OF f3]] and f3c = conjunct1 [OF conjunct2 [OF conjunct2 [OF f3]]]
    and f3d = conjunct1 [OF conjunct2 [OF conjunct2 [OF conjunct2 [OF f3]]]] and f3e = conjunct2 [OF conjunct2 [OF conjunct2 [OF conjunct2 [OF f3]]]]
  have "same_rest ?s s" using same_rest_trans [OF same_rest_trans [OF f1(1) conjunct1 [OF f2]] f3a] .
  moreover have "one_each (dir s)" using f2 f3b by simp
  moreover have "\<not> task_name (js ''scope.json'')" unfolding task_name_def using scope_no_task by metis
  then have "map_of (dir s) (js ''scope.json'') = map_of (dir s2) (js ''scope.json'')" using f3e by simp
  then have "\<exists>f. map_of (dir s) (js ''scope.json'') = Some f \<and> scope_file (scopeId Op) f" using f2 by simp
  moreover have "\<exists>t. holds_task S f t \<and> taskId t = i \<and> wf_task S t \<and>
       map_of (records s) i = Some (reopened Op t) \<and> on_disk S (reopened Op t) (dir s)" if "map_of d (task_file i) = Some f" for i f
    using f3c [rule_format, of i] f2' [of i] that by auto
  moreover have "map_of (records s) i = None \<and> map_of (dir s) (task_file i) = None" if "map_of d (task_file i) = None" for i
  proof -
    have "map_of (records s) i = map_of (records s2) i" using f3d that by simp
    moreover have "task_file i \<notin> set (map fst (dir s1))" using ents [of i] that by simp
    then have "map_of (dir s) (task_file i) = map_of (dir s2) (task_file i)" using f3e by blast
    ultimately show ?thesis using f2 f1(2) f2' [of i] that by simp
  qed
  ultimately show ?thesis by blast
qed

text \<open>The lease of an open store is the only one in the directory, and it names the process.\<close>

definition own_lease :: "host \<Rightarrow> dir_file \<Rightarrow> bool" where
  "own_lease H f \<longleftrightarrow> f_private f \<and> f_size f \<le> MAX_RECORD_BYTES \<and>
     f_json f = Some (JObj [(js ''pid'', JInt (pid H)), (js ''host'', JStr (hostname H))])"

lemma open_body_lease:
  assumes "schema_laws S" "open_env S Op d" "open_body S H Op (new_tasks Op d) = (None, s)" "is_lease name"
    "map_of (dir s) name = Some f"
  shows "name = lease_name (leaseId Op) \<and> own_lease H f"
proof -
  let ?s = "new_tasks Op d"
  note env = assms(2) [unfolded open_env_def]
  obtain d1 where d1: "save (writes Op (lease ?s)) (lease ?s) (JObj [(js ''pid'', JInt (pid H)), (js ''host'', JStr (hostname H))]) d = (None, d1)"
    using assms(3) by (auto simp: open_body_def new_tasks_fields split: prod.splits option.splits)
  then obtain g where g: "map_of d1 (lease ?s) = Some g" "own_lease H g" and one: "one_each d1"
    using env by (auto simp: save_def own_lease_def update_conv' split: write_result.splits if_splits)
  obtain s1 where s1: "lease_loop H (map fst d1) (?s\<lparr>dir := d1\<rparr>) = (None, s1)"
    using assms(3) d1 by (auto simp: open_body_def new_tasks_fields split: prod.splits option.splits)
  have one1: "one_each (dir (?s\<lparr>dir := d1\<rparr>))" using one by simp
  note fr = lease_loop_frame [OF s1 one1]
  obtain s2 where s2: "open_scope Op s1 = (None, s2)" "load_tasks S Op (map fst (dir s1)) s2 = (None, s)"
    using assms(3) d1 s1 by (auto simp: open_body_def new_tasks_fields Let_def split: prod.splits option.splits)
  have "map_of (dir s) name = map_of (dir s2) name"
    using load_tasks_ok [OF assms(1) _ s2(2)] env fr lease_other(1) [OF assms(4)] by (simp add: one_each_def)
  also have "\<dots> = map_of (dir s1) name"
    using open_scope_ok [OF s2(1)] fr lease_other(2) [OF assms(4)] by simp
  finally have f: "map_of (dir s1) name = Some f" using assms(5) by simp
  show ?thesis
  proof (cases "name = lease ?s")
    case True
    then show ?thesis using fr f g by (simp add: new_tasks_fields)
  next
    case False
    have "name \<in> set (map fst d1)"
    proof (rule ccontr)
      assume "name \<notin> set (map fst d1)"
      then have "map_of d1 name = None" by (simp add: map_of_eq_None_iff)
      with lease_loop_monotone [OF s1] f show False by simp
    qed
    then show ?thesis using lease_loop_removes [OF s1 one1 _ assms(4)] False f by simp
  qed
qed

lemma open_inv:
  assumes "schema_laws S" "open_env S Op d" "open_store S H Op d = (None, s)"
  shows "task_inv S s"
proof -
  have body: "open_body S H Op (new_tasks Op d) = (None, s)" using assms(3) by (simp add: open_store_None)
  note ok = open_body_ok [OF assms(1,2) body]
  have f: "active s = []" "objects s = []" "ops s = []" "runs s = []" "\<not> persistenceError s" "lease s = lease_name (leaseId Op)"
      "list_all answered (events s)"
    using ok by (auto simp: same_rest_def new_tasks_def)
  have rec: "\<exists>t0 f. map_of d (task_file i) = Some f \<and> t = reopened Op t0 \<and> taskId t0 = i \<and> wf_task S t0 \<and> on_disk S t (dir s)"
    if "map_of (records s) i = Some t" for i t
  proof (cases "map_of d (task_file i)")
    case None
    then show ?thesis using ok that by simp
  next
    case (Some f)
    then obtain t0 where "taskId t0 = i" "wf_task S t0" "map_of (records s) i = Some (reopened Op t0)" "on_disk S (reopened Op t0) (dir s)"
      using ok by blast
    with that Some show ?thesis by auto
  qed
  have wf: "wf_task S t \<Longrightarrow> wf_task S (reopened Op t)" for t using assms(2) by (simp add: reopened_def open_env_def)
  have mem: "memory_inv S s" unfolding memory_inv_def using rec wf by (metis reopened_simps(1))
  have "\<exists>t. taskId t = i \<and> wf_task S t \<and> holds_task S f t \<and> map_of (records s) i = Some t"
    if "map_of (dir s) (task_file i) = Some f" for i f
  proof (cases "map_of d (task_file i)")
    case None
    then show ?thesis using ok that by simp
  next
    case (Some f0)
    then obtain t where "taskId t = i" "wf_task S t" "map_of (records s) i = Some (reopened Op t)" "on_disk S (reopened Op t) (dir s)"
      using ok by blast
    with that wf show ?thesis by (auto simp: on_disk_def)
  qed
  then have "disk_inv S s" using ok lease_no_task assms(2) by (auto simp: disk_inv_def f open_env_def)
  moreover have fin: "terminal t" if "map_of (records s) i = Some t" for i t using rec [OF that] by auto
  then have "pending_inv s" by (auto simp: pending_inv_def terminal_def)
  moreover have "active_inv s" using fin by (auto simp: active_inv_def f)
  ultimately show ?thesis using mem by (simp add: task_inv_def store_inv_def ops_inv_def io_inv_def input_inv_def f)
qed

section \<open>Runs\<close>

lemma reach_inv:
  assumes "task_reach S s0 s" "task_inv S s0" "schema_laws S"
  shows "task_inv S s \<and> keeps s0 s"
  using assms(1)
proof (induction rule: task_reach.induct)
  case (tr_step s s')
  then show ?case using task_step_inv assms(3) keeps_trans by blast
qed (simp add: assms)

lemma reach_keeps:
  "task_reach S s s' \<Longrightarrow> task_inv S s \<Longrightarrow> schema_laws S \<Longrightarrow> keeps s s'"
  using reach_inv by blast

text \<open>A directory that can be opened: the leases in it are stale and its scope is the right one.\<close>

definition can_open :: "host \<Rightarrow> open_options \<Rightarrow> directory \<Rightarrow> bool" where
  "can_open H Op d \<longleftrightarrow> absolute Op \<and> dirPrivate Op \<and> scope_ok (scopeId Op) \<and>
     (case o_maxConcurrent Op of None \<Rightarrow> True | Some n \<Rightarrow> is_safe_integer (Some (JInt n)) \<and> 1 \<le> n) \<and> writable Op \<and>
     (\<forall>(name, f)\<in>set d. is_lease name \<longrightarrow> check_lease H f = None) \<and>
     (\<exists>f. map_of d (js ''scope.json'') = Some f \<and> scope_file (scopeId Op) f)"

lemma lease_not_scope: "lease_name u \<noteq> js ''scope.json''"
  by (simp add: lease_name_def js_def)

lemma open_succeeds:
  assumes "can_open H Op d" "open_env S Op d"
    "\<And>i f. map_of d (task_file i) = Some f \<Longrightarrow> \<exists>t. holds_task S f t \<and> taskId t = i \<and> wf_task S t"
  shows "\<exists>s. open_store S H Op d = (None, s)"
proof -
  let ?s = "new_tasks Op d"
  have w: "\<exists>n. writes Op name = Saved n \<and> n \<le> MAX_RECORD_BYTES" for name using assms(1) by (simp add: can_open_def writable_def)
  obtain n where n: "writes Op (lease ?s) = Saved n" "n \<le> MAX_RECORD_BYTES" using w by blast
  define d1 where "d1 = AList.update (lease ?s) \<lparr>f_private = True, f_size = n, f_json = Some
      (JObj [(js ''pid'', JInt (pid H)), (js ''host'', JStr (hostname H))])\<rparr> d"
  have sv: "save (writes Op (lease ?s)) (lease ?s) (JObj [(js ''pid'', JInt (pid H)), (js ''host'', JStr (hostname H))]) d = (None, d1)"
    using n by (simp add: save_def d1_def)
  have one: "one_each d1" using assms(2) by (simp add: d1_def open_env_def)
  have "check_lease H f = None" if "map_of d1 name = Some f" "is_lease name" "name \<noteq> lease ?s" for name f
    using assms(1) that by (auto simp: can_open_def d1_def update_conv' dest: map_of_SomeD)
  then obtain s1 where s1: "lease_loop H (map fst d1) (?s\<lparr>dir := d1\<rparr>) = (None, s1)"
    using lease_loop_succeeds [of "?s\<lparr>dir := d1\<rparr>" H "map fst d1"] by auto
  note fr = lease_loop_frame [OF s1]
  have dir1: "map_of (dir s1) name = map_of d name" if "\<not> is_lease name" "name \<noteq> lease_name (leaseId Op)" for name
    using fr that one by (auto simp: d1_def update_conv' new_tasks_fields)
  have "\<not> is_lease (js ''scope.json'')" using lease_other(2) by blast
  then have "map_of (dir s1) (js ''scope.json'') = map_of d (js ''scope.json'')"
    using dir1 lease_not_scope [symmetric] by blast
  then have sc: "open_scope Op s1 = (None, s1)" using assms(1) by (auto simp: can_open_def open_scope_def scope_file_def)
  have "\<exists>s. load_tasks S Op (map fst (dir s1)) s1 = (None, s)"
  proof (rule load_tasks_succeeds)
    show "writable Op" using assms(1) by (simp add: can_open_def)
    show "distinct (map fst (dir s1))" using fr one by (simp add: one_each_def)
    fix i assume i: "task_file i \<in> set (map fst (dir s1))"
    have "\<not> is_lease (task_file i)" using lease_other(1) by (metis task_name_file)
    moreover have "task_file i \<noteq> lease_name (leaseId Op)"
      using lease_no_task assms(2) by (metis open_env_def task_name_file)
    ultimately have d: "map_of (dir s1) (task_file i) = map_of d (task_file i)" using dir1 by blast
    with i obtain f where "map_of d (task_file i) = Some f" by (metis map_of_eq_None_iff not_None_eq list.set_map)
    with d assms(3) show "\<exists>f t. map_of (dir s1) (task_file i) = Some f \<and> holds_task S f t \<and> taskId t = i \<and> wf_task S t" by simp
  qed
  then obtain s where "load_tasks S Op (map fst (dir s1)) s1 = (None, s)" by blast
  then have "open_body S H Op ?s = (None, s)" using sv s1 sc by (simp add: open_body_def new_tasks_fields)
  then show ?thesis using assms(1) by (auto simp: open_store_None can_open_def)
qed

section \<open>Properties\<close>

text \<open>A store some process has opened and used.\<close>

definition used_store :: "schemas \<Rightarrow> host \<Rightarrow> open_options \<Rightarrow> directory \<Rightarrow> tasks \<Rightarrow> bool" where
  "used_store S H Op d s \<longleftrightarrow> schema_laws S \<and> open_env S Op d \<and>
     fst (open_store S H Op d) = None \<and> task_reach S (snd (open_store S H Op d)) s"

lemma used_inv:
  assumes "used_store S H Op d s"
  shows "task_inv S s" "keeps (snd (open_store S H Op d)) s" "schema_laws S"
proof -
  have o: "open_store S H Op d = (None, snd (open_store S H Op d))" using assms by (cases "open_store S H Op d") (simp add: used_store_def)
  have l: "schema_laws S" "open_env S Op d" and r: "task_reach S (snd (open_store S H Op d)) s"
    using assms by (simp_all add: used_store_def)
  show "task_inv S s" "keeps (snd (open_store S H Op d)) s" "schema_laws S"
    using reach_inv [OF r open_inv [OF l o] l(1)] l(1) by blast+
qed

lemma used_opened:
  assumes "used_store S H Op d s"
  shows "same_rest (new_tasks Op d) (snd (open_store S H Op d))"
    "\<exists>f. map_of (dir (snd (open_store S H Op d))) (js ''scope.json'') = Some f \<and> scope_file (scopeId Op) f"
proof -
  have b: "open_body S H Op (new_tasks Op d) = (None, snd (open_store S H Op d))"
    using assms open_store_None [of S H Op d "snd (open_store S H Op d)"]
    by (cases "open_store S H Op d") (simp add: used_store_def)
  have "schema_laws S" "open_env S Op d" using assms by (simp_all add: used_store_def)
  from open_body_ok [OF this b] show "same_rest (new_tasks Op d) (snd (open_store S H Op d))"
    "\<exists>f. map_of (dir (snd (open_store S H Op d))) (js ''scope.json'') = Some f \<and> scope_file (scopeId Op) f"
    by blast+
qed

lemma used_scope:
  assumes "used_store S H Op d s"
  shows "\<exists>f. map_of (dir s) (js ''scope.json'') = Some f \<and> scope_file (scopeId Op) f"
proof -
  let ?s0 = "snd (open_store S H Op d)"
  note s0 = used_opened [OF assms]
  have "lease ?s0 = lease_name (leaseId Op)" using s0(1) by (simp add: same_rest_def new_tasks_fields)
  then have "js ''scope.json'' \<noteq> lease ?s0" using lease_not_scope by metis
  moreover have "\<not> task_name (js ''scope.json'')" unfolding task_name_def using scope_no_task by metis
  ultimately have "map_of (dir s) (js ''scope.json'') = map_of (dir ?s0) (js ''scope.json'')"
    using used_inv(2) [OF assms] by (simp add: keeps_def)
  with s0(2) show ?thesis by simp
qed

text \<open>C23: an outcome is final.  Once a task of the store is completed, failed or cancelled, its record stays as
  it is in memory, and the file of the task is read back as this record, whatever is called, executed or
  fails to be written later.\<close>

theorem task_outcome_final:
  assumes "used_store S H Op d s" "task_reach S s s'" "map_of (records s) i = Some t" "terminal t"
  shows "map_of (records s') i = Some t \<and> on_disk S t (dir s')"
proof -
  note inv = used_inv [OF assms(1)]
  have "map_of (records s') i = Some t" using reach_keeps [OF assms(2) inv(1,3)] assms(3,4) by (simp add: keeps_def)
  moreover have "task_inv S s'" using reach_inv [OF assms(2) inv(1,3)] by blast
  ultimately show ?thesis using assms(4) by (auto simp: task_inv_def store_inv_def memory_inv_def)
qed

lemma used_lease:
  assumes "used_store S H Op d s" "is_lease name" "map_of (dir s) name = Some f"
  shows "own_lease H f"
proof -
  let ?s0 = "snd (open_store S H Op d)"
  have b: "open_body S H Op (new_tasks Op d) = (None, ?s0)"
    using assms(1) open_store_None [of S H Op d ?s0]
    by (cases "open_store S H Op d") (simp add: used_store_def)
  have l: "schema_laws S" "open_env S Op d" using assms(1) by (simp_all add: used_store_def)
  have "map_of (dir ?s0) name = Some f"
    using used_inv(2) [OF assms(1)] lease_other(1) [OF assms(2)] assms(3) by (cases "name = lease ?s0") (auto simp: keeps_def)
  from open_body_lease [OF l b assms(2) this] show ?thesis by simp
qed

text \<open>
  A restart on the same host after the process has died: the operating system knows no process with its
  number any more, the writes succeed, and the options are valid.
\<close>

definition can_restart :: "schemas \<Rightarrow> host \<Rightarrow> host \<Rightarrow> open_options \<Rightarrow> bool" where
  "can_restart S H H' Op \<longleftrightarrow> absolute Op \<and> dirPrivate Op \<and> scope_ok (scopeId Op) \<and>
     (case o_maxConcurrent Op of None \<Rightarrow> True | Some n \<Rightarrow> is_safe_integer (Some (JInt n)) \<and> 1 \<le> n) \<and> writable Op \<and>
     is_task_id (leaseId Op) \<and> finite_date S (startTime Op) \<and>
     hostname H' = hostname H \<and> 0 < pid H \<and> is_safe_integer (Some (JInt (pid H))) \<and> kill H' (pid H) = NoSuchProcess"

lemma own_lease_stale:
  assumes "own_lease H f" "can_restart S H H' Op"
  shows "check_lease H' f = None"
proof -
  have "js ''pid'' \<noteq> js ''host''" by (simp add: js_def)
  then show ?thesis using assms
    by (simp add: own_lease_def can_restart_def check_lease_def readPrivateJson_def Let_def del: is_safe_integer.simps)
qed

text \<open>C22: recovery.  If the process of a store dies at any moment, also within a write, and the store is opened again
  on the same host with the same scope, while no process has the number of the dead one and the writes succeed, then
  the opening succeeds.  Every task is then finished: a finished one has its record unchanged and, unless a write had
  failed before, an unfinished one is marked as interrupted; none is run again.\<close>

theorem task_crash_recovery:
  assumes "used_store S H Op d s" "can_restart S H H' Op'" "scopeId Op' = scopeId Op"
  shows "\<exists>s1. open_store S H' Op' (dir s) = (None, s1) \<and> runs s1 = [] \<and>
    (\<forall>i t. map_of (records s1) i = Some t \<longrightarrow> terminal t) \<and>
    (\<forall>i t. map_of (records s) i = Some t \<and> terminal t \<longrightarrow> map_of (records s1) i = Some t) \<and>
    (\<not> persistenceError s \<longrightarrow> (\<forall>i. map_of (records s1) i = map_option (reopened Op') (map_of (records s) i)))"
proof -
  note inv = used_inv [OF assms(1)]
  have st: "memory_inv S s" "disk_inv S s" using inv(1) by (simp_all add: task_inv_def store_inv_def)
  have env: "open_env S Op' (dir s)" using assms(2) st(2) by (simp add: open_env_def can_restart_def disk_inv_def)
  have "check_lease H' f = None" if "(name, f) \<in> set (dir s)" "is_lease name" for name f
  proof -
    have "map_of (dir s) name = Some f" using that(1) env by (simp add: open_env_def one_each_def)
    then show ?thesis using own_lease_stale [OF used_lease [OF assms(1) that(2)] assms(2)] by blast
  qed
  then have "can_open H' Op' (dir s)"
    using assms(2) used_scope [OF assms(1)] by (auto simp: can_restart_def can_open_def assms(3))
  moreover have "\<exists>t. holds_task S f t \<and> taskId t = i \<and> wf_task S t" if "map_of (dir s) (task_file i) = Some f" for i f
    using st(2) that by (auto simp: disk_inv_def)
  ultimately obtain s1 where o: "open_store S H' Op' (dir s) = (None, s1)" using open_succeeds [OF _ env] by blast
  note ok = open_body_ok [OF inv(3) env, of H' s1]
  have body: "open_body S H' Op' (new_tasks Op' (dir s)) = (None, s1)" using o by (simp add: open_store_None)
  have found: "map_of (records s1) i = Some (reopened Op' t)" if f: "map_of (dir s) (task_file i) = Some f" and t: "holds_task S f t" for i f t
  proof -
    obtain t' where "holds_task S f t'" "map_of (records s1) i = Some (reopened Op' t')" using ok [OF body] f by blast
    with t show ?thesis by (auto simp: holds_task_def)
  qed
  have lost: "map_of (records s1) i = None" if "map_of (dir s) (task_file i) = None" for i using ok [OF body] that by blast
  have fin: "terminal t" if "map_of (records s1) i = Some t" for i t
  proof (cases "map_of (dir s) (task_file i)")
    case (Some f)
    then obtain t' where "map_of (records s1) i = Some (reopened Op' t')" using ok [OF body] by blast
    with that show ?thesis by auto
  qed (use that lost in simp)
  have kept: "map_of (records s1) i = Some (reopened Op' t)" if "map_of (records s) i = Some t" "terminal t \<or> \<not> persistenceError s" for i t
    using st(1) that found unfolding memory_inv_def on_disk_def by blast
  have none: "map_of (records s1) i = None" if "map_of (records s) i = None" "\<not> persistenceError s" for i
    using st(2) that lost [of i] unfolding disk_inv_def by (cases "map_of (dir s) (task_file i)") fastforce+
  have "terminal t \<Longrightarrow> reopened Op' t = t" for t by (simp add: reopened_def)
  then have "map_of (records s1) i = Some t" if "map_of (records s) i = Some t" "terminal t" for i t using kept [of i t] that by simp
  moreover have "map_of (records s1) i = map_option (reopened Op') (map_of (records s) i)" if "\<not> persistenceError s" for i
    using kept [of i] none [of i] that by (cases "map_of (records s) i") simp_all
  moreover have "runs s1 = []" using ok [OF body] by (simp add: same_rest_def new_tasks_def)
  ultimately show ?thesis using o fin by blast
qed

text \<open>C30: closing.  When the callback of \<open>close\<close> succeeds, every task that was active has a final record, in memory
  and on disk, no task is active, and the lease is gone.  Without an earlier failure of a write no
  unfinished task is left at all.\<close>

theorem task_close_ends:
  assumes "used_store S H Op d s" "finite_date S n" "\<not> leaseReleased s" "do_close n ocs u s = (None, s')"
  shows "list_all (\<lambda>i. \<exists>t. map_of (records s') i = Some t \<and> terminal t \<and> on_disk S t (dir s')) (active s) \<and>
    active s' = [] \<and> closed s' \<and> map_of (dir s') (lease s) = None \<and>
    (persistenceError s \<or> (\<forall>i t. map_of (records s') i = Some t \<longrightarrow> terminal t))"
proof -
  note inv = used_inv [OF assms(1)]
  have i: "store_inv S s" "active_inv s" using inv(1) by (simp_all add: task_inv_def)
  from i(1) assms(2,4,3) show ?thesis
  proof (cases rule: do_close_cases)
    case (1 s1 s2 r2)
    have u: u "r2 = None" using 1(5) by (simp_all split: if_splits)
    then have s': "s' = s2\<lparr>dir := AList.delete (lease s2) (dir s2), leaseReleased := True, active := []\<rparr>" using 1(4) by simp
    note loop = close_loop_store [OF 1(3) assms(2) 1(2)]
    have fr: "lease s2 = lease s" "closed s2" "persistenceError s2 = persistenceError s"
      using loop 1(1) u(2) by (auto simp: close_frame_def same_live_def same_store_def)
    have inv': "memory_inv S s'" "active_inv s'"
      using do_close_store [OF i(1) assms(2), of ocs u] do_close_active [OF i(2,1) assms(2), of ocs u] assms(4)
      by (simp_all add: store_inv_def)
    have "\<exists>t. map_of (records s') i = Some t \<and> terminal t \<and> on_disk S t (dir s')" if "i \<in> set (active s)" for i
      using loop u(2) that inv'(1) s' by (fastforce simp: memory_inv_def)
    then have "list_all (\<lambda>i. \<exists>t. map_of (records s') i = Some t \<and> terminal t \<and> on_disk S t (dir s')) (active s)"
      by (simp add: list_all_iff)
    moreover have "map_of (dir s') (lease s) = None" by (simp add: s' fr delete_conv')
    moreover have "persistenceError s \<or> (\<forall>i t. map_of (records s') i = Some t \<longrightarrow> terminal t)"
      using inv'(2) fr s' by (auto simp: active_inv_def)
    ultimately show ?thesis using fr s' by simp
  qed
qed

text \<open>C29: active tasks.  At most \<open>maxConcurrent\<close> tasks are active at any time.  As long as no write has failed, every unfinished
  task is active, and its record says what its execution waits for: the requests that are still open, or
  nothing.\<close>

theorem task_active_bounded:
  assumes "used_store S H Op d s"
  shows "length (active s) \<le> (case o_maxConcurrent Op of None \<Rightarrow> 4 | Some n \<Rightarrow> nat n) \<and>
    (\<forall>i t. map_of (records s) i = Some t \<and> \<not> terminal t \<and> \<not> persistenceError s \<longrightarrow>
       i \<in> set (active s) \<and> shows_input (objects s) i (status t))"
proof -
  note inv = used_inv [OF assms]
  let ?s0 = "snd (open_store S H Op d)"
  have "same_rest (new_tasks Op d) ?s0" by (rule used_opened [OF assms])
  then have "maxConcurrent s = (case o_maxConcurrent Op of None \<Rightarrow> 4 | Some n \<Rightarrow> nat n)"
    using inv(2) by (simp add: same_rest_def keeps_def new_tasks_def)
  with inv(1) show ?thesis by (auto simp: task_inv_def io_inv_def active_inv_def pending_inv_def)
qed

text \<open>A request for input is answered with a response for every key it asked for and for no other.\<close>

lemma task_input_answered:
  assumes "used_store S H Op d s" "InputResolved i ks rs \<in> set (events s)"
  shows "fst ` set rs = set ks"
proof -
  have "list_all answered (events s)" using used_inv(1) [OF assms(1)] by (simp add: task_inv_def io_inv_def input_inv_def)
  with assms(2) have "answered (InputResolved i ks rs)" by (simp add: list_all_iff)
  then show ?thesis by (simp add: answered_def)
qed

section \<open>A run\<close>

text \<open>Schemas that accept what has the right shape, and a store that is opened and used.\<close>

definition demo_schemas :: schemas where
  "demo_schemas = \<lparr>result_schema = (\<lambda>v. if is_object v then Some v else None),
     request_schema = (\<lambda>m r. if is_object r \<and> member_of r (js ''method'') = Some (JStr m) then Some r else None),
     response_schema = (\<lambda>m r. Some r), finite_date = (\<lambda>s. s \<noteq> [])\<rparr>"

lemma demo_schema_laws: "schema_laws demo_schemas"
proof -
  have "is_object w \<Longrightarrow> is_object (set_member k v w)" for k v w by (cases w) auto
  then show ?thesis by (auto simp: schema_laws_def demo_schemas_def split: if_splits)
qed

definition demo_id :: jstr where "demo_id = js ''00000000-0000-4000-8000-000000000001''"

definition demo_options :: open_options where
  "demo_options = \<lparr>absolute = True, dirPrivate = True, scopeId = replicate 64 48, o_maxConcurrent = Some 1,
     leaseId = js ''00000000-0000-4000-8000-000000000000'', startTime = js ''2026-01-01T00:00:00.000Z'', writes = (\<lambda>_. Saved 100)\<rparr>"

definition demo_host :: host where
  "demo_host = \<lparr>hostname = js ''h'', pid = 7, kill = (\<lambda>_. NoSuchProcess)\<rparr>"

definition demo_env :: turn_env where
  "demo_env = \<lparr>now = js ''2026-01-01T00:00:01.000Z'', uuid = demo_id, written = Saved 100, closing_writes = (\<lambda>_. Saved 100), unlinked = True\<rparr>"

definition demo_opened :: tasks where
  "demo_opened = snd (open_store demo_schemas demo_host demo_options [])"
definition demo_started :: tasks where
  "demo_started = run_begin demo_id (snd (serial_turn demo_schemas demo_env (snd (task_start demo_opened))))"
definition demo_done :: tasks where
  "demo_done = snd (serial_turn demo_schemas (demo_env\<lparr>uuid := js ''00000000-0000-4000-8000-000000000002''\<rparr>) (exec_end demo_schemas demo_id (Inr (JObj [])) demo_started))"


lemma demo_ids: "is_task_id demo_id" "is_task_id (leaseId demo_options)" "is_task_id (js ''00000000-0000-4000-8000-000000000002'')"
  by (code_simp)+

lemma demo_lease [simp]: "lease_name (leaseId demo_options) \<noteq> js ''scope.json''" "\<not> ends_with (js ''.task.json'') (lease_name (leaseId demo_options))"
  "js ''scope.json'' \<noteq> lease_name (leaseId demo_options)"
  using lease_not_scope demo_ids(2) lease_no_task ends_with_task by (blast, blast, metis)

lemma demo_opened_eq: "open_store demo_schemas demo_host demo_options [] =
   (None, (new_tasks demo_options [])\<lparr>dir :=
      [(lease_name (leaseId demo_options), \<lparr>f_private = True, f_size = 100, f_json = Some (JObj [(js ''pid'', JInt 7), (js ''host'', JStr (js ''h''))])\<rparr>),
       (js ''scope.json'', \<lparr>f_private = True, f_size = 100, f_json = Some (JObj [(js ''version'', JInt 1), (js ''scopeId'', JStr (replicate 64 48))])\<rparr>)]\<rparr>)"
proof -
  have o: "absolute demo_options" "scope_ok (replicate 64 48)" "o_maxConcurrent demo_options = Some 1" "dirPrivate demo_options"
      "writes demo_options = (\<lambda>_. Saved 100)" "scopeId demo_options = replicate 64 48"
    by (simp_all add: demo_options_def scope_ok_def list_all_iff hex_digit_def)
  have h: "pid demo_host = 7" "hostname demo_host = js ''h''" by (simp_all add: demo_host_def)
  show ?thesis
    by (simp add: open_store_def Let_def o h open_body_def save_def MAX_RECORD_BYTES_def new_tasks_fields open_scope_def)
qed

text \<open>The task of the run below, started and completed.\<close>

definition demo_task :: "task_status \<Rightarrow> task" where
  "demo_task st = \<lparr>taskId = demo_id, createdAt = js ''2026-01-01T00:00:01.000Z'', lastUpdatedAt = js ''2026-01-01T00:00:01.000Z'',
     statusMessage = None, status = st\<rparr>"

lemma demo_opened_fields:
  "records demo_opened = []" "active demo_opened = []" "ops demo_opened = []" "runs demo_opened = []" "objects demo_opened = []"
  "\<not> closed demo_opened" "\<not> closingRequested demo_opened" "\<not> persistenceError demo_opened" "maxConcurrent demo_opened = 1"
  "events demo_opened = []"
  by (simp_all add: demo_opened_def demo_opened_eq new_tasks_def) (simp add: demo_options_def)

lemma demo_started_fields:
  "records demo_started = [(demo_id, demo_task Working)]" "active demo_started = [demo_id]" "ops demo_started = []"
  "runs demo_started = [(demo_id, Executing)]" "\<not> closed demo_started" "\<not> persistenceError demo_started"
  by (simp_all add: demo_started_def run_begin_def serial_turn_def serial_op_def task_start_def push_op_def do_start_def put_def save_def
      demo_opened_fields demo_env_def MAX_RECORD_BYTES_def set_object_def is_aborted_def set_phase_def demo_task_def)

lemma demo_done_fields:
  "records demo_done = [(demo_id, demo_task (Completed (JObj [(js ''resultType'', JStr (js ''complete''))])))]"
  by (simp_all add: demo_done_def exec_end_def demo_schemas_def serial_turn_def serial_op_def push_op_def do_complete_def put_def save_def
      demo_started_fields demo_env_def MAX_RECORD_BYTES_def set_phase_def task_get_def demo_ids demo_task_def terminal_def next_task_def summary_def)

lemma demo_reach:
  "used_store demo_schemas demo_host demo_options [] demo_opened"
  "task_reach demo_schemas demo_opened demo_started" "task_reach demo_schemas demo_opened demo_done"
proof -
  show "used_store demo_schemas demo_host demo_options [] demo_opened"
    unfolding used_store_def demo_opened_def using demo_schema_laws tr_init
    by (auto simp: demo_opened_eq open_env_def demo_ids one_each_def) (simp add: demo_schemas_def demo_options_def js_def)
  have a: "task_reach demo_schemas demo_opened (snd (task_start demo_opened))" by (rule tr_step [OF tr_init ts_start])
  have b: "task_reach demo_schemas demo_opened (snd (serial_turn demo_schemas demo_env (snd (task_start demo_opened))))"
    by (rule tr_step [OF a ts_turn]) (simp_all add: demo_env_def demo_ids demo_schemas_def js_def task_start_def push_op_def demo_opened_fields)
  have "map_of (runs (snd (serial_turn demo_schemas demo_env (snd (task_start demo_opened))))) demo_id = Some Launching"
    by (simp add: serial_turn_def serial_op_def task_start_def push_op_def do_start_def put_def save_def
      demo_opened_fields demo_env_def MAX_RECORD_BYTES_def set_object_def)
  then show c: "task_reach demo_schemas demo_opened demo_started" unfolding demo_started_def by (rule tr_step [OF b ts_begin])
  have "map_of (runs demo_started) demo_id = Some Executing" by (simp add: demo_started_fields)
  from tr_step [OF c ts_end [OF this]] have d: "task_reach demo_schemas demo_opened (exec_end demo_schemas demo_id (Inr (JObj [])) demo_started)"
    by simp
  show "task_reach demo_schemas demo_opened demo_done" unfolding demo_done_def
    by (rule tr_step [OF d ts_turn])
      (simp_all add: demo_ids demo_env_def exec_end_def demo_schemas_def push_op_def set_phase_def demo_started_fields, simp_all add: demo_id_def js_def)
qed

lemma demo_used:
  "used_store demo_schemas demo_host demo_options [] demo_started" "used_store demo_schemas demo_host demo_options [] demo_done"
  using demo_reach unfolding used_store_def demo_opened_def by blast+

theorem task_outcome_final_witness:
  "map_of (records (task_close demo_done)) demo_id = Some (demo_task (Completed (JObj [(js ''resultType'', JStr (js ''complete''))]))) \<and>
   on_disk demo_schemas (demo_task (Completed (JObj [(js ''resultType'', JStr (js ''complete''))]))) (dir (task_close demo_done))"
  by (rule task_outcome_final [OF demo_used(2) tr_step [OF tr_init ts_close]]) (simp_all add: demo_done_fields terminal_def demo_task_def)

definition demo_restart :: open_options where
  "demo_restart = demo_options\<lparr>leaseId := js ''00000000-0000-4000-8000-000000000002''\<rparr>"

theorem task_crash_recovery_witness:
  "\<exists>s1. open_store demo_schemas demo_host demo_restart (dir demo_started) = (None, s1) \<and>
     map_of (records s1) demo_id = Some (reopened demo_restart (demo_task Working))"
proof -
  have "can_restart demo_schemas demo_host demo_host demo_restart"
    unfolding can_restart_def using demo_ids(3)
    by (simp add: demo_restart_def) (simp add: demo_options_def demo_host_def scope_ok_def list_all_iff hex_digit_def writable_def MAX_RECORD_BYTES_def demo_schemas_def js_def is_safe_integer_iff)
  moreover have "scopeId demo_restart = scopeId demo_options" by (simp add: demo_restart_def)
  ultimately obtain s1 where "open_store demo_schemas demo_host demo_restart (dir demo_started) = (None, s1)"
      "map_of (records s1) demo_id = map_option (reopened demo_restart) (map_of (records demo_started) demo_id)"
    using task_crash_recovery [OF demo_used(1)] demo_started_fields(6) by blast
  then show ?thesis by (auto simp: demo_started_fields)
qed

theorem task_active_bounded_witness:
  "length (active demo_started) \<le> 1 \<and> demo_id \<in> set (active demo_started) \<and> shows_input (objects demo_started) demo_id Working"
proof -
  have "map_of (records demo_started) demo_id = Some (demo_task Working)" "\<not> terminal (demo_task Working)"
    by (simp_all add: demo_started_fields demo_task_def terminal_def)
  then have "demo_id \<in> set (active demo_started) \<and> shows_input (objects demo_started) demo_id (status (demo_task Working))"
    using task_active_bounded [OF demo_used(1)] demo_started_fields(6) by blast
  moreover have "length (active demo_started) \<le> 1" using task_active_bounded [OF demo_used(1)] by (simp add: demo_options_def)
  ultimately show ?thesis by (simp add: demo_task_def)
qed

definition demo_closed :: tasks where
  "demo_closed = snd (do_close (js ''2026'') (\<lambda>_. Saved 100) True demo_started)"

theorem task_close_ends_witness:
  "list_all (\<lambda>i. \<exists>t. map_of (records demo_closed) i = Some t \<and> terminal t \<and> on_disk demo_schemas t (dir demo_closed)) [demo_id] \<and>
    active demo_closed = [] \<and> closed demo_closed"
proof -
  have l: "\<not> leaseReleased demo_started"
    by (simp add: demo_started_def run_begin_def serial_turn_def serial_op_def task_start_def push_op_def do_start_def put_def save_def
      demo_opened_fields demo_env_def MAX_RECORD_BYTES_def set_object_def is_aborted_def set_phase_def) (simp add: demo_opened_def demo_opened_eq new_tasks_def)
  have rec: "records (reject_input i m (abort_signal i s)) = records s" "dir (reject_input i m (abort_signal i s)) = dir s" for i m s
    using same_store_small(6,7) by (metis same_store_def)+
  have "fst (do_close (js ''2026'') (\<lambda>_. Saved 100) True demo_started) = None"
    by (simp add: do_close_def l demo_started_fields Let_def rec demo_task_def terminal_def put_def save_def MAX_RECORD_BYTES_def interrupted_def)
  then have "do_close (js ''2026'') (\<lambda>_. Saved 100) True demo_started = (None, demo_closed)"
    by (cases "do_close (js ''2026'') (\<lambda>_. Saved 100) True demo_started") (simp add: demo_closed_def)
  moreover have "finite_date demo_schemas (js ''2026'')" by (simp add: demo_schemas_def js_def)
  ultimately show ?thesis using task_close_ends [OF demo_used(1) _ l] by (simp add: demo_started_fields)
qed

end
