(* ===== verification/Webui_Totp.thy ===== *)
theory Webui_Totp
  imports Json_Values Ws_Utf8
begin

text \<open>
  The second factor of the web interface, packages/core/src/webui/totp.ts: one-time codes, recovery codes, the
  secret wrapped with the password, and the validation of a stored state.  The functions of
  \<open>node:crypto\<close> and of the package \<open>otpauth\<close> are parameters, and so is what the runtime does with text
  outside ASCII.
\<close>

section \<open>Text and bytes\<close>

text \<open>White space of regular expressions and of \<open>trim\<close>, by UTF-16 unit.\<close>

definition js_white :: "nat \<Rightarrow> bool" where
  "js_white u \<longleftrightarrow> 9 \<le> u \<and> u \<le> 13 \<or> 0x2000 \<le> u \<and> u \<le> 0x200a \<or>
     u \<in> {32, 160, 0x1680, 0x2028, 0x2029, 0x202f, 0x205f, 0x3000, 0xfeff}"

definition str_trim :: "jstr \<Rightarrow> jstr" where
  "str_trim s = rev (dropWhile js_white (rev (dropWhile js_white s)))"

definition is_digit :: "nat \<Rightarrow> bool" where "is_digit u \<longleftrightarrow> 48 \<le> u \<and> u \<le> 57"

definition ascii_lower :: "jstr \<Rightarrow> jstr" where
  "ascii_lower s = map (\<lambda>u. if 65 \<le> u \<and> u \<le> 90 then u + 32 else u) s"

text \<open>\<open>buffer.toString('hex')\<close> and \<open>Buffer.from(text, 'hex')\<close>, which stops at the first pair that is not hexadecimal.\<close>

definition hex_char :: "nat \<Rightarrow> nat" where
  "hex_char n = (if n < 10 then 48 + n else 87 + n)"

definition hex_value :: "nat \<Rightarrow> nat option" where
  "hex_value c = (if 48 \<le> c \<and> c \<le> 57 then Some (c - 48) else if 97 \<le> c \<and> c \<le> 102 then Some (c - 87)
     else if 65 \<le> c \<and> c \<le> 70 then Some (c - 55) else None)"

definition to_hex :: "byte list \<Rightarrow> jstr" where
  "to_hex bs = concat (map (\<lambda>b. [hex_char (unat b div 16), hex_char (unat b mod 16)]) bs)"

fun from_hex :: "jstr \<Rightarrow> byte list" where
  "from_hex (a # b # s) = (case (hex_value a, hex_value b) of
     (Some x, Some y) \<Rightarrow> byte_of (16 * x + y) # from_hex s | _ \<Rightarrow> [])"
| "from_hex _ = []"

text \<open>\<open>/^[0-9a-f]+$/i\<close>.\<close>

definition is_hex :: "jstr \<Rightarrow> bool" where
  "is_hex s \<longleftrightarrow> s \<noteq> [] \<and> list_all (\<lambda>c. hex_value c \<noteq> None) s"

section \<open>Parameters\<close>

record crypto =
  scrypt :: "jstr \<Rightarrow> byte list \<Rightarrow> nat \<Rightarrow> byte list"                               \<comment> \<open>password, salt, length\<close>
  gcm_encrypt :: "byte list \<Rightarrow> byte list \<Rightarrow> byte list \<Rightarrow> byte list \<times> byte list"   \<comment> \<open>key, iv, text: ciphertext and tag\<close>
  gcm_decrypt :: "byte list \<Rightarrow> byte list \<Rightarrow> byte list \<Rightarrow> byte list \<Rightarrow> byte list option"    \<comment> \<open>key, iv, tag, ciphertext\<close>
  sha256 :: "byte list \<Rightarrow> byte list"
  secret_ok :: "jstr \<Rightarrow> bool"                                              \<comment> \<open>\<open>Secret.fromBase32\<close> accepts it\<close>
  otp_validate :: "jstr \<Rightarrow> jstr \<Rightarrow> int \<Rightarrow> nat \<Rightarrow> int option"                     \<comment> \<open>secret, token, time, window: \<open>delta\<close>\<close>
  otp_counter :: "int \<Rightarrow> int"                                              \<comment> \<open>the step of a time\<close>
  otp_url :: "jstr \<Rightarrow> jstr \<Rightarrow> jstr \<Rightarrow> jstr"
  upper :: "jstr \<Rightarrow> jstr"                                                  \<comment> \<open>\<open>toUpperCase\<close> of text outside ASCII\<close>
  date_ok :: "jstr \<Rightarrow> bool"                                                \<comment> \<open>\<open>Date.parse\<close> is a finite number\<close>
  lossy_text :: "byte list \<Rightarrow> jstr"                                        \<comment> \<open>\<open>toString('utf8')\<close> of bytes that are not UTF-8\<close>

definition str_upper :: "crypto \<Rightarrow> jstr \<Rightarrow> jstr" where
  "str_upper K s = (if list_all (\<lambda>u. u < 128) s then map (\<lambda>u. if 97 \<le> u \<and> u \<le> 122 then u - 32 else u) s else upper K s)"

definition utf8_text :: "crypto \<Rightarrow> byte list \<Rightarrow> jstr" where
  "utf8_text K bs = (case utf8_decode bs of Some cs \<Rightarrow> concat (map utf16_of_cp cs) | None \<Rightarrow> lossy_text K bs)"

section \<open>State\<close>

definition TOTP_WINDOW :: nat where "TOTP_WINDOW = 1"
definition RECOVERY_CODE_COUNT :: nat where "RECOVERY_CODE_COUNT = 8"
definition RECOVERY_ALPHABET :: jstr where "RECOVERY_ALPHABET = js ''ABCDEFGHJKLMNPQRSTUVWXYZ23456789''"
definition WRAP_SALT_BYTES :: nat where "WRAP_SALT_BYTES = 16"
definition WRAP_IV_BYTES :: nat where "WRAP_IV_BYTES = 12"
definition WRAP_KEY_BYTES :: nat where "WRAP_KEY_BYTES = 32"

record wrapped_secret =
  wrapSalt :: jstr
  iv :: jstr
  ciphertext :: jstr
  authTag :: jstr

record totp_state = wrapped_secret +
  recoveryCodeHashes :: "jstr list"
  lastUsedStep :: int
  label :: jstr

datatype totp_error =
    BadCode | BadSecret | CannotUnwrap
  | NotAnObject | BadWrappedFields | BadRecoveryHashes | BadLastUsedStep | BadLabel | UnknownField jstr

section \<open>One-time codes\<close>

definition verifyTotpCode :: "crypto \<Rightarrow> jstr \<Rightarrow> jstr \<Rightarrow> int \<Rightarrow> int option \<Rightarrow> int option" where
  "verifyTotpCode K secret code atMs lastUsed =
     (let token = filter (\<lambda>u. \<not> js_white u) code in
      if \<not> (length token = 6 \<and> list_all is_digit token) then None
      else if \<not> secret_ok K secret then None
      else case otp_validate K secret token atMs TOTP_WINDOW of
        None \<Rightarrow> None
      | Some delta \<Rightarrow>
          let step = otp_counter K atMs + delta in
          if lastUsed = Some step then None else Some step)"

section \<open>The wrapped secret\<close>

definition deriveWrapKey :: "crypto \<Rightarrow> jstr \<Rightarrow> byte list \<Rightarrow> byte list" where
  "deriveWrapKey K password salt = scrypt K password salt WRAP_KEY_BYTES"

text \<open>The random bytes of a call: the salt and the initialisation vector.\<close>

definition wrapTotpSecret :: "crypto \<Rightarrow> byte list \<times> byte list \<Rightarrow> jstr \<Rightarrow> jstr \<Rightarrow> wrapped_secret" where
  "wrapTotpSecret K rnd password secret =
     (case rnd of (salt, ivb) \<Rightarrow>
        let key = deriveWrapKey K password salt in
        case gcm_encrypt K key ivb (buffer_from_utf8 secret) of (ct, tag) \<Rightarrow>
          \<lparr>wrapSalt = to_hex salt, iv = to_hex ivb, ciphertext = to_hex ct, authTag = to_hex tag\<rparr>)"

definition unwrapTotpSecret :: "crypto \<Rightarrow> jstr \<Rightarrow> 'a wrapped_secret_scheme \<Rightarrow> jstr option" where
  "unwrapTotpSecret K password w =
     (let salt = from_hex (wrapSalt w); ivb = from_hex (iv w); ct = from_hex (ciphertext w); tag = from_hex (authTag w) in
      if length salt \<noteq> WRAP_SALT_BYTES \<or> length ivb \<noteq> WRAP_IV_BYTES \<or> length tag \<noteq> 16 then None
      else map_option (utf8_text K) (gcm_decrypt K (deriveWrapKey K password salt) ivb tag ct))"

section \<open>Recovery codes\<close>

definition randomRecoveryChunk :: "byte list \<Rightarrow> jstr" where
  "randomRecoveryChunk bytes = map (\<lambda>i. RECOVERY_ALPHABET ! (unat (bytes ! i) mod length RECOVERY_ALPHABET)) [0..<4]"

text \<open>
  \<open>rnd n\<close> are the four bytes of the n-th call of \<open>randomBytes\<close>.  The loop ends only when it has seen enough
  different codes, so it is a partial function.
\<close>

definition recovery_code :: "(nat \<Rightarrow> byte list) \<Rightarrow> nat \<Rightarrow> jstr" where
  "recovery_code rnd n = randomRecoveryChunk (rnd (2 * n)) @ js ''-'' @ randomRecoveryChunk (rnd (2 * n + 1))"

partial_function (option) recovery_loop :: "(nat \<Rightarrow> byte list) \<Rightarrow> nat \<Rightarrow> jstr list \<Rightarrow> jstr list option" where
  "recovery_loop rnd n codes =
     (if length codes < RECOVERY_CODE_COUNT
      then recovery_loop rnd (Suc n) (if recovery_code rnd n \<in> set codes then codes else codes @ [recovery_code rnd n])
      else Some codes)"

definition generateRecoveryCodes :: "(nat \<Rightarrow> byte list) \<Rightarrow> jstr list option" where
  "generateRecoveryCodes rnd = recovery_loop rnd 0 []"

definition normalizeRecoveryCode :: "crypto \<Rightarrow> jstr \<Rightarrow> jstr" where
  "normalizeRecoveryCode K code = str_upper K (filter (\<lambda>u. u \<noteq> 45 \<and> \<not> js_white u) code)"

definition hashRecoveryCode :: "crypto \<Rightarrow> jstr \<Rightarrow> jstr" where
  "hashRecoveryCode K code = to_hex (sha256 K (buffer_from_utf8 (normalizeRecoveryCode K code)))"

definition hashesEqual :: "jstr \<Rightarrow> jstr \<Rightarrow> bool" where
  "hashesEqual l r \<longleftrightarrow> (let a = from_hex l; b = from_hex r in
     \<not> (length a \<noteq> length b \<or> length a = 0) \<and> a = b)"

fun find_index :: "('a \<Rightarrow> bool) \<Rightarrow> 'a list \<Rightarrow> nat option" where
  "find_index P [] = None"
| "find_index P (x # xs) = (if P x then Some 0 else map_option Suc (find_index P xs))"

definition consumeRecoveryCode :: "crypto \<Rightarrow> jstr \<Rightarrow> jstr list \<Rightarrow> jstr list option" where
  "consumeRecoveryCode K code hashes =
     (let candidate = hashRecoveryCode K code in
      case find_index (\<lambda>h. hashesEqual h candidate) hashes of
        None \<Rightarrow> None
      | Some i \<Rightarrow> Some (take i hashes @ drop (Suc i) hashes))"

section \<open>Enrolment and login\<close>

record totp_enrollment =
  en_secret :: jstr
  en_otpauthUrl :: jstr
  en_issuer :: jstr
  en_accountName :: jstr

text \<open>\<open>fresh\<close> is a new random secret.\<close>

definition beginTotpEnrollment :: "crypto \<Rightarrow> jstr \<Rightarrow> jstr \<Rightarrow> jstr \<Rightarrow> jstr option \<Rightarrow> totp_error + totp_enrollment" where
  "beginTotpEnrollment K fresh issuer accountName secret =
     (let s = (case secret of None \<Rightarrow> fresh | Some x \<Rightarrow> x) in
      if \<not> secret_ok K s then Inl BadSecret
      else Inr \<lparr>en_secret = s, en_otpauthUrl = otp_url K issuer accountName s, en_issuer = issuer, en_accountName = accountName\<rparr>)"

text \<open>\<open>None\<close>: the recovery codes never end.\<close>

definition confirmTotpEnrollment ::
    "crypto \<Rightarrow> byte list \<times> byte list \<Rightarrow> (nat \<Rightarrow> byte list) \<Rightarrow> jstr \<Rightarrow> jstr \<Rightarrow> jstr \<Rightarrow> jstr \<Rightarrow> int \<Rightarrow>
     (totp_error + (totp_state \<times> jstr list)) option" where
  "confirmTotpEnrollment K wr rnd password secret code lbl atMs =
     (case verifyTotpCode K secret code atMs None of
        None \<Rightarrow> Some (Inl BadCode)
      | Some step \<Rightarrow>
          map_option (\<lambda>codes.
            let w = wrapTotpSecret K wr password secret in
            Inr (\<lparr>wrapSalt = wrapSalt w, iv = iv w, ciphertext = ciphertext w, authTag = authTag w,
                  recoveryCodeHashes = map (hashRecoveryCode K) codes, lastUsedStep = step, label = lbl\<rparr>, codes))
            (generateRecoveryCodes rnd))"

definition verifySecondFactor ::
    "crypto \<Rightarrow> jstr \<Rightarrow> totp_state \<Rightarrow> int \<Rightarrow> jstr option \<Rightarrow> jstr option \<Rightarrow> totp_state option" where
  "verifySecondFactor K password st atMs totp recoveryCode =
     (case recoveryCode of
        Some (c # cs) \<Rightarrow>
          map_option (\<lambda>rest. st\<lparr>recoveryCodeHashes := rest\<rparr>) (consumeRecoveryCode K (c # cs) (recoveryCodeHashes st))
      | _ \<Rightarrow>
          (case totp of
             None \<Rightarrow> None
           | Some code \<Rightarrow>
               (case unwrapTotpSecret K password st of
                  None \<Rightarrow> None
                | Some secret \<Rightarrow>
                    map_option (\<lambda>step. st\<lparr>lastUsedStep := step\<rparr>)
                      (verifyTotpCode K secret code atMs (Some (lastUsedStep st))))))"

datatype decision = NeedsTotp | BadSecondFactor | FactorOk "totp_state option"

definition non_blank :: "jstr option \<Rightarrow> jstr option" where
  "non_blank s = (case s of None \<Rightarrow> None | Some t \<Rightarrow> if str_trim t = [] then None else Some (str_trim t))"

definition decideSecondFactorLogin ::
    "crypto \<Rightarrow> bool \<Rightarrow> totp_state option \<Rightarrow> jstr \<Rightarrow> jstr option \<Rightarrow> jstr option \<Rightarrow> int \<Rightarrow> decision" where
  "decideSecondFactorLogin K enabled st password totp recoveryCode atMs =
     (if \<not> enabled then FactorOk None
      else case st of
        None \<Rightarrow> BadSecondFactor
      | Some state \<Rightarrow>
          let t = non_blank totp; r = non_blank recoveryCode in
          if t = None \<and> r = None then NeedsTotp
          else case verifySecondFactor K password state atMs t r of
            None \<Rightarrow> BadSecondFactor
          | Some st' \<Rightarrow> FactorOk (Some st'))"

definition regenerateRecoveryCodes ::
    "crypto \<Rightarrow> (nat \<Rightarrow> byte list) \<Rightarrow> jstr \<Rightarrow> totp_state \<Rightarrow> jstr \<Rightarrow> int \<Rightarrow> (totp_error + (totp_state \<times> jstr list)) option" where
  "regenerateRecoveryCodes K rnd password st totp atMs =
     (case verifySecondFactor K password st atMs (Some totp) None of
        None \<Rightarrow> Some (Inl BadCode)
      | Some st' \<Rightarrow>
          map_option (\<lambda>codes. Inr (st'\<lparr>recoveryCodeHashes := map (hashRecoveryCode K) codes\<rparr>, codes))
            (generateRecoveryCodes rnd))"

definition rewrapTotpSecret ::
    "crypto \<Rightarrow> byte list \<times> byte list \<Rightarrow> jstr \<Rightarrow> jstr \<Rightarrow> totp_state \<Rightarrow> totp_error + totp_state" where
  "rewrapTotpSecret K wr oldPassword newPassword st =
     (case unwrapTotpSecret K oldPassword st of
        None \<Rightarrow> Inl CannotUnwrap
      | Some secret \<Rightarrow>
          let w = wrapTotpSecret K wr newPassword secret in
          Inr (st\<lparr>wrapSalt := wrapSalt w, iv := iv w, ciphertext := ciphertext w, authTag := authTag w\<rparr>))"

section \<open>Stored states\<close>

definition is_hex_text :: "json option \<Rightarrow> bool" where
  "is_hex_text v \<longleftrightarrow> is_string v \<and> is_hex (json_text v)"

definition isWrappedShape :: "json \<Rightarrow> bool" where
  "isWrappedShape v \<longleftrightarrow>
     is_hex_text (member_of v (js ''wrapSalt'')) \<and> length (json_text (member_of v (js ''wrapSalt''))) = WRAP_SALT_BYTES * 2 \<and>
     is_hex_text (member_of v (js ''iv'')) \<and> length (json_text (member_of v (js ''iv''))) = WRAP_IV_BYTES * 2 \<and>
     is_hex_text (member_of v (js ''ciphertext'')) \<and> length (json_text (member_of v (js ''ciphertext''))) > 0 \<and>
     length (json_text (member_of v (js ''ciphertext''))) mod 2 = 0 \<and>
     is_hex_text (member_of v (js ''authTag'')) \<and> length (json_text (member_of v (js ''authTag''))) = 32"

text \<open>
  \<open>Object.keys(v).find(key => !allowed.has(key))\<close>, and the test of what it found: an empty key is not
  seen as unknown.
\<close>

definition unknown_field :: "jstr list \<Rightarrow> json \<Rightarrow> jstr option" where
  "unknown_field allowed v = (case find (\<lambda>k. k \<notin> set allowed) (map fst (members v)) of
     None \<Rightarrow> None | Some k \<Rightarrow> if k = [] then None else Some k)"

fun array_of :: "json option \<Rightarrow> json list option" where
  "array_of (Some (JArr xs)) = Some xs"
| "array_of _ = None"

fun integer_of :: "json option \<Rightarrow> int option" where
  "integer_of (Some (JInt i)) = Some i"
| "integer_of _ = None"

definition totp_fields :: "jstr list" where
  "totp_fields = [js ''wrapSalt'', js ''iv'', js ''ciphertext'', js ''authTag'', js ''recoveryCodeHashes'', js ''lastUsedStep'', js ''label'']"

definition is_hash :: "json \<Rightarrow> bool" where
  "is_hash h \<longleftrightarrow> is_hex_text (Some h) \<and> length (json_text (Some h)) = 64"

definition prepareTotpStateForRestore :: "json option \<Rightarrow> totp_error + totp_state" where
  "prepareTotpStateForRestore value = (case value of
     Some (JObj ms) \<Rightarrow>
       let v = JObj ms; lbl = member_of v (js ''label'') in
       if \<not> isWrappedShape v then Inl BadWrappedFields
       else (case array_of (member_of v (js ''recoveryCodeHashes'')) of
         None \<Rightarrow> Inl BadRecoveryHashes
       | Some hs \<Rightarrow>
           if length hs > RECOVERY_CODE_COUNT \<or> list_ex (\<lambda>h. \<not> is_hash h) hs then Inl BadRecoveryHashes
           else (case integer_of (member_of v (js ''lastUsedStep'')) of
             None \<Rightarrow> Inl BadLastUsedStep
           | Some step \<Rightarrow>
               if step < 0 then Inl BadLastUsedStep
               else if \<not> is_string lbl \<or> json_text lbl = [] \<or> length (json_text lbl) > 128 then Inl BadLabel
               else (case unknown_field totp_fields v of
                 Some k \<Rightarrow> Inl (UnknownField k)
               | None \<Rightarrow>
                   Inr \<lparr>wrapSalt = ascii_lower (json_text (member_of v (js ''wrapSalt''))), iv = ascii_lower (json_text (member_of v (js ''iv''))),
                     ciphertext = ascii_lower (json_text (member_of v (js ''ciphertext''))), authTag = ascii_lower (json_text (member_of v (js ''authTag''))),
                     recoveryCodeHashes = map (\<lambda>h. ascii_lower (json_text (Some h))) hs, lastUsedStep = step, label = json_text lbl\<rparr>)))
   | _ \<Rightarrow> Inl NotAnObject)"

definition parseTotpStateLenient :: "json option \<Rightarrow> totp_state option" where
  "parseTotpStateLenient value = (case value of
     None \<Rightarrow> None
   | Some JNull \<Rightarrow> None
   | Some v \<Rightarrow> (case prepareTotpStateForRestore (Some v) of Inl _ \<Rightarrow> None | Inr st \<Rightarrow> Some st))"

text \<open>The object \<open>JSON.stringify\<close> writes.\<close>

definition totp_json :: "totp_state \<Rightarrow> json" where
  "totp_json st = JObj [(js ''wrapSalt'', JStr (wrapSalt st)), (js ''iv'', JStr (iv st)), (js ''ciphertext'', JStr (ciphertext st)),
     (js ''authTag'', JStr (authTag st)), (js ''recoveryCodeHashes'', JArr (map JStr (recoveryCodeHashes st))),
     (js ''lastUsedStep'', JInt (lastUsedStep st)), (js ''label'', JStr (label st))]"

section \<open>Hexadecimal text\<close>

lemma hex_value_char [simp]: "n < 16 \<Longrightarrow> hex_value (hex_char n) = Some n"
  by (auto simp: hex_value_def hex_char_def)

lemma hex_char_lower [simp]: "n < 16 \<Longrightarrow> \<not> (65 \<le> hex_char n \<and> hex_char n \<le> 90)"
  by (auto simp: hex_char_def)

lemma to_hex_simps [simp]:
  "to_hex [] = []"
  "to_hex (b # bs) = hex_char (unat b div 16) # hex_char (unat b mod 16) # to_hex bs"
  by (simp_all add: to_hex_def)

lemma byte_nibble [simp]: "unat (b :: byte) div 16 < 16"
  using unat_byte [of b] by linarith

lemma from_to_hex [simp]: "from_hex (to_hex bs) = bs"
  by (induction bs) (simp_all add: mult.commute)

lemma to_hex_inj [simp]: "to_hex a = to_hex b \<longleftrightarrow> a = b"
  by (metis from_to_hex)

lemma length_to_hex [simp]: "length (to_hex bs) = 2 * length bs"
  by (induction bs) auto

lemma to_hex_digits: "list_all (\<lambda>c. hex_value c \<noteq> None) (to_hex bs)"
  by (induction bs) auto

lemma is_hex_to_hex [simp]: "is_hex (to_hex bs) \<longleftrightarrow> bs \<noteq> []"
  using to_hex_digits [of bs] by (cases bs) (auto simp: is_hex_def)

lemma lower_to_hex [simp]: "ascii_lower (to_hex bs) = to_hex bs"
  by (induction bs) (auto simp: ascii_lower_def dest: hex_char_lower)

lemma lower_hex_digits: "list_all (\<lambda>c. hex_value c \<noteq> None) (ascii_lower s) \<longleftrightarrow> list_all (\<lambda>c. hex_value c \<noteq> None) s"
  by (induction s) (auto simp: ascii_lower_def hex_value_def split: if_splits)

lemma length_ascii_lower [simp]: "length (ascii_lower s) = length s"
  by (simp add: ascii_lower_def)

lemma ascii_lower_idem [simp]: "ascii_lower (ascii_lower s) = ascii_lower s"
  by (auto simp: ascii_lower_def)

lemma ascii_lower_Nil [simp]: "ascii_lower s = [] \<longleftrightarrow> s = []"
  by (simp add: ascii_lower_def)

lemma is_hex_lower [simp]: "is_hex (ascii_lower s) \<longleftrightarrow> is_hex s"
  unfolding is_hex_def lower_hex_digits by simp

lemma hashesEqual_hex [simp]: "hashesEqual (to_hex a) (to_hex b) \<longleftrightarrow> a = b \<and> a \<noteq> []"
  by (auto simp: hashesEqual_def)

section \<open>The wrapped secret opens with its password\<close>

lemma utf8_text_encode: "well_formed s \<Longrightarrow> utf8_text K (buffer_from_utf8 s) = s"
  using utf8_decode_concat [of "code_points s"] code_points_scalar [of s] well_formed_units [of s]
  by (simp add: utf8_text_def buffer_from_utf8_def utf16_code_points)

text \<open>What the code relies on of \<open>aes-256-gcm\<close>: decryption with the same key, vector and tag gives the text, and tags have 16 bytes.\<close>

definition gcm_inverse :: "crypto \<Rightarrow> bool" where
  "gcm_inverse K \<longleftrightarrow> (\<forall>key ivb text. case gcm_encrypt K key ivb text of (ct, tag) \<Rightarrow>
     gcm_decrypt K key ivb tag ct = Some text \<and> length tag = 16 \<and> length ct = length text)"

lemma unwrap_wrap:
  assumes "gcm_inverse K" "length salt = WRAP_SALT_BYTES" "length ivb = WRAP_IV_BYTES" "well_formed secret"
  shows "unwrapTotpSecret K password (wrapTotpSecret K (salt, ivb) password secret) = Some secret"
  using assms(1)[unfolded gcm_inverse_def, rule_format, of "deriveWrapKey K password salt" ivb "buffer_from_utf8 secret"] assms(2-)
  by (auto simp: unwrapTotpSecret_def wrapTotpSecret_def utf8_text_encode split: prod.splits)

lemma rewrap_keeps_secret:
  assumes "gcm_inverse K" "length salt = WRAP_SALT_BYTES" "length ivb = WRAP_IV_BYTES"
    and "unwrapTotpSecret K old st = Some secret" "well_formed secret"
  obtains st' where "rewrapTotpSecret K (salt, ivb) old new st = Inr st'" "unwrapTotpSecret K new st' = Some secret"
    "recoveryCodeHashes st' = recoveryCodeHashes st" "lastUsedStep st' = lastUsedStep st" "label st' = label st"
proof
  let ?w = "wrapTotpSecret K (salt, ivb) new secret"
  let ?st = "st\<lparr>wrapSalt := wrapSalt ?w, iv := iv ?w, ciphertext := ciphertext ?w, authTag := authTag ?w\<rparr>"
  show "rewrapTotpSecret K (salt, ivb) old new st = Inr ?st"
    using assms(4) by (simp add: rewrapTotpSecret_def Let_def)
  have "unwrapTotpSecret K new ?st = unwrapTotpSecret K new ?w"
    by (simp add: unwrapTotpSecret_def)
  then show "unwrapTotpSecret K new ?st = Some secret"
    using unwrap_wrap [OF assms(1-3,5)] by simp
qed simp_all

section \<open>Recovery codes\<close>

lemma alphabet_length [simp]: "length RECOVERY_ALPHABET = 32"
  by (simp add: RECOVERY_ALPHABET_def js_def)

lemma alphabet_chars: "c \<in> set RECOVERY_ALPHABET \<Longrightarrow> c < 128 \<and> c \<noteq> 45 \<and> \<not> js_white c \<and> \<not> (97 \<le> c \<and> c \<le> 122)"
  unfolding RECOVERY_ALPHABET_def js_def js_white_def by (simp only: list.map list.set) auto

lemma chunk_chars: "c \<in> set (randomRecoveryChunk bs) \<Longrightarrow> c \<in> set RECOVERY_ALPHABET"
  by (auto simp: randomRecoveryChunk_def)

lemma chunk_length [simp]: "length (randomRecoveryChunk bs) = 4"
  by (simp add: randomRecoveryChunk_def)

text \<open>Normalising a generated code takes the dash out and nothing else.\<close>

lemma normalize_code:
  "normalizeRecoveryCode K (recovery_code rnd n) = randomRecoveryChunk (rnd (2 * n)) @ randomRecoveryChunk (rnd (2 * n + 1))"
proof -
  let ?cs = "randomRecoveryChunk (rnd (2 * n)) @ randomRecoveryChunk (rnd (2 * n + 1))"
  have cs: "c < 128 \<and> c \<noteq> 45 \<and> \<not> js_white c \<and> \<not> (97 \<le> c \<and> c \<le> 122)" if "c \<in> set ?cs" for c
    using that chunk_chars alphabet_chars by fastforce
  have keep: "filter (\<lambda>u. u \<noteq> 45 \<and> \<not> js_white u) (randomRecoveryChunk bs) = randomRecoveryChunk bs" for bs
    using chunk_chars alphabet_chars by (fastforce simp: filter_id_conv)
  have "filter (\<lambda>u. u \<noteq> 45 \<and> \<not> js_white u) (recovery_code rnd n) = ?cs"
    by (simp add: recovery_code_def keep) (simp add: js_def)
  moreover have "str_upper K ?cs = ?cs"
    unfolding str_upper_def using cs by (auto simp: list_all_iff intro!: map_idI)
  ultimately show ?thesis
    by (simp add: normalizeRecoveryCode_def)
qed

lemma normalize_code_inj:
  assumes "normalizeRecoveryCode K (recovery_code rnd m) = normalizeRecoveryCode K (recovery_code rnd n)"
  shows "recovery_code rnd m = recovery_code rnd n"
  using assms unfolding normalize_code by (simp add: recovery_code_def)

text \<open>The loop keeps the different codes seen so far, and ends as soon as there are enough of them.\<close>

definition seen_codes :: "(nat \<Rightarrow> byte list) \<Rightarrow> nat \<Rightarrow> jstr list \<Rightarrow> bool" where
  "seen_codes rnd n codes \<longleftrightarrow> distinct codes \<and> set codes = recovery_code rnd ` {..<n} \<and> length codes \<le> RECOVERY_CODE_COUNT"

lemma recovery_loop_ends:
  assumes "seen_codes rnd n codes" "RECOVERY_CODE_COUNT \<le> card (recovery_code rnd ` {..<N})"
  shows "\<exists>cs m. recovery_loop rnd n codes = Some cs \<and> seen_codes rnd m cs \<and> length cs = RECOVERY_CODE_COUNT"
  using assms(1)
proof (induction "N - n" arbitrary: n codes rule: less_induct)
  case less
  show ?case
  proof (cases "length codes < RECOVERY_CODE_COUNT")
    case True
    have "n < N"
    proof (rule ccontr)
      assume "\<not> n < N"
      then have "card (recovery_code rnd ` {..<N}) \<le> card (recovery_code rnd ` {..<n})"
        by (intro card_mono image_mono) auto
      moreover have "card (recovery_code rnd ` {..<n}) = length codes"
        using less.prems by (metis distinct_card seen_codes_def)
      ultimately show False using True assms(2) by simp
    qed
    let ?codes = "if recovery_code rnd n \<in> set codes then codes else codes @ [recovery_code rnd n]"
    have "seen_codes rnd (Suc n) ?codes"
      using less.prems True by (auto simp: seen_codes_def lessThan_Suc)
    with less.hyps [of "Suc n" ?codes] \<open>n < N\<close> True show ?thesis
      by (subst recovery_loop.simps) simp
  next
    case False
    with less.prems show ?thesis
      by (subst recovery_loop.simps) (auto simp: seen_codes_def)
  qed
qed

lemma recovery_loop_returns:
  assumes "recovery_loop rnd n codes = Some cs" "seen_codes rnd n codes"
  shows "\<exists>m. seen_codes rnd m cs \<and> length cs = RECOVERY_CODE_COUNT"
proof -
  have "seen_codes rnd n codes \<longrightarrow> (\<exists>m. seen_codes rnd m cs \<and> length cs = RECOVERY_CODE_COUNT)"
  proof (rule recovery_loop.raw_induct [OF _ assms(1)], intro impI)
    fix loop :: "(nat \<Rightarrow> byte list) \<Rightarrow> nat \<Rightarrow> jstr list \<Rightarrow> jstr list option" and rnd n codes cs
    let ?next = "if recovery_code rnd n \<in> set codes then codes else codes @ [recovery_code rnd n]"
    assume IH: "\<And>rnd n codes cs. loop rnd n codes = Some cs \<Longrightarrow>
        seen_codes rnd n codes \<longrightarrow> (\<exists>m. seen_codes rnd m cs \<and> length cs = RECOVERY_CODE_COUNT)"
      and eq: "(if length codes < RECOVERY_CODE_COUNT then loop rnd (Suc n) ?next else Some codes) = Some cs"
      and seen: "seen_codes rnd n codes"
    show "\<exists>m. seen_codes rnd m cs \<and> length cs = RECOVERY_CODE_COUNT"
    proof (cases "length codes < RECOVERY_CODE_COUNT")
      case True
      with seen have "seen_codes rnd (Suc n) ?next"
        by (auto simp: seen_codes_def lessThan_Suc)
      with IH [of rnd "Suc n" ?next cs] True eq show ?thesis by simp
    qed (use eq seen in \<open>auto simp: seen_codes_def\<close>)
  qed
  with assms(2) show ?thesis by simp
qed

lemma seen_codes_start: "seen_codes rnd 0 []"
  by (simp add: seen_codes_def)

lemma generate_returns_iff:
  "(\<exists>codes. generateRecoveryCodes rnd = Some codes) \<longleftrightarrow>
   (\<exists>N. RECOVERY_CODE_COUNT \<le> card (recovery_code rnd ` {..<N}))"
proof
  assume "\<exists>codes. generateRecoveryCodes rnd = Some codes"
  then obtain m cs where "seen_codes rnd m cs" "length cs = RECOVERY_CODE_COUNT"
    using recovery_loop_returns [OF _ seen_codes_start] unfolding generateRecoveryCodes_def by blast
  then show "\<exists>N. RECOVERY_CODE_COUNT \<le> card (recovery_code rnd ` {..<N})"
    by (metis distinct_card order_refl seen_codes_def)
next
  assume "\<exists>N. RECOVERY_CODE_COUNT \<le> card (recovery_code rnd ` {..<N})"
  then show "\<exists>codes. generateRecoveryCodes rnd = Some codes"
    using recovery_loop_ends [OF seen_codes_start] unfolding generateRecoveryCodes_def by blast
qed

lemma generated_codes:
  assumes "generateRecoveryCodes rnd = Some codes"
  shows "length codes = RECOVERY_CODE_COUNT" "distinct codes" "set codes \<subseteq> range (recovery_code rnd)"
  using recovery_loop_returns [OF assms [unfolded generateRecoveryCodes_def] seen_codes_start]
  by (auto simp: seen_codes_def)

lemma find_index_Some:
  "find_index P xs = Some i \<Longrightarrow> \<exists>ys x zs. xs = ys @ x # zs \<and> length ys = i \<and> P x \<and> (\<forall>y\<in>set ys. \<not> P y)"
proof (induction xs arbitrary: i)
  case (Cons a xs)
  show ?case
  proof (cases "P a")
    case True
    with Cons.prems show ?thesis by (intro exI [of _ "[]"]) auto
  next
    case False
    with Cons.prems obtain j where "find_index P xs = Some j" "i = Suc j" by auto
    with Cons.IH False show ?thesis by (metis append_Cons length_Cons set_ConsD)
  qed
qed simp

lemma find_index_None: "find_index P xs = None \<longleftrightarrow> (\<forall>x\<in>set xs. \<not> P x)"
  by (induction xs) auto

text \<open>A code that is accepted takes exactly one hash out of the list: the first one equal to its own.\<close>

lemma consume_Some:
  assumes "consumeRecoveryCode K code hs = Some hs'"
  obtains ys h zs where "hs = ys @ h # zs" "hs' = ys @ zs" "hashesEqual h (hashRecoveryCode K code)"
proof -
  obtain i where i: "find_index (\<lambda>h. hashesEqual h (hashRecoveryCode K code)) hs = Some i"
      "hs' = take i hs @ drop (Suc i) hs"
    using assms by (auto simp: consumeRecoveryCode_def Let_def split: option.splits)
  from find_index_Some [OF i(1)] obtain ys h zs
    where "hs = ys @ h # zs" "length ys = i" "hashesEqual h (hashRecoveryCode K code)" by blast
  with i(2) show thesis by (intro that [of ys h zs]) auto
qed

lemma consume_None:
  "consumeRecoveryCode K code hs = None \<longleftrightarrow> (\<forall>h\<in>set hs. \<not> hashesEqual h (hashRecoveryCode K code))"
  using find_index_None [of "\<lambda>h. hashesEqual h (hashRecoveryCode K code)" hs]
  by (cases "find_index (\<lambda>h. hashesEqual h (hashRecoveryCode K code)) hs") (simp_all add: consumeRecoveryCode_def Let_def)

definition distinct_hashes :: "jstr list \<Rightarrow> bool" where
  "distinct_hashes hs \<longleftrightarrow> distinct (map from_hex hs)"

lemma hashesEqual_from_hex: "hashesEqual a b \<Longrightarrow> from_hex a = from_hex b"
  by (simp add: hashesEqual_def Let_def)

lemma consume_distinct:
  assumes "consumeRecoveryCode K code hs = Some hs'" "distinct_hashes hs"
  shows "distinct_hashes hs'" "consumeRecoveryCode K code hs' = None" "Suc (length hs') = length hs"
    "set hs' \<subseteq> set hs"
proof -
  from assms(1) obtain ys h zs where h: "hs = ys @ h # zs" "hs' = ys @ zs" "hashesEqual h (hashRecoveryCode K code)"
    by (rule consume_Some)
  from h(1,2) assms(2) show "distinct_hashes hs'" "Suc (length hs') = length hs" "set hs' \<subseteq> set hs"
    by (auto simp: distinct_hashes_def)
  show "consumeRecoveryCode K code hs' = None"
    unfolding consume_None
  proof
    fix x
    assume "x \<in> set hs'"
    with h(1,2) assms(2) have "from_hex x \<noteq> from_hex h" by (auto simp: distinct_hashes_def rev_image_eqI)
    with hashesEqual_from_hex h(3) show "\<not> hashesEqual x (hashRecoveryCode K code)" by metis
  qed
qed

text \<open>The hashes of generated codes differ when the hash function takes them apart.\<close>

lemma generated_hashes_distinct:
  assumes "generateRecoveryCodes rnd = Some codes"
    and "inj_on (\<lambda>c. sha256 K (buffer_from_utf8 (normalizeRecoveryCode K c))) (set codes)"
  shows "distinct_hashes (map (hashRecoveryCode K) codes)"
  using generated_codes(2) [OF assms(1)] assms(2)
  by (simp add: distinct_hashes_def hashRecoveryCode_def distinct_map comp_def)

section \<open>Stored states\<close>

definition lower_hex :: "nat \<Rightarrow> jstr \<Rightarrow> bool" where
  "lower_hex n s \<longleftrightarrow> is_hex s \<and> ascii_lower s = s \<and> length s = n"

text \<open>The states the code keeps.\<close>

definition totp_ok :: "totp_state \<Rightarrow> bool" where
  "totp_ok st \<longleftrightarrow> lower_hex 32 (wrapSalt st) \<and> lower_hex 24 (iv st) \<and>
     lower_hex (length (ciphertext st)) (ciphertext st) \<and> even (length (ciphertext st)) \<and> lower_hex 32 (authTag st) \<and>
     list_all (lower_hex 64) (recoveryCodeHashes st) \<and> length (recoveryCodeHashes st) \<le> RECOVERY_CODE_COUNT \<and>
     0 \<le> lastUsedStep st \<and> label st \<noteq> [] \<and> length (label st) \<le> 128"

lemma lower_hex_to_hex [simp]: "lower_hex n (to_hex bs) \<longleftrightarrow> bs \<noteq> [] \<and> n = 2 * length bs"
  by (auto simp: lower_hex_def)

lemma lower_hex_lower: "is_hex s \<Longrightarrow> lower_hex (length s) (ascii_lower s)"
  by (simp add: lower_hex_def)

lemmas wrap_sizes = WRAP_SALT_BYTES_def WRAP_IV_BYTES_def

lemma prepare_totp_ok:
  assumes "prepareTotpStateForRestore v = Inr st"
  shows "totp_ok st"
proof -
  let ?field = "\<lambda>ms k. member_of (JObj ms) (js k)"
  obtain ms where ms: "v = Some (JObj ms)"
    using assms by (cases v; cases "the v") (auto simp: prepareTotpStateForRestore_def)
  note eq = assms [unfolded ms prepareTotpStateForRestore_def Let_def, simplified option.case json.case]
  then have shape: "isWrappedShape (JObj ms)" by (simp split: if_splits)
  then obtain hs where hs: "array_of (?field ms ''recoveryCodeHashes'') = Some hs"
    using eq by (simp split: option.splits)
  then obtain step where step: "integer_of (?field ms ''lastUsedStep'') = Some step"
    using eq shape by (simp split: option.splits if_splits)
  have st: "length hs \<le> RECOVERY_CODE_COUNT" "list_all is_hash hs" "0 \<le> step" "json_text (?field ms ''label'') \<noteq> []"
      "length (json_text (?field ms ''label'')) \<le> 128"
      "st = \<lparr>wrapSalt = ascii_lower (json_text (?field ms ''wrapSalt'')), iv = ascii_lower (json_text (?field ms ''iv'')),
        ciphertext = ascii_lower (json_text (?field ms ''ciphertext'')), authTag = ascii_lower (json_text (?field ms ''authTag'')),
        recoveryCodeHashes = map (\<lambda>h. ascii_lower (json_text (Some h))) hs, lastUsedStep = step, label = json_text (?field ms ''label'')\<rparr>"
    using eq shape hs step by (simp_all add: list_ex_iff list_all_iff split: if_splits option.splits)
  from shape st show ?thesis
    by (simp add: totp_ok_def isWrappedShape_def is_hex_text_def is_hash_def list_all_iff lower_hex_def wrap_sizes
        even_iff_mod_2_eq_zero)
qed

lemma is_hex_Nil [simp]: "\<not> is_hex []"
  by (simp add: is_hex_def)

lemma prepare_totp_json:
  "totp_ok st \<Longrightarrow> prepareTotpStateForRestore (Some (totp_json st)) = Inr st"
  by (cases st) (auto simp: prepareTotpStateForRestore_def totp_ok_def totp_json_def isWrappedShape_def is_hex_text_def
      is_hash_def list_ex_iff list_all_iff lower_hex_def wrap_sizes even_iff_mod_2_eq_zero Let_def unknown_field_def
      totp_fields_def map_idI comp_def)

lemma prepare_json_iff: "prepareTotpStateForRestore (Some (totp_json st)) = Inr st \<longleftrightarrow> totp_ok st"
  using prepare_totp_ok prepare_totp_json by blast

lemma prepare_json_only: "prepareTotpStateForRestore (Some (totp_json st)) = Inr st' \<Longrightarrow>
    st' = st\<lparr>wrapSalt := ascii_lower (wrapSalt st), iv := ascii_lower (iv st), ciphertext := ascii_lower (ciphertext st),
      authTag := ascii_lower (authTag st), recoveryCodeHashes := map ascii_lower (recoveryCodeHashes st)\<rparr>"
  by (cases st) (simp add: prepareTotpStateForRestore_def totp_json_def Let_def comp_def split: if_splits option.splits)

lemma parse_lenient_ok: "parseTotpStateLenient v = Some st \<Longrightarrow> totp_ok st"
  by (auto simp: parseTotpStateLenient_def prepare_totp_ok split: option.splits json.splits sum.splits)

lemma parse_lenient_json: "parseTotpStateLenient (Some (totp_json st)) =
    (case prepareTotpStateForRestore (Some (totp_json st)) of Inl _ \<Rightarrow> None | Inr s \<Rightarrow> Some s)"
  by (simp add: parseTotpStateLenient_def totp_json_def)

text \<open>A label that is too long makes the whole stored second factor unreadable.\<close>

lemma parse_lenient_long_label: "128 < length (label st) \<Longrightarrow> parseTotpStateLenient (Some (totp_json st)) = None"
proof -
  assume long: "128 < length (label st)"
  have "prepareTotpStateForRestore (Some (totp_json st)) \<noteq> Inr s" for s
  proof
    assume eq: "prepareTotpStateForRestore (Some (totp_json st)) = Inr s"
    from prepare_json_only [OF eq] have "label s = label st" by simp
    with prepare_totp_ok [OF eq] long show False by (simp add: totp_ok_def)
  qed
  then show ?thesis by (simp add: parse_lenient_json split: sum.split)
qed

section \<open>What the code relies on\<close>

text \<open>
  Digests have 32 bytes, keys the length asked for, a decrypted text has the length of its ciphertext, bytes
  that are not UTF-8 are replaced and not dropped, the package \<open>otpauth\<close> counts steps of 30 seconds and reports a difference within the
  window, and \<open>aes-256-gcm\<close> is as above.
\<close>

definition crypto_laws :: "crypto \<Rightarrow> bool" where
  "crypto_laws K \<longleftrightarrow> gcm_inverse K \<and>
     (\<forall>key ivb tag ct text. gcm_decrypt K key ivb tag ct = Some text \<longrightarrow> length text = length ct) \<and>
     (\<forall>bs. bs \<noteq> [] \<longrightarrow> lossy_text K bs \<noteq> []) \<and> (\<forall>p salt n. length (scrypt K p salt n) = n) \<and> (\<forall>bs. length (sha256 K bs) = 32) \<and>
     (\<forall>t. otp_counter K t = t div 30000) \<and>
     (\<forall>secret token t w d. otp_validate K secret token t w = Some d \<longrightarrow> \<bar>d\<bar> \<le> int w)"

lemma crypto_lawsD:
  assumes "crypto_laws K"
  shows "gcm_inverse K" "length (sha256 K bs) = 32" "otp_counter K t = t div 30000" "length (scrypt K p salt n) = n"
    "otp_validate K secret token t w = Some d \<Longrightarrow> \<bar>d\<bar> \<le> int w"
    "gcm_decrypt K key ivb tag ct = Some text \<Longrightarrow> length text = length ct" "bs \<noteq> [] \<Longrightarrow> lossy_text K bs \<noteq> []"
  using assms by (auto simp: crypto_laws_def)

lemma verifyTotpCode_step:
  assumes "verifyTotpCode K secret code atMs lastUsed = Some step" "crypto_laws K"
  shows "\<bar>step - atMs div 30000\<bar> \<le> 1" "lastUsed \<noteq> Some step"
  using assms crypto_lawsD(5) [OF assms(2)]
  by (fastforce simp: verifyTotpCode_def Let_def crypto_lawsD(3) TOTP_WINDOW_def split: if_splits option.splits)+

lemma hash_lower_hex: "crypto_laws K \<Longrightarrow> lower_hex 64 (hashRecoveryCode K code)"
  using crypto_lawsD(2) by (auto simp: hashRecoveryCode_def simp flip: length_0_conv)

lemma encode_nonempty: "s \<noteq> [] \<Longrightarrow> buffer_from_utf8 s \<noteq> []"
proof -
  assume "s \<noteq> []"
  then have "code_points s \<noteq> []" by (cases s rule: code_points.cases) simp_all
  moreover have "utf8_encode_cp c \<noteq> []" for c by (simp add: utf8_encode_cp_def)
  ultimately show ?thesis by (cases "code_points s") (simp_all add: buffer_from_utf8_def)
qed

text \<open>The fields a wrapped secret has.\<close>

definition wrapped_ok :: "'a wrapped_secret_scheme \<Rightarrow> bool" where
  "wrapped_ok w \<longleftrightarrow> lower_hex 32 (wrapSalt w) \<and> lower_hex 24 (iv w) \<and>
     lower_hex (length (ciphertext w)) (ciphertext w) \<and> even (length (ciphertext w)) \<and> lower_hex 32 (authTag w)"

lemma wrap_ok:
  assumes "crypto_laws K" "length salt = WRAP_SALT_BYTES" "length ivb = WRAP_IV_BYTES" "secret \<noteq> []"
  shows "wrapped_ok (wrapTotpSecret K (salt, ivb) password secret)"
  using assms crypto_lawsD(1) [OF assms(1), unfolded gcm_inverse_def, rule_format,
      of "deriveWrapKey K password salt" ivb "buffer_from_utf8 secret"] encode_nonempty [of secret]
  by (auto simp: wrapped_ok_def wrapTotpSecret_def Let_def wrap_sizes split: prod.splits)

lemma totp_ok_wrapped: "totp_ok st \<longleftrightarrow> wrapped_ok st \<and> list_all (lower_hex 64) (recoveryCodeHashes st) \<and>
    length (recoveryCodeHashes st) \<le> RECOVERY_CODE_COUNT \<and> 0 \<le> lastUsedStep st \<and> label st \<noteq> [] \<and> length (label st) \<le> 128"
  by (auto simp: totp_ok_def wrapped_ok_def)

section \<open>Accepting a second factor\<close>

text \<open>The two ways to pass: a recovery code whose hash is stored, or a current one-time code other than the last one used.\<close>

inductive passes :: "crypto \<Rightarrow> jstr \<Rightarrow> int \<Rightarrow> jstr option \<Rightarrow> jstr option \<Rightarrow> totp_state \<Rightarrow> totp_state \<Rightarrow> bool"
  for K password atMs totp recovery st where
  passes_recovery: "recovery = Some c \<Longrightarrow> c \<noteq> [] \<Longrightarrow> consumeRecoveryCode K c (recoveryCodeHashes st) = Some hs \<Longrightarrow>
    passes K password atMs totp recovery st (st\<lparr>recoveryCodeHashes := hs\<rparr>)"
| passes_totp: "recovery = None \<or> recovery = Some [] \<Longrightarrow> totp = Some code \<Longrightarrow> unwrapTotpSecret K password st = Some secret \<Longrightarrow>
    verifyTotpCode K secret code atMs (Some (lastUsedStep st)) = Some step \<Longrightarrow>
    passes K password atMs totp recovery st (st\<lparr>lastUsedStep := step\<rparr>)"

lemma verifySecondFactor_passes:
  "verifySecondFactor K password st atMs totp recovery = Some st' \<longleftrightarrow> passes K password atMs totp recovery st st'"
  by (auto simp: verifySecondFactor_def passes.simps split: option.splits list.splits)

lemma passes_nothing [simp]: "\<not> passes K password atMs None None st st'"
  by (simp add: passes.simps)

lemma decide_ok_iff:
  "decideSecondFactorLogin K enabled st password totp recovery atMs = FactorOk r \<longleftrightarrow>
     (if enabled then \<exists>s s'. st = Some s \<and> r = Some s' \<and> passes K password atMs (non_blank totp) (non_blank recovery) s s'
      else r = None)"
proof (cases "enabled \<and> st \<noteq> None")
  case True
  then obtain s where s: "st = Some s" "enabled" by auto
  show ?thesis
  proof (cases "non_blank totp = None \<and> non_blank recovery = None")
    case False
    then show ?thesis
      by (auto simp: decideSecondFactorLogin_def Let_def s simp flip: verifySecondFactor_passes split: option.split)
  qed (simp add: decideSecondFactorLogin_def s)
qed (auto simp: decideSecondFactorLogin_def split: option.split)

lemma passes_frame:
  assumes "passes K password atMs totp recovery st st'"
  shows "label st' = label st" "unwrapTotpSecret K p st' = unwrapTotpSecret K p st"
    "set (recoveryCodeHashes st') \<subseteq> set (recoveryCodeHashes st)"
    "length (recoveryCodeHashes st') \<le> length (recoveryCodeHashes st)"
    "wrapped_ok st' = wrapped_ok st"
  using assms
  by (cases; auto simp: unwrapTotpSecret_def wrapped_ok_def elim!: consume_Some)+

lemma passes_distinct:
  assumes "passes K password atMs totp recovery st st'" "distinct_hashes (recoveryCodeHashes st)"
  shows "distinct_hashes (recoveryCodeHashes st')"
  using assms by cases (auto dest: consume_distinct)

lemma passes_ok:
  assumes "passes K password atMs totp recovery st st'" "totp_ok st" "crypto_laws K" "30000 \<le> atMs"
  shows "totp_ok st'"
proof -
  have "0 \<le> lastUsedStep st'"
    using assms(1)
  proof cases
    case (passes_totp code secret step)
    have "1 \<le> atMs div 30000" using assms(4) by linarith
    with verifyTotpCode_step(1) [OF passes_totp(5) assms(3)] passes_totp(1) show ?thesis by simp
  qed (use assms(2) in \<open>auto simp: totp_ok_def\<close>)
  with passes_frame [OF assms(1)] assms(2) show ?thesis
    by (auto simp: totp_ok_wrapped list_all_iff)
qed

lemma rewrap_ok:
  assumes "rewrapTotpSecret K (salt, ivb) old new st = Inr st'" "totp_ok st" "crypto_laws K"
    and "length salt = WRAP_SALT_BYTES" "length ivb = WRAP_IV_BYTES" "unwrapTotpSecret K old st \<noteq> Some []"
  shows "totp_ok st'"
proof -
  obtain secret where "unwrapTotpSecret K old st = Some secret" "secret \<noteq> []"
    and st': "st' = st\<lparr>wrapSalt := wrapSalt (wrapTotpSecret K (salt, ivb) new secret), iv := iv (wrapTotpSecret K (salt, ivb) new secret),
      ciphertext := ciphertext (wrapTotpSecret K (salt, ivb) new secret), authTag := authTag (wrapTotpSecret K (salt, ivb) new secret)\<rparr>"
    using assms(1,6) by (auto simp: rewrapTotpSecret_def Let_def split: option.splits)
  with wrap_ok [OF assms(3-5), of secret new] assms(2) show ?thesis
    by (simp add: totp_ok_wrapped) (simp add: wrapped_ok_def)
qed

text \<open>A confirmed enrolment.\<close>

lemma confirm_Inr:
  assumes "confirmTotpEnrollment K wr rnd password secret code lbl atMs = Some (Inr (st, codes))"
  obtains step where "verifyTotpCode K secret code atMs None = Some step" "generateRecoveryCodes rnd = Some codes"
    "st = \<lparr>wrapSalt = wrapSalt (wrapTotpSecret K wr password secret), iv = iv (wrapTotpSecret K wr password secret),
       ciphertext = ciphertext (wrapTotpSecret K wr password secret), authTag = authTag (wrapTotpSecret K wr password secret),
       recoveryCodeHashes = map (hashRecoveryCode K) codes, lastUsedStep = step, label = lbl\<rparr>"
  using assms by (auto simp: confirmTotpEnrollment_def Let_def split: option.splits)

lemma confirm_ok:
  assumes "confirmTotpEnrollment K (salt, ivb) rnd password secret code lbl atMs = Some (Inr (st, codes))"
    and "crypto_laws K" "length salt = WRAP_SALT_BYTES" "length ivb = WRAP_IV_BYTES" "secret \<noteq> []" "30000 \<le> atMs"
  shows "totp_ok st \<longleftrightarrow> lbl \<noteq> [] \<and> length lbl \<le> 128"
proof -
  obtain step where step: "verifyTotpCode K secret code atMs None = Some step" "generateRecoveryCodes rnd = Some codes"
    and st: "st = \<lparr>wrapSalt = wrapSalt (wrapTotpSecret K (salt, ivb) password secret), iv = iv (wrapTotpSecret K (salt, ivb) password secret),
       ciphertext = ciphertext (wrapTotpSecret K (salt, ivb) password secret), authTag = authTag (wrapTotpSecret K (salt, ivb) password secret),
       recoveryCodeHashes = map (hashRecoveryCode K) codes, lastUsedStep = step, label = lbl\<rparr>"
    using assms(1) by (rule confirm_Inr)
  have "1 \<le> atMs div 30000" using assms(6) by linarith
  with verifyTotpCode_step(1) [OF step(1) assms(2)] have "0 \<le> step" by linarith
  moreover have "wrapped_ok st" using wrap_ok [OF assms(2-5), of password] by (simp add: st wrapped_ok_def)
  moreover have "list_all (lower_hex 64) (recoveryCodeHashes st)"
    using hash_lower_hex [OF assms(2)] by (simp add: st list_all_iff)
  ultimately show ?thesis
    using generated_codes(1) [OF step(2)] by (auto simp: totp_ok_wrapped st)
qed

lemma confirm_unwraps:
  assumes "confirmTotpEnrollment K (salt, ivb) rnd password secret code lbl atMs = Some (Inr (st, codes))"
    and "gcm_inverse K" "length salt = WRAP_SALT_BYTES" "length ivb = WRAP_IV_BYTES" "well_formed secret"
  shows "unwrapTotpSecret K password st = Some secret"
proof -
  let ?w = "wrapTotpSecret K (salt, ivb) password secret"
  have "wrapSalt st = wrapSalt ?w" "iv st = iv ?w" "ciphertext st = ciphertext ?w" "authTag st = authTag ?w"
    using assms(1) by (auto elim!: confirm_Inr)
  then have "unwrapTotpSecret K password st = unwrapTotpSecret K password ?w"
    by (simp add: unwrapTotpSecret_def)
  then show ?thesis by (simp only: unwrap_wrap [OF assms(2-5)])
qed

text \<open>A stored secret is never empty, whatever the password.\<close>

lemma utf8_text_nonempty:
  assumes "bs \<noteq> []" "crypto_laws K"
  shows "utf8_text K bs \<noteq> []"
proof (cases "utf8_decode bs")
  case (Some cs)
  with assms(1) have "cs \<noteq> []"
    by (cases bs rule: utf8_decode.cases) (auto split: if_splits list.splits)
  moreover have "utf16_of_cp c \<noteq> []" for c by (simp add: utf16_of_cp_def)
  ultimately show ?thesis using Some by (cases cs) (simp_all add: utf8_text_def)
qed (use assms crypto_lawsD(7) in \<open>simp add: utf8_text_def\<close>)

lemma from_hex_nonempty: "is_hex s \<Longrightarrow> even (length s) \<Longrightarrow> from_hex s \<noteq> []"
  by (cases s rule: from_hex.cases) (auto simp: is_hex_def)

lemma unwrap_nonempty:
  assumes "totp_ok t" "crypto_laws K"
  shows "unwrapTotpSecret K p t \<noteq> Some []"
proof
  assume "unwrapTotpSecret K p t = Some []"
  then obtain plain where plain: "gcm_decrypt K (deriveWrapKey K p (from_hex (wrapSalt t))) (from_hex (iv t)) (from_hex (authTag t))
      (from_hex (ciphertext t)) = Some plain" "utf8_text K plain = []"
    by (auto simp: unwrapTotpSecret_def Let_def split: if_splits)
  from assms(1) have "from_hex (ciphertext t) \<noteq> []"
    by (intro from_hex_nonempty) (auto simp: totp_ok_def lower_hex_def)
  with crypto_lawsD(6) [OF assms(2) plain(1)] have "plain \<noteq> []" by auto
  with utf8_text_nonempty [OF _ assms(2)] plain(2) show False by blast
qed

end
