(* ===== verification/Webui_Auth.thy ===== *)
theory Webui_Auth
  imports Webui_Totp
begin

text \<open>
  The credentials of the web interface, packages/core/src/webui/auth.ts: the rules for passwords, the state
  file config/webui.json with its validation, and the class \<open>WebuiAuth\<close>.  Random bytes, the time and what
  the file system answers are arguments; a failed write leaves the file as it was.
\<close>

section \<open>Password rules\<close>

text \<open>\<open>/[^A-Za-z0-9\s]/\<close>.\<close>

definition special_char :: "nat \<Rightarrow> bool" where
  "special_char c \<longleftrightarrow> \<not> (65 \<le> c \<and> c \<le> 90 \<or> 97 \<le> c \<and> c \<le> 122 \<or> 48 \<le> c \<and> c \<le> 57 \<or> js_white c)"

definition PASSWORD_RULES :: "(jstr \<times> jstr \<times> (jstr \<Rightarrow> bool)) list" where
  "PASSWORD_RULES = [
     (js ''length'', [0x957f, 0x5ea6, 0x4e0d, 0x5c11, 0x4e8e, 0x20, 0x31, 0x30, 0x20, 0x4f4d], \<lambda>p. length p \<ge> 10),
     (js ''lower'', [0x5305, 0x542b, 0x5c0f, 0x5199, 0x5b57, 0x6bcd], \<lambda>p. list_ex (\<lambda>c. 97 \<le> c \<and> c \<le> 122) p),
     (js ''upper'', [0x5305, 0x542b, 0x5927, 0x5199, 0x5b57, 0x6bcd], \<lambda>p. list_ex (\<lambda>c. 65 \<le> c \<and> c \<le> 90) p),
     (js ''special'', [0x5305, 0x542b, 0x7279, 0x6b8a, 0x7b26, 0x53f7, 0x20, 0x28, 0x21, 0x40, 0x23, 0x24, 0x25, 0x2026, 0x29], \<lambda>p. list_ex special_char p),
     (js ''no-space'', [0x4e0d, 0x5305, 0x542b, 0x7a7a, 0x683c], \<lambda>p. \<not> list_ex js_white p \<and> length p > 0)]"

definition evaluatePasswordRules :: "jstr \<Rightarrow> (jstr \<times> jstr \<times> bool) list" where
  "evaluatePasswordRules password = map (\<lambda>(i, lbl, test). (i, lbl, test password)) PASSWORD_RULES"

definition isStrongPassword :: "jstr \<Rightarrow> bool" where
  "isStrongPassword password = list_all (\<lambda>(i, lbl, test). test password) PASSWORD_RULES"

section \<open>State\<close>

record auth_state =
  passwordHash :: jstr
  passwordSalt :: jstr
  mustChange :: bool
  generatedAt :: jstr
  updatedAt :: jstr
  auth_totp :: "totp_state option"

datatype auth_error =
    StateNotObject | BadPasswordHash | BadPasswordSalt | BadMustChange | BadGeneratedAt | BadUpdatedAt
  | UnknownAuthField jstr | BadTotp totp_error
  | DevModeRefuses | WeakPassword | NeedsCurrentPassword | WriteFailed

definition SCRYPT_KEYLEN :: nat where "SCRYPT_KEYLEN = 64"
definition DEV_PASSWORD :: jstr where "DEV_PASSWORD = js ''snowluma-dev''"

definition hashPassword :: "crypto \<Rightarrow> jstr \<Rightarrow> byte list \<Rightarrow> byte list" where
  "hashPassword K password salt = scrypt K password salt SCRYPT_KEYLEN"

definition envBootstrapPassword :: "jstr option \<Rightarrow> jstr option" where
  "envBootstrapPassword raw = (case raw of None \<Rightarrow> None | Some p \<Rightarrow> if p = [] then None else if length p < 8 then None else Some p)"

fun bool_of :: "json option \<Rightarrow> bool option" where
  "bool_of (Some (JBool b)) = Some b"
| "bool_of _ = None"

definition auth_fields :: "jstr list" where
  "auth_fields = [js ''passwordHash'', js ''passwordSalt'', js ''mustChangePassword'', js ''generatedAt'', js ''updatedAt'', js ''totp'']"

definition prepareWebuiAuthStateForRestore :: "crypto \<Rightarrow> json \<Rightarrow> auth_error + auth_state" where
  "prepareWebuiAuthStateForRestore K value =
     (if \<not> is_object value then Inl StateNotObject
      else let h = member_of value (js ''passwordHash''); s = member_of value (js ''passwordSalt'');
          g = member_of value (js ''generatedAt''); u = member_of value (js ''updatedAt'') in
        if \<not> (is_hex_text h \<and> length (json_text h) = 128) then Inl BadPasswordHash
        else if \<not> (is_hex_text s \<and> length (json_text s) = 32) then Inl BadPasswordSalt
        else (case bool_of (member_of value (js ''mustChangePassword'')) of
          None \<Rightarrow> Inl BadMustChange
        | Some b \<Rightarrow>
            if \<not> (is_string g \<and> date_ok K (json_text g)) then Inl BadGeneratedAt
            else if \<not> (is_string u \<and> date_ok K (json_text u)) then Inl BadUpdatedAt
            else (case unknown_field auth_fields value of
              Some k \<Rightarrow> Inl (UnknownAuthField k)
            | None \<Rightarrow>
                let state = \<lparr>passwordHash = json_text h, passwordSalt = json_text s, mustChange = b,
                    generatedAt = json_text g, updatedAt = json_text u, auth_totp = None\<rparr> in
                case member_of value (js ''totp'') of
                  None \<Rightarrow> Inr state
                | Some t \<Rightarrow> (case prepareTotpStateForRestore (Some t) of
                    Inl e \<Rightarrow> Inl (BadTotp e)
                  | Inr st \<Rightarrow> Inr (state\<lparr>auth_totp := Some st\<rparr>)))))"

definition parseLiveAuthState :: "crypto \<Rightarrow> json \<Rightarrow> auth_state option" where
  "parseLiveAuthState K value =
     (if \<not> is_object value then None
      else let totpValue = member_of value (js ''totp'');
          withoutTotp = JObj (filter (\<lambda>(k, v). k \<noteq> js ''totp'') (members value)) in
        case prepareWebuiAuthStateForRestore K (if totpValue \<noteq> None then withoutTotp else value) of
          Inl _ \<Rightarrow> None
        | Inr state \<Rightarrow> (case parseTotpStateLenient totpValue of
            None \<Rightarrow> Some state
          | Some t \<Rightarrow> Some (state\<lparr>auth_totp := Some t\<rparr>)))"

text \<open>A state made from a password: of a first start, and of the other ways to start.\<close>

definition password_state :: "crypto \<Rightarrow> jstr \<Rightarrow> byte list \<Rightarrow> jstr \<Rightarrow> bool \<Rightarrow> auth_state" where
  "password_state K password salt now must =
     \<lparr>passwordHash = to_hex (hashPassword K password salt), passwordSalt = to_hex salt, mustChange = must,
      generatedAt = now, updatedAt = now, auth_totp = None\<rparr>"

definition generateInitialState :: "crypto \<Rightarrow> jstr \<Rightarrow> byte list \<Rightarrow> jstr \<Rightarrow> auth_state" where
  "generateInitialState K initialPassword salt now = password_state K initialPassword salt now True"

text \<open>\<open>JSON.stringify(state)\<close>.\<close>

definition auth_json :: "auth_state \<Rightarrow> json" where
  "auth_json st = JObj ([(js ''passwordHash'', JStr (passwordHash st)), (js ''passwordSalt'', JStr (passwordSalt st)),
     (js ''mustChangePassword'', JBool (mustChange st)), (js ''generatedAt'', JStr (generatedAt st)),
     (js ''updatedAt'', JStr (updatedAt st))] @
     (case auth_totp st of None \<Rightarrow> [] | Some t \<Rightarrow> [(js ''totp'', totp_json t)]))"

section \<open>The file\<close>

datatype config_file = NoFile | Unparsable | Holds json

text \<open>\<open>atomicWrite\<close>: whether it throws, and the file afterwards.\<close>

definition atomicWrite :: "bool \<Rightarrow> auth_state \<Rightarrow> config_file \<Rightarrow> bool \<times> config_file" where
  "atomicWrite ok state f = (if ok then (True, Holds (auth_json state)) else (False, f))"

definition backupCorruptConfig :: "bool \<Rightarrow> config_file \<Rightarrow> config_file" where
  "backupCorruptConfig renamed f = (if renamed then NoFile else f)"

section \<open>\<open>WebuiAuth\<close>\<close>

record webui_auth =
  auth_state :: auth_state
  initialPlain :: "jstr option"
  devMode :: bool

text \<open>
  What a start is given: the two environment variables, the random bytes and the time each state is made
  with, and whether the two writes and the renaming succeed.
\<close>

record start_env =
  se_dev :: bool
  se_bootstrap :: "jstr option"
  se_rotate :: "byte list \<times> byte list \<times> jstr"       \<comment> \<open>password bytes, salt, time\<close>
  se_first :: "byte list \<times> byte list \<times> jstr"
  se_renamed :: bool
  se_write1 :: bool
  se_write2 :: bool

definition load_fresh :: "crypto \<Rightarrow> start_env \<Rightarrow> config_file \<Rightarrow> (auth_error + webui_auth) \<times> config_file" where
  "load_fresh K e f = (case se_first e of (pwd, salt, now) \<Rightarrow>
     (case envBootstrapPassword (se_bootstrap e) of
        Some p \<Rightarrow>
          let state = password_state K p salt now False in
          (case atomicWrite (se_write2 e) state f of (ok, f') \<Rightarrow>
            (if ok then Inr \<lparr>auth_state = state, initialPlain = None, devMode = False\<rparr> else Inl WriteFailed, f'))
      | None \<Rightarrow>
          let state = generateInitialState K (to_hex pwd) salt now in
          (case atomicWrite (se_write2 e) state f of (ok, f') \<Rightarrow>
            (if ok then Inr \<lparr>auth_state = state, initialPlain = Some (to_hex pwd), devMode = False\<rparr> else Inl WriteFailed, f'))))"

definition WebuiAuth_load :: "crypto \<Rightarrow> start_env \<Rightarrow> config_file \<Rightarrow> (auth_error + webui_auth) \<times> config_file" where
  "WebuiAuth_load K e f =
     (if se_dev e then (case se_first e of (_, salt, now) \<Rightarrow>
        (Inr \<lparr>auth_state = password_state K DEV_PASSWORD salt now False, initialPlain = None, devMode = True\<rparr>, f))
      else case f of
        NoFile \<Rightarrow> load_fresh K e f
      | Unparsable \<Rightarrow> load_fresh K e (backupCorruptConfig (se_renamed e) f)
      | Holds j \<Rightarrow>
          (case parseLiveAuthState K j of
             None \<Rightarrow> load_fresh K e (backupCorruptConfig (se_renamed e) f)
           | Some live \<Rightarrow>
               if mustChange live then
                 (case se_rotate e of (pwd, salt, now) \<Rightarrow>
                   let state = generateInitialState K (to_hex pwd) salt now in
                   case atomicWrite (se_write1 e) state f of (ok, f') \<Rightarrow>
                     if ok then (Inr \<lparr>auth_state = state, initialPlain = Some (to_hex pwd), devMode = False\<rparr>, f')
                     else load_fresh K e (backupCorruptConfig (se_renamed e) f'))
               else (Inr \<lparr>auth_state = live, initialPlain = None, devMode = False\<rparr>, f)))"

definition takeInitialPassword :: "webui_auth \<Rightarrow> jstr option \<times> webui_auth" where
  "takeInitialPassword a = (initialPlain a, a\<lparr>initialPlain := None\<rparr>)"

definition mustChangePassword :: "webui_auth \<Rightarrow> bool" where
  "mustChangePassword a = mustChange (auth_state a)"

definition verify :: "crypto \<Rightarrow> webui_auth \<Rightarrow> jstr \<Rightarrow> bool" where
  "verify K a password = (if password = [] then False
     else let salt = from_hex (passwordSalt (auth_state a)); expected = from_hex (passwordHash (auth_state a));
            got = hashPassword K password salt in
       if length got \<noteq> length expected then False else got = expected)"

text \<open>\<open>salt\<close>, \<open>wr\<close>, \<open>now\<close> and \<open>ok\<close>: the random bytes, the time, and whether the write succeeds.\<close>

definition setPassword ::
    "crypto \<Rightarrow> byte list \<Rightarrow> byte list \<times> byte list \<Rightarrow> jstr \<Rightarrow> bool \<Rightarrow> jstr \<Rightarrow> jstr option \<Rightarrow>
     webui_auth \<times> config_file \<Rightarrow> (auth_error + unit) \<times> webui_auth \<times> config_file" where
  "setPassword K salt wr now ok newPassword currentPassword s = (case s of (a, f) \<Rightarrow>
     if devMode a then (Inl DevModeRefuses, s)
     else if \<not> isStrongPassword newPassword then (Inl WeakPassword, s)
     else
       let totp = (case auth_totp (auth_state a) of
           None \<Rightarrow> Inr None
         | Some t \<Rightarrow>
             if currentPassword = None \<or> currentPassword = Some [] then Inl NeedsCurrentPassword
             else (case rewrapTotpSecret K wr (the currentPassword) newPassword t of
               Inl e \<Rightarrow> Inl (BadTotp e)
             | Inr t' \<Rightarrow> Inr (Some t'))) in
       case totp of
         Inl e \<Rightarrow> (Inl e, s)
       | Inr t \<Rightarrow>
           let next = \<lparr>passwordHash = to_hex (hashPassword K newPassword salt), passwordSalt = to_hex salt, mustChange = False,
               generatedAt = generatedAt (auth_state a), updatedAt = now, auth_totp = t\<rparr> in
           case atomicWrite ok next f of (written, f') \<Rightarrow>
             if written then (Inr (), a\<lparr>auth_state := next\<rparr>, f') else (Inl WriteFailed, a, f'))"

definition totpEnabled :: "webui_auth \<Rightarrow> bool" where
  "totpEnabled a \<longleftrightarrow> auth_totp (auth_state a) \<noteq> None"

definition totpStatus :: "webui_auth \<Rightarrow> (nat \<times> jstr) option" where
  "totpStatus a = map_option (\<lambda>t. (length (recoveryCodeHashes t), label t)) (auth_totp (auth_state a))"

definition totpState :: "webui_auth \<Rightarrow> totp_state option" where
  "totpState a = auth_totp (auth_state a)"

definition persistTotp ::
    "jstr \<Rightarrow> bool \<Rightarrow> totp_state option \<Rightarrow> webui_auth \<times> config_file \<Rightarrow> (auth_error + unit) \<times> webui_auth \<times> config_file" where
  "persistTotp now ok totp s = (case s of (a, f) \<Rightarrow>
     if devMode a then (Inl DevModeRefuses, s)
     else let next = (auth_state a)\<lparr>updatedAt := now, auth_totp := totp\<rparr> in
       case atomicWrite ok next f of (written, f') \<Rightarrow>
         if written then (Inr (), a\<lparr>auth_state := next\<rparr>, f') else (Inl WriteFailed, a, f'))"

section \<open>Reading back what was written\<close>

definition credential_ok :: "crypto \<Rightarrow> auth_state \<Rightarrow> bool" where
  "credential_ok K st \<longleftrightarrow> is_hex (passwordHash st) \<and> length (passwordHash st) = 128 \<and>
     is_hex (passwordSalt st) \<and> length (passwordSalt st) = 32 \<and> date_ok K (generatedAt st) \<and> date_ok K (updatedAt st)"

definition auth_ok :: "crypto \<Rightarrow> auth_state \<Rightarrow> bool" where
  "auth_ok K st \<longleftrightarrow> credential_ok K st \<and> pred_option totp_ok (auth_totp st)"

lemma prepare_auth_ok:
  assumes "prepareWebuiAuthStateForRestore K v = Inr st"
  shows "auth_ok K st"
proof -
  note eq = assms [unfolded prepareWebuiAuthStateForRestore_def Let_def]
  then have fields: "is_object v" "is_hex_text (member_of v (js ''passwordHash''))" "length (json_text (member_of v (js ''passwordHash''))) = 128"
      "is_hex_text (member_of v (js ''passwordSalt''))" "length (json_text (member_of v (js ''passwordSalt''))) = 32"
    by (simp_all split: if_splits)
  with eq show ?thesis
    by (auto simp: auth_ok_def credential_ok_def is_hex_text_def prepare_totp_ok split: option.splits if_splits sum.splits)
qed

lemma parse_live_ok:
  assumes "parseLiveAuthState K v = Some st"
  shows "auth_ok K st"
  using assms prepare_auth_ok parse_lenient_ok
  by (fastforce simp: parseLiveAuthState_def Let_def auth_ok_def credential_ok_def split: if_splits option.splits sum.splits)

lemma prepare_auth_json:
  assumes "auth_ok K st"
  shows "prepareWebuiAuthStateForRestore K (auth_json st) = Inr st"
proof (cases "auth_totp st")
  case None
  with assms show ?thesis
    by (simp add: prepareWebuiAuthStateForRestore_def auth_json_def auth_ok_def credential_ok_def is_hex_text_def
        unknown_field_def auth_fields_def)
next
  case (Some t)
  with assms have "prepareTotpStateForRestore (Some (totp_json t)) = Inr t"
    by (simp add: auth_ok_def prepare_totp_json)
  with assms Some show ?thesis
    by (simp add: prepareWebuiAuthStateForRestore_def auth_json_def auth_ok_def credential_ok_def is_hex_text_def
        unknown_field_def auth_fields_def)
qed

text \<open>After a restart the credentials are the same, and the second factor is what its own reader makes of it.\<close>

definition restored_totp :: "totp_state option \<Rightarrow> totp_state option" where
  "restored_totp t = (case t of None \<Rightarrow> None | Some st \<Rightarrow> parseTotpStateLenient (Some (totp_json st)))"

lemma parse_live_json:
  assumes "credential_ok K st"
  shows "parseLiveAuthState K (auth_json st) = Some (st\<lparr>auth_totp := restored_totp (auth_totp st)\<rparr>)"
proof -
  have plain: "prepareWebuiAuthStateForRestore K (auth_json (st\<lparr>auth_totp := None\<rparr>)) = Inr (st\<lparr>auth_totp := None\<rparr>)"
    using assms by (intro prepare_auth_json) (simp add: auth_ok_def credential_ok_def)
  show ?thesis
  proof (cases "auth_totp st")
    case None
    then have st: "st\<lparr>auth_totp := None\<rparr> = st" by simp
    have "is_object (auth_json st)" "member_of (auth_json st) (js ''totp'') = None"
      by (simp_all add: auth_json_def None)
    with plain None show ?thesis
      by (simp add: parseLiveAuthState_def restored_totp_def parseTotpStateLenient_def st)
  next
    case (Some t)
    have "JObj (filter (\<lambda>(k, v). k \<noteq> js ''totp'') (members (auth_json st))) = auth_json (st\<lparr>auth_totp := None\<rparr>)"
      by (simp add: auth_json_def Some)
    moreover have "member_of (auth_json st) (js ''totp'') = Some (totp_json t)" "is_object (auth_json st)"
      by (simp_all add: auth_json_def Some)
    ultimately show ?thesis
      using plain Some by (simp add: parseLiveAuthState_def restored_totp_def split: option.split)
  qed
qed

lemma restored_totp_ok: "pred_option totp_ok t \<Longrightarrow> restored_totp t = t"
  by (cases t) (simp_all add: restored_totp_def parse_lenient_json prepare_totp_json)

lemma parse_live_auth_json:
  assumes "auth_ok K st"
  shows "parseLiveAuthState K (auth_json st) = Some st"
  using assms parse_live_json [of K st] by (simp add: auth_ok_def restored_totp_ok)

section \<open>Passwords\<close>

lemma rotated_state_ok:
  assumes "crypto_laws K" "length salt = 16" "date_ok K now"
  shows "auth_ok K (password_state K password salt now must)"
  using assms crypto_lawsD(4) [OF assms(1)]
  by (auto simp: auth_ok_def credential_ok_def password_state_def hashPassword_def SCRYPT_KEYLEN_def simp flip: length_0_conv)

lemma verify_iff: "verify K a p \<longleftrightarrow> p \<noteq> [] \<and>
    hashPassword K p (from_hex (passwordSalt (auth_state a))) = from_hex (passwordHash (auth_state a))"
  by (auto simp: verify_def Let_def)

lemma strong_nonempty: "isStrongPassword p \<Longrightarrow> p \<noteq> []"
  by (auto simp: isStrongPassword_def PASSWORD_RULES_def)

text \<open>The two operations that change the state: either nothing changes, or the new state is in memory and in the file.\<close>

lemma setPassword_cases:
  assumes "setPassword K salt wr now ok new cur (a, f) = (r, a', f')"
  obtains (failed) e where "r = Inl e" "a' = a" "f' = f"
  | (changed) t where "r = Inr ()" "\<not> devMode a" "isStrongPassword new" "ok"
      "a' = a\<lparr>auth_state := \<lparr>passwordHash = to_hex (hashPassword K new salt), passwordSalt = to_hex salt, mustChange = False,
               generatedAt = generatedAt (auth_state a), updatedAt = now, auth_totp = t\<rparr>\<rparr>"
      "f' = Holds (auth_json (auth_state a'))"
      "(auth_totp (auth_state a) = None \<and> t = None) \<or> (\<exists>u p t'. auth_totp (auth_state a) = Some u \<and> cur = Some p \<and>
          rewrapTotpSecret K wr p new u = Inr t' \<and> t = Some t')"
  using assms
  by (auto simp: setPassword_def Let_def atomicWrite_def split: if_splits option.splits sum.splits)

lemma persistTotp_cases:
  assumes "persistTotp now ok t (a, f) = (r, a', f')"
  obtains (failed) e where "r = Inl e" "a' = a" "f' = f"
  | (changed) "r = Inr ()" "\<not> devMode a" "ok" "a' = a\<lparr>auth_state := (auth_state a)\<lparr>updatedAt := now, auth_totp := t\<rparr>\<rparr>"
      "f' = Holds (auth_json (auth_state a'))"
  using assms by (auto simp: persistTotp_def Let_def atomicWrite_def split: if_splits)

section \<open>Starting\<close>

definition start_ok :: "crypto \<Rightarrow> start_env \<Rightarrow> bool" where
  "start_ok K e \<longleftrightarrow> (\<forall>(pwd, salt, now)\<in>{se_rotate e, se_first e}. length pwd = 8 \<and> length salt = 16 \<and> date_ok K now)"

text \<open>What is in memory is what the next start reads from the file.\<close>

definition durable :: "crypto \<Rightarrow> webui_auth \<times> config_file \<Rightarrow> bool" where
  "durable K s \<longleftrightarrow> (case s of (a, f) \<Rightarrow> devMode a \<or> (\<exists>j. f = Holds j \<and> parseLiveAuthState K j = Some (auth_state a)))"

lemma durable_written:
  "auth_ok K (auth_state a) \<Longrightarrow> durable K (a, Holds (auth_json (auth_state a)))"
  by (simp add: durable_def parse_live_auth_json)

lemma verify_password_state:
  "password \<noteq> [] \<Longrightarrow> verify K \<lparr>auth_state = password_state K password salt now must, initialPlain = p, devMode = d\<rparr> password"
  by (simp add: verify_iff password_state_def)

definition start_promise :: "crypto \<Rightarrow> webui_auth \<times> config_file \<Rightarrow> bool" where
  "start_promise K s \<longleftrightarrow> (case s of (a, f) \<Rightarrow> auth_ok K (auth_state a) \<and> durable K s \<and>
     (mustChangePassword a \<longrightarrow> (\<exists>p. initialPlain a = Some p \<and> verify K a p)))"

lemma mustChange_password_state [simp]: "mustChange (password_state K password salt now must) = must"
  by (simp add: password_state_def)

lemma written_promise:
  assumes "crypto_laws K" "length salt = 16" "date_ok K now" "must \<longrightarrow> ip = Some password \<and> password \<noteq> []"
  shows "start_promise K (\<lparr>auth_state = password_state K password salt now must, initialPlain = ip, devMode = False\<rparr>,
    Holds (auth_json (password_state K password salt now must)))"
  using assms rotated_state_ok [OF assms(1-3), of password must]
  by (simp add: start_promise_def mustChangePassword_def durable_def parse_live_auth_json verify_password_state)

lemma load_fresh_promise:
  assumes "load_fresh K e f = (Inr a, f')" "start_ok K e" "crypto_laws K"
  shows "start_promise K (a, f')"
proof -
  obtain pwd salt now where e: "se_first e = (pwd, salt, now)" by (cases "se_first e")
  with assms(2) have rnd: "length pwd = 8" "length salt = 16" "date_ok K now" by (auto simp: start_ok_def)
  have "to_hex pwd \<noteq> []" using rnd(1) by (cases pwd) auto
  with assms(1) e show ?thesis
    by (auto simp: load_fresh_def Let_def atomicWrite_def generateInitialState_def
        intro!: written_promise [OF assms(3) rnd(2,3)] split: option.splits if_splits)
qed

lemma load_promise:
  assumes "WebuiAuth_load K e f = (Inr a, f')" "start_ok K e" "crypto_laws K"
  shows "start_promise K (a, f')"
proof (cases "se_dev e")
  case True
  obtain pwd salt now where e: "se_first e = (pwd, salt, now)" by (cases "se_first e")
  with assms(2) have "length salt = 16" "date_ok K now" by (auto simp: start_ok_def)
  with assms(1) True e rotated_state_ok [OF assms(3)] show ?thesis
    by (auto simp: WebuiAuth_load_def start_promise_def durable_def mustChangePassword_def)
next
  case False
  show ?thesis
  proof (cases "\<exists>g. WebuiAuth_load K e f = load_fresh K e g")
    case True
    with load_fresh_promise assms show ?thesis by metis
  next
    case fresh: False
    from fresh False obtain j live where f: "f = Holds j" "parseLiveAuthState K j = Some live"
      by (cases f) (auto simp: WebuiAuth_load_def split: option.splits)
    obtain pwd salt now where e: "se_rotate e = (pwd, salt, now)" by (cases "se_rotate e")
    with assms(2) have rnd: "length pwd = 8" "length salt = 16" "date_ok K now" by (auto simp: start_ok_def)
    have "to_hex pwd \<noteq> []" using rnd(1) by (cases pwd) auto
    moreover have "load_fresh K e g \<noteq> (Inr a, f')" for g using fresh assms(1) by metis
    ultimately show ?thesis using False f e assms(1) parse_live_ok [OF f(2)] written_promise [OF assms(3) rnd(2,3), of True]
      by (cases "mustChange live") (auto simp: WebuiAuth_load_def Let_def atomicWrite_def generateInitialState_def
          start_promise_def [of _ "(_, Holds j)"] durable_def mustChangePassword_def split: if_splits)
  qed
qed

lemma load_returns:
  assumes "se_write2 e"
  shows "\<exists>a f'. WebuiAuth_load K e f = (Inr a, f')"
proof -
  have "\<exists>a f'. load_fresh K e g = (Inr a, f')" for g
    using assms by (auto simp: load_fresh_def Let_def atomicWrite_def split: option.splits prod.splits)
  then show ?thesis
    by (auto simp: WebuiAuth_load_def Let_def split: config_file.splits option.splits prod.splits)
qed

text \<open>A restart gives back the credentials in use.\<close>

lemma restart_same:
  assumes "durable K (a, f)" "\<not> devMode a" "\<not> mustChangePassword a" "\<not> se_dev e"
  shows "WebuiAuth_load K e f = (Inr \<lparr>auth_state = auth_state a, initialPlain = None, devMode = False\<rparr>, f)"
  using assms by (auto simp: durable_def WebuiAuth_load_def mustChangePassword_def)

lemma persist_durable:
  assumes "persistTotp now ok t (a, f) = (r, a', f')" "durable K (a, f)" "auth_ok K (auth_state a)"
    and "date_ok K now" "pred_option totp_ok t"
  shows "durable K (a', f')" "auth_ok K (auth_state a')"
  using assms(1)
  by (cases rule: persistTotp_cases; use assms(2-) in \<open>auto simp: durable_def parse_live_auth_json auth_ok_def credential_ok_def\<close>)+

lemma setPassword_durable:
  assumes "setPassword K salt (wsalt, ivb) now ok new cur (a, f) = (r, a', f')" "durable K (a, f)" "auth_ok K (auth_state a)"
    and "crypto_laws K" "date_ok K now" "length salt = 16" "length wsalt = WRAP_SALT_BYTES" "length ivb = WRAP_IV_BYTES"
  shows "durable K (a', f')" "auth_ok K (auth_state a')"
proof -
  have "auth_ok K (auth_state a') \<and> durable K (a', f')"
    using assms(1)
  proof (cases rule: setPassword_cases)
    case (changed t)
    have "pred_option totp_ok t"
      using changed(7) assms(3) rewrap_ok [OF _ _ assms(4,7,8)] unwrap_nonempty [OF _ assms(4)] by (auto simp: auth_ok_def)
    moreover have "credential_ok K (auth_state a')"
      using changed(5) assms(3,5,6) crypto_lawsD(4) [OF assms(4)]
      by (auto simp: auth_ok_def credential_ok_def hashPassword_def SCRYPT_KEYLEN_def simp flip: length_0_conv)
    ultimately have "auth_ok K (auth_state a')" using changed(5) by (simp add: auth_ok_def)
    with durable_written changed(6) show ?thesis by simp
  qed (use assms(2,3) in auto)
  then show "durable K (a', f')" "auth_ok K (auth_state a')" by auto
qed

end
