(* ===== verification/Webui_Login.thy ===== *)
theory Webui_Login
  imports Webui_Auth
begin

text \<open>
  Logging in to the web interface: packages/core/src/webui/webui-login.ts, the session token of
  request-security.ts, and of server.ts the session gate, the login route and the routes for the password and
  the second factor.  A request is served in two steps when its handler waits for the body: the part before
  \<open>await c.req.json()\<close>, which runs at once with the gate, and the part after it.  Between them other
  requests are served.
\<close>

section \<open>\<open>webui-login.ts\<close>\<close>

record login_auth =
  la_verify :: "jstr \<Rightarrow> bool"
  la_totpEnabled :: bool
  la_totpState :: "totp_state option"
  la_mustChangePassword :: bool

datatype login_result =
    BadRequest | BadPassword | LoginNeedsTotp | LoginBadFactor
  | LoginOk bool "totp_state option"

definition readString :: "json option \<Rightarrow> jstr" where
  "readString v = json_text v"

definition or_undefined :: "jstr \<Rightarrow> jstr option" where
  "or_undefined s = (if s = [] then None else Some s)"

definition completeWebuiLogin :: "crypto \<Rightarrow> login_auth \<Rightarrow> json \<Rightarrow> int \<Rightarrow> login_result" where
  "completeWebuiLogin K auth body atMs =
     (if \<not> is_object body then BadRequest
      else let password = readString (member_of body (js ''password'')) in
        if \<not> la_verify auth password then BadPassword
        else case decideSecondFactorLogin K (la_totpEnabled auth) (la_totpState auth) password
              (or_undefined (readString (member_of body (js ''totp''))))
              (or_undefined (readString (member_of body (js ''recoveryCode'')))) atMs of
            NeedsTotp \<Rightarrow> LoginNeedsTotp
          | BadSecondFactor \<Rightarrow> LoginBadFactor
          | FactorOk st \<Rightarrow> LoginOk (la_mustChangePassword auth) st)"

definition invalidateOtherSessions :: "(jstr \<rightharpoonup> 'a) \<Rightarrow> jstr \<Rightarrow> (jstr \<rightharpoonup> 'a)" where
  "invalidateOtherSessions sessions keepToken = (\<lambda>t. if t \<noteq> keepToken then None else sessions t)"

section \<open>State of the server\<close>

record session_info =
  expiresAt :: int
  si_mustChange :: bool

record login_attempt =
  at_count :: nat
  resetAt :: int

record totp_enrolling =
  te_secret :: jstr
  te_issuer :: jstr
  te_accountName :: jstr
  te_expiresAt :: int

datatype route =
    Logout | AuthState | CheckStrength | ChangePassword
  | TotpStatus | TotpBegin | TotpConfirm | TotpDisable | TotpRecoveryCodes

text \<open>A handler that waits for its body, with what it read before.\<close>

datatype job =
    LoginJob jstr int                            \<comment> \<open>address and time\<close>
  | RouteJob route jstr "totp_state option"      \<comment> \<open>token of the session\<close>

record web =
  w_auth :: webui_auth
  w_file :: config_file
  sessionTokens :: "jstr \<rightharpoonup> session_info"
  loginAttempts :: "jstr \<rightharpoonup> login_attempt"
  totpEnrollments :: "jstr \<rightharpoonup> totp_enrolling"
  consentGatePending :: bool
  jobs :: "nat \<rightharpoonup> job"

definition LOGIN_MAX_ATTEMPTS :: nat where "LOGIN_MAX_ATTEMPTS = 5"
definition LOGIN_LOCKOUT_MS :: int where "LOGIN_LOCKOUT_MS = 15 * 60 * 1000"
definition TOKEN_TTL_MS :: int where "TOKEN_TTL_MS = 24 * 60 * 60 * 1000"
definition TOTP_ENROLL_TTL_MS :: int where "TOTP_ENROLL_TTL_MS = 10 * 60 * 1000"
definition DEFAULT_TOTP_ISSUER :: jstr where "DEFAULT_TOTP_ISSUER = js ''SnowLuma''"

definition CONSENT_ALLOWLIST :: "jstr list" where
  "CONSENT_ALLOWLIST = [js ''/api/status'', js ''/api/auth/state'', js ''/api/agreements'',
     js ''/api/agreements/record-consent'', js ''/api/logout'']"

definition MUST_CHANGE_ALLOWLIST :: "jstr list" where
  "MUST_CHANGE_ALLOWLIST = [js ''/api/status'', js ''/api/auth/state'', js ''/api/auth/check-strength'',
     js ''/api/auth/change-password'', js ''/api/agreements'', js ''/api/agreements/record-consent'', js ''/api/logout'']"

section \<open>Answers\<close>

datatype message =
    Unauthorized | TokenInvalid | ConsentRequired | ChangePasswordFirst
  | TooManyAttempts int | BadFormat | WrongCode | WrongPassword | LoginFailed
  | WrongCurrentPassword | WeakNewPassword "(jstr \<times> jstr \<times> bool) list" | SamePassword | ChangeFailed
  | DevModeNoTotp | TotpAlreadyOn | TotpOff | BeginFirst | InternalError

datatype answer =
    Failure message
  | AskTotp
  | LoggedIn jstr bool
  | LoggedOut
  | MustChange bool
  | Strength "(jstr \<times> jstr \<times> bool) list" bool
  | RequireRelogin
  | TotpInfo "(nat \<times> jstr) option"
  | Enrollment totp_enrollment
  | RecoveryCodes "jstr list"
  | TotpDisabled

text \<open>A status with its answer, a handler that waits for the body, or one that does not come to an end.\<close>

datatype web_outcome = Reply nat answer | Waits | Hangs

text \<open>
  What the rest of a handler is given: the clock in milliseconds and as text, whether the write succeeds,
  random bytes, a new secret for one-time codes, and the name of the host.
\<close>

record finish_env =
  fe_now :: int
  fe_iso :: jstr
  fe_written :: bool
  fe_salt :: "byte list"
  fe_wrap :: "byte list \<times> byte list"
  fe_rnd :: "nat \<Rightarrow> byte list"
  fe_secret :: jstr
  fe_token :: "byte list"
  fe_host :: jstr

text \<open>A body that is not JSON makes \<open>c.req.json()\<close> throw.\<close>

type_synonym body = "json option"

section \<open>The session gate\<close>

text \<open>\<open>extractWebuiSessionToken\<close>: the values of \<open>x-snowluma-token\<close> and of \<open>authorization\<close>.\<close>

definition extractWebuiSessionToken :: "jstr option \<Rightarrow> jstr option \<Rightarrow> jstr" where
  "extractWebuiSessionToken own authorization = (case own of
     Some t \<Rightarrow> t
   | None \<Rightarrow> (case authorization of
       Some a \<Rightarrow> if take 7 a = js ''Bearer '' then drop 7 a else []
     | None \<Rightarrow> []))"

datatype gate_result = Open | Denied nat message | Admitted

definition api_gate :: "web \<Rightarrow> jstr \<Rightarrow> jstr \<Rightarrow> int \<Rightarrow> gate_result" where
  "api_gate w reqPath token now =
     (if reqPath = js ''/api/login'' \<or> reqPath = js ''/api/ui/public'' then Open
      else if token = [] then Denied 401 Unauthorized
      else case sessionTokens w token of
        None \<Rightarrow> Denied 401 TokenInvalid
      | Some info \<Rightarrow>
          if now > expiresAt info then Denied 401 TokenInvalid
          else if consentGatePending w \<and> reqPath \<notin> set CONSENT_ALLOWLIST then Denied 403 ConsentRequired
          else if si_mustChange info \<and> reqPath \<notin> set MUST_CHANGE_ALLOWLIST then Denied 403 ChangePasswordFirst
          else Admitted)"

fun route_path :: "route \<Rightarrow> jstr" where
  "route_path Logout = js ''/api/logout''"
| "route_path AuthState = js ''/api/auth/state''"
| "route_path CheckStrength = js ''/api/auth/check-strength''"
| "route_path ChangePassword = js ''/api/auth/change-password''"
| "route_path TotpStatus = js ''/api/auth/totp''"
| "route_path TotpBegin = js ''/api/auth/totp/begin''"
| "route_path TotpConfirm = js ''/api/auth/totp/confirm''"
| "route_path TotpDisable = js ''/api/auth/totp/disable''"
| "route_path TotpRecoveryCodes = js ''/api/auth/totp/recovery-codes''"

definition purgeExpiredTokens :: "int \<Rightarrow> web \<Rightarrow> web" where
  "purgeExpiredTokens now w = w\<lparr>
     sessionTokens := (\<lambda>t. case sessionTokens w t of Some i \<Rightarrow> if now > expiresAt i then None else Some i | None \<Rightarrow> None),
     loginAttempts := (\<lambda>ip. case loginAttempts w ip of Some a \<Rightarrow> if now > resetAt a then None else Some a | None \<Rightarrow> None),
     totpEnrollments := (\<lambda>t. case totpEnrollments w t of Some e \<Rightarrow> if now > te_expiresAt e then None else Some e | None \<Rightarrow> None)\<rparr>"

section \<open>The login route\<close>

definition login_throttled :: "web \<Rightarrow> jstr \<Rightarrow> int \<Rightarrow> int option" where
  "login_throttled w ip now = (case loginAttempts w ip of
     Some a \<Rightarrow> if at_count a \<ge> LOGIN_MAX_ATTEMPTS \<and> now < resetAt a then Some (- ((now - resetAt a) div 1000)) else None
   | None \<Rightarrow> None)"

definition login_auth_of :: "crypto \<Rightarrow> webui_auth \<Rightarrow> login_auth" where
  "login_auth_of K a = \<lparr>la_verify = verify K a, la_totpEnabled = totpEnabled a, la_totpState = totpState a,
     la_mustChangePassword = mustChangePassword a\<rparr>"

definition count_failure :: "int \<Rightarrow> login_attempt option \<Rightarrow> login_attempt" where
  "count_failure now a =
     (let current = (case a of None \<Rightarrow> \<lparr>at_count = 0, resetAt = now + LOGIN_LOCKOUT_MS\<rparr> | Some x \<Rightarrow> x);
          counted = current\<lparr>at_count := at_count current + 1\<rparr> in
      if at_count counted = 1 then counted\<lparr>resetAt := now + LOGIN_LOCKOUT_MS\<rparr> else counted)"

definition open_session :: "finish_env \<Rightarrow> int \<Rightarrow> bool \<Rightarrow> web \<Rightarrow> web_outcome \<times> web" where
  "open_session e now must w =
     (let token = to_hex (fe_token e) in
      (Reply 200 (LoggedIn token must),
       w\<lparr>sessionTokens := (sessionTokens w)(token \<mapsto> \<lparr>expiresAt = now + TOKEN_TTL_MS, si_mustChange = must\<rparr>)\<rparr>))"

definition login_finish :: "crypto \<Rightarrow> finish_env \<Rightarrow> jstr \<Rightarrow> int \<Rightarrow> body \<Rightarrow> web \<Rightarrow> web_outcome \<times> web" where
  "login_finish K e ip now body w = (case body of
     None \<Rightarrow> (Reply 400 (Failure BadFormat), w)
   | Some b \<Rightarrow> (case completeWebuiLogin K (login_auth_of K (w_auth w)) b now of
       BadRequest \<Rightarrow> (Reply 400 (Failure BadFormat), w)
     | BadPassword \<Rightarrow> (Reply 401 (Failure WrongPassword),
         w\<lparr>loginAttempts := (loginAttempts w)(ip \<mapsto> count_failure now (loginAttempts w ip))\<rparr>)
     | LoginBadFactor \<Rightarrow> (Reply 401 (Failure WrongCode),
         w\<lparr>loginAttempts := (loginAttempts w)(ip \<mapsto> count_failure now (loginAttempts w ip))\<rparr>)
     | LoginNeedsTotp \<Rightarrow> (Reply 200 AskTotp, w)
     | LoginOk must st \<Rightarrow>
         let w1 = w\<lparr>loginAttempts := (loginAttempts w)(ip := None)\<rparr> in
         (case st of
            None \<Rightarrow> open_session e now must w1
          | Some t \<Rightarrow>
              (case persistTotp (fe_iso e) (fe_written e) (Some t) (w_auth w1, w_file w1) of
                 (Inl _, a, f) \<Rightarrow> (Reply 500 (Failure LoginFailed), w1\<lparr>w_auth := a, w_file := f\<rparr>)
               | (Inr _, a, f) \<Rightarrow> open_session e now must (w1\<lparr>w_auth := a, w_file := f\<rparr>)))))"

section \<open>The routes of a session: before the body\<close>

definition logout :: "jstr \<Rightarrow> web \<Rightarrow> web_outcome \<times> web" where
  "logout token w = (Reply 200 LoggedOut, if token = [] then w else w\<lparr>sessionTokens := (sessionTokens w)(token := None)\<rparr>)"

definition auth_state_route :: "jstr \<Rightarrow> web \<Rightarrow> web_outcome" where
  "auth_state_route token w = Reply 200 (MustChange
     (case sessionTokens w token of Some i \<Rightarrow> si_mustChange i | None \<Rightarrow> mustChangePassword (w_auth w)))"

definition totp_status_route :: "web \<Rightarrow> web_outcome" where
  "totp_status_route w =
     (if devMode (w_auth w) then Reply 400 (Failure DevModeNoTotp) else Reply 200 (TotpInfo (totpStatus (w_auth w))))"

definition totp_begin_start :: "web \<Rightarrow> web_outcome" where
  "totp_begin_start w = (if devMode (w_auth w) then Reply 400 (Failure DevModeNoTotp)
     else if totpEnabled (w_auth w) then Reply 409 (Failure TotpAlreadyOn) else Waits)"

definition totp_confirm_start :: "web \<Rightarrow> web_outcome" where
  "totp_confirm_start w = (if devMode (w_auth w) then Reply 400 (Failure DevModeNoTotp)
     else if totpEnabled (w_auth w) then Reply 409 (Failure TotpAlreadyOn) else Waits)"

definition totp_disable_start :: "web \<Rightarrow> web_outcome" where
  "totp_disable_start w = (if devMode (w_auth w) then Reply 400 (Failure DevModeNoTotp)
     else if \<not> totpEnabled (w_auth w) then Reply 400 (Failure TotpOff) else Waits)"

definition totp_recovery_start :: "web \<Rightarrow> web_outcome \<times> totp_state option" where
  "totp_recovery_start w = (if devMode (w_auth w) then (Reply 400 (Failure DevModeNoTotp), None)
     else case totpState (w_auth w) of None \<Rightarrow> (Reply 400 (Failure TotpOff), None) | Some st \<Rightarrow> (Waits, Some st))"

definition route_start :: "route \<Rightarrow> jstr \<Rightarrow> web \<Rightarrow> web_outcome \<times> totp_state option \<times> web" where
  "route_start r token w = (case r of
     Logout \<Rightarrow> (case logout token w of (out, w') \<Rightarrow> (out, None, w'))
   | AuthState \<Rightarrow> (auth_state_route token w, None, w)
   | CheckStrength \<Rightarrow> (Waits, None, w)
   | ChangePassword \<Rightarrow> (Waits, None, w)
   | TotpStatus \<Rightarrow> (totp_status_route w, None, w)
   | TotpBegin \<Rightarrow> (totp_begin_start w, None, w)
   | TotpConfirm \<Rightarrow> (totp_confirm_start w, None, w)
   | TotpDisable \<Rightarrow> (totp_disable_start w, None, w)
   | TotpRecoveryCodes \<Rightarrow> (case totp_recovery_start w of (out, st) \<Rightarrow> (out, st, w)))"

lemmas start_defs = route_start_def logout_def auth_state_route_def totp_status_route_def totp_begin_start_def
  totp_confirm_start_def totp_disable_start_def totp_recovery_start_def

section \<open>The routes of a session: after the body\<close>

definition body_text :: "json \<Rightarrow> string \<Rightarrow> jstr" where
  "body_text b k = json_text (member_of b (js k))"

definition body_text_option :: "json \<Rightarrow> string \<Rightarrow> jstr option" where
  "body_text_option b k = (if is_string (member_of b (js k)) then Some (json_text (member_of b (js k))) else None)"

definition sanitizeTotpLabelPart :: "json option \<Rightarrow> jstr \<Rightarrow> jstr" where
  "sanitizeTotpLabelPart value fallback =
     (if \<not> is_string value then fallback
      else let trimmed = str_trim (filter (\<lambda>c. c \<notin> {13, 10, 9}) (json_text value)) in
        if trimmed = [] then fallback else take 64 trimmed)"

definition defaultTotpAccountName :: "jstr \<Rightarrow> jstr" where
  "defaultTotpAccountName hostname = (let host = str_trim hostname in if host = [] then js ''admin'' else host)"

definition check_strength_finish :: "body \<Rightarrow> web_outcome" where
  "check_strength_finish body = (case body of
     None \<Rightarrow> Reply 200 (Strength (evaluatePasswordRules []) False)
   | Some b \<Rightarrow>
       if b = JNull then Reply 500 (Failure InternalError)
       else let pwd = body_text b ''password'' in Reply 200 (Strength (evaluatePasswordRules pwd) (isStrongPassword pwd)))"

definition change_password_finish :: "crypto \<Rightarrow> finish_env \<Rightarrow> body \<Rightarrow> web \<Rightarrow> web_outcome \<times> web" where
  "change_password_finish K e body w = (case body of
     None \<Rightarrow> (Reply 400 (Failure BadFormat), w)
   | Some b \<Rightarrow>
       if b = JNull then (Reply 500 (Failure InternalError), w)
       else let oldPassword = body_text b ''oldPassword''; newPassword = body_text b ''newPassword'' in
       if \<not> verify K (w_auth w) oldPassword then (Reply 401 (Failure WrongCurrentPassword), w)
       else if \<not> isStrongPassword newPassword then (Reply 400 (Failure (WeakNewPassword (evaluatePasswordRules newPassword))), w)
       else if oldPassword = newPassword then (Reply 400 (Failure SamePassword), w)
       else (case setPassword K (fe_salt e) (fe_wrap e) (fe_iso e) (fe_written e) newPassword (Some oldPassword) (w_auth w, w_file w) of
           (Inl _, a, f) \<Rightarrow> (Reply 400 (Failure ChangeFailed), w\<lparr>w_auth := a, w_file := f\<rparr>)
         | (Inr _, a, f) \<Rightarrow> (Reply 200 RequireRelogin, w\<lparr>w_auth := a, w_file := f, sessionTokens := Map.empty\<rparr>)))"

definition totp_begin_finish :: "crypto \<Rightarrow> finish_env \<Rightarrow> jstr \<Rightarrow> body \<Rightarrow> web \<Rightarrow> web_outcome \<times> web" where
  "totp_begin_finish K e token body w =
     (let b = (case body of Some (JObj ms) \<Rightarrow> JObj ms | _ \<Rightarrow> JObj []);
          issuer = sanitizeTotpLabelPart (member_of b (js ''issuer'')) DEFAULT_TOTP_ISSUER;
          accountName = sanitizeTotpLabelPart (member_of b (js ''accountName'')) (defaultTotpAccountName (fe_host e));
          secret = (case totpEnrollments w token of
            Some x \<Rightarrow> if te_expiresAt x > fe_now e then Some (te_secret x) else None | None \<Rightarrow> None) in
      case beginTotpEnrollment K (fe_secret e) issuer accountName secret of
        Inl _ \<Rightarrow> (Reply 500 (Failure InternalError), w)
      | Inr en \<Rightarrow> (Reply 200 (Enrollment en),
          w\<lparr>totpEnrollments := (totpEnrollments w)(token \<mapsto>
            \<lparr>te_secret = en_secret en, te_issuer = issuer, te_accountName = accountName, te_expiresAt = fe_now e + TOTP_ENROLL_TTL_MS\<rparr>)\<rparr>))"

definition enrolled_label :: "totp_enrolling \<Rightarrow> jstr" where
  "enrolled_label p = te_issuer p @ js '' ('' @ te_accountName p @ js '')''"

definition totp_confirm_finish :: "crypto \<Rightarrow> finish_env \<Rightarrow> jstr \<Rightarrow> body \<Rightarrow> web \<Rightarrow> web_outcome \<times> web" where
  "totp_confirm_finish K e token body w = (case body of
     None \<Rightarrow> (Reply 400 (Failure BadFormat), w)
   | Some b \<Rightarrow>
       if b = JNull then (Reply 500 (Failure InternalError), w)
       else let password = body_text b ''password''; code = body_text b ''code'' in
       if \<not> verify K (w_auth w) password then (Reply 401 (Failure WrongCurrentPassword), w)
       else (case totpEnrollments w token of
         None \<Rightarrow> (Reply 400 (Failure BeginFirst), w)
       | Some pending \<Rightarrow>
           if te_expiresAt pending \<le> fe_now e then
             (Reply 400 (Failure BeginFirst), w\<lparr>totpEnrollments := (totpEnrollments w)(token := None)\<rparr>)
           else (case confirmTotpEnrollment K (fe_wrap e) (fe_rnd e) password (te_secret pending) code (enrolled_label pending) (fe_now e) of
               None \<Rightarrow> (Hangs, w)
             | Some (Inl _) \<Rightarrow> (Reply 401 (Failure WrongCode), w)
             | Some (Inr (state, codes)) \<Rightarrow>
                 (case persistTotp (fe_iso e) (fe_written e) (Some state) (w_auth w, w_file w) of
                    (Inl _, a, f) \<Rightarrow> (Reply 401 (Failure WrongCode), w\<lparr>w_auth := a, w_file := f\<rparr>)
                  | (Inr _, a, f) \<Rightarrow> (Reply 200 (RecoveryCodes codes),
                      w\<lparr>w_auth := a, w_file := f, totpEnrollments := (totpEnrollments w)(token := None),
                        sessionTokens := invalidateOtherSessions (sessionTokens w) token\<rparr>)))))"

definition totp_disable_finish :: "crypto \<Rightarrow> finish_env \<Rightarrow> jstr \<Rightarrow> body \<Rightarrow> web \<Rightarrow> web_outcome \<times> web" where
  "totp_disable_finish K e token body w = (case body of
     None \<Rightarrow> (Reply 400 (Failure BadFormat), w)
   | Some b \<Rightarrow>
       if b = JNull then (Reply 500 (Failure InternalError), w)
       else let password = body_text b ''password'' in
       if \<not> verify K (w_auth w) password then (Reply 401 (Failure WrongCurrentPassword), w)
       else (case decideSecondFactorLogin K True (totpState (w_auth w)) password
             (body_text_option b ''totp'') (body_text_option b ''recoveryCode'') (fe_now e) of
           FactorOk _ \<Rightarrow>
             (case persistTotp (fe_iso e) (fe_written e) None (w_auth w, w_file w) of
                (Inl _, a, f) \<Rightarrow> (Reply 500 (Failure InternalError), w\<lparr>w_auth := a, w_file := f\<rparr>)
              | (Inr _, a, f) \<Rightarrow> (Reply 200 TotpDisabled,
                  w\<lparr>w_auth := a, w_file := f, totpEnrollments := (totpEnrollments w)(token := None),
                    sessionTokens := invalidateOtherSessions (sessionTokens w) token\<rparr>))
         | _ \<Rightarrow> (Reply 401 (Failure WrongCode), w)))"

text \<open>The state is the one read before the body.\<close>

definition totp_recovery_finish :: "crypto \<Rightarrow> finish_env \<Rightarrow> totp_state \<Rightarrow> body \<Rightarrow> web \<Rightarrow> web_outcome \<times> web" where
  "totp_recovery_finish K e state body w = (case body of
     None \<Rightarrow> (Reply 400 (Failure BadFormat), w)
   | Some b \<Rightarrow>
       if b = JNull then (Reply 500 (Failure InternalError), w)
       else let password = body_text b ''password''; totp = body_text b ''totp'' in
       if \<not> verify K (w_auth w) password then (Reply 401 (Failure WrongCurrentPassword), w)
       else (case regenerateRecoveryCodes K (fe_rnd e) password state totp (fe_now e) of
           None \<Rightarrow> (Hangs, w)
         | Some (Inl _) \<Rightarrow> (Reply 401 (Failure WrongCode), w)
         | Some (Inr (next, codes)) \<Rightarrow>
             (case persistTotp (fe_iso e) (fe_written e) (Some next) (w_auth w, w_file w) of
                (Inl _, a, f) \<Rightarrow> (Reply 401 (Failure WrongCode), w\<lparr>w_auth := a, w_file := f\<rparr>)
              | (Inr _, a, f) \<Rightarrow> (Reply 200 (RecoveryCodes codes), w\<lparr>w_auth := a, w_file := f\<rparr>))))"

definition route_finish :: "crypto \<Rightarrow> finish_env \<Rightarrow> route \<Rightarrow> jstr \<Rightarrow> totp_state option \<Rightarrow> body \<Rightarrow> web \<Rightarrow> web_outcome \<times> web" where
  "route_finish K e r token st body w = (case r of
     CheckStrength \<Rightarrow> (check_strength_finish body, w)
   | ChangePassword \<Rightarrow> change_password_finish K e body w
   | TotpBegin \<Rightarrow> totp_begin_finish K e token body w
   | TotpConfirm \<Rightarrow> totp_confirm_finish K e token body w
   | TotpDisable \<Rightarrow> totp_disable_finish K e token body w
   | TotpRecoveryCodes \<Rightarrow> (case st of Some s \<Rightarrow> totp_recovery_finish K e s body w | None \<Rightarrow> (Waits, w))
   | _ \<Rightarrow> (Waits, w))"

section \<open>Serving\<close>

text \<open>Requests have a number; \<open>BodyOf\<close> is the moment the body of a waiting request has been read.\<close>

datatype event =
    LoginArrives nat jstr int
  | RouteArrives nat route jstr int
  | BodyOf nat finish_env body
  | Janitor int

definition serve :: "crypto \<Rightarrow> event \<Rightarrow> web \<Rightarrow> web_outcome \<times> web" where
  "serve K ev w = (case ev of
     LoginArrives i ip now \<Rightarrow>
       (case login_throttled w ip now of
          Some wait \<Rightarrow> (Reply 429 (Failure (TooManyAttempts wait)), w)
        | None \<Rightarrow> (Waits, w\<lparr>jobs := (jobs w)(i \<mapsto> LoginJob ip now)\<rparr>))
   | RouteArrives i r token now \<Rightarrow>
       (case api_gate w (route_path r) token now of
          Admitted \<Rightarrow> (case route_start r token w of
              (Waits, st, w') \<Rightarrow> (Waits, w'\<lparr>jobs := (jobs w')(i \<mapsto> RouteJob r token st)\<rparr>)
            | (out, st, w') \<Rightarrow> (out, w'))
        | Denied status m \<Rightarrow> (Reply status (Failure m), w)
        | Open \<Rightarrow> (Waits, w))
   | BodyOf i e body \<Rightarrow>
       (case jobs w i of
          None \<Rightarrow> (Waits, w)
        | Some (LoginJob ip now) \<Rightarrow> login_finish K e ip now body (w\<lparr>jobs := (jobs w)(i := None)\<rparr>)
        | Some (RouteJob r token st) \<Rightarrow> route_finish K e r token st body (w\<lparr>jobs := (jobs w)(i := None)\<rparr>))
   | Janitor now \<Rightarrow> (Waits, purgeExpiredTokens now w))"

fun run :: "crypto \<Rightarrow> event list \<Rightarrow> web \<Rightarrow> web" where
  "run K [] w = w"
| "run K (ev # evs) w = run K evs (snd (serve K ev w))"

text \<open>
  \<open>serve\<close> has the routes of a session, of the password and of the second factor.  One other route writes
  webui.json: importing a backup with \<open>restoreCredentials\<close> replaces the file when the credentials in the
  backup pass their check, and leaves the credentials in memory alone.
\<close>

definition restored_credentials :: "crypto \<Rightarrow> json \<Rightarrow> web \<Rightarrow> web" where
  "restored_credentials K value w = (case prepareWebuiAuthStateForRestore K value of
     Inl _ \<Rightarrow> w
   | Inr canonical \<Rightarrow> w\<lparr>w_file := Holds (auth_json canonical)\<rparr>)"

text \<open>The states before the events, with the events and their outcomes.\<close>

fun web_trace :: "crypto \<Rightarrow> event list \<Rightarrow> web \<Rightarrow> (web \<times> event \<times> web_outcome) list" where
  "web_trace K [] w = []"
| "web_trace K (ev # evs) w = (w, ev, fst (serve K ev w)) # web_trace K evs (snd (serve K ev w))"

section \<open>The interface \<open>WebuiLoginAuth\<close>\<close>

text \<open>What \<open>completeWebuiLogin\<close> relies on: the second factor is on exactly when there is a state for it.\<close>

definition body_totp :: "json \<Rightarrow> jstr option" where
  "body_totp b = non_blank (Some (body_text b ''totp''))"

definition body_recovery :: "json \<Rightarrow> jstr option" where
  "body_recovery b = non_blank (Some (body_text b ''recoveryCode''))"

lemma non_blank_or_undefined [simp]: "non_blank (or_undefined s) = non_blank (Some s)"
  by (simp add: non_blank_def or_undefined_def str_trim_def)

lemmas body_text_simps = body_totp_def body_recovery_def body_text_def readString_def

locale webui_login_auth =
  fixes view :: "'a \<Rightarrow> login_auth"
  assumes enabled_iff: "la_totpEnabled (view a) \<longleftrightarrow> la_totpState (view a) \<noteq> None"
begin

definition factor_ok :: "crypto \<Rightarrow> 'a \<Rightarrow> json \<Rightarrow> int \<Rightarrow> totp_state option \<Rightarrow> bool" where
  "factor_ok K a b now r \<longleftrightarrow> (case la_totpState (view a) of
     None \<Rightarrow> r = None
   | Some st \<Rightarrow> \<exists>st'. r = Some st' \<and> passes K (body_text b ''password'') now (body_totp b) (body_recovery b) st st')"

lemma login_ok_iff:
  "completeWebuiLogin K (view a) b now = LoginOk must r \<longleftrightarrow>
     is_object b \<and> la_verify (view a) (body_text b ''password'') \<and> must = la_mustChangePassword (view a) \<and> factor_ok K a b now r"
proof -
  let ?d = "decideSecondFactorLogin K (la_totpEnabled (view a)) (la_totpState (view a)) (json_text (member_of b (js ''password'')))
    (or_undefined (json_text (member_of b (js ''totp'')))) (or_undefined (json_text (member_of b (js ''recoveryCode'')))) now"
  have d: "?d = FactorOk r \<longleftrightarrow> factor_ok K a b now r"
    unfolding decide_ok_iff factor_ok_def by (cases "la_totpState (view a)") (auto simp: enabled_iff body_text_simps)
  show ?thesis
    unfolding d [symmetric] completeWebuiLogin_def Let_def readString_def body_text_def by (cases ?d) auto
qed

lemma login_asks_iff:
  "completeWebuiLogin K (view a) b now = LoginNeedsTotp \<longleftrightarrow>
     is_object b \<and> la_verify (view a) (body_text b ''password'') \<and> la_totpState (view a) \<noteq> None \<and>
     body_totp b = None \<and> body_recovery b = None"
  by (auto simp: completeWebuiLogin_def decideSecondFactorLogin_def Let_def enabled_iff body_text_simps
      split: decision.split option.split)

end

interpretation login: webui_login_auth "login_auth_of K" for K
  by unfold_locales (simp add: login_auth_of_def totpEnabled_def totpState_def)

lemma login_view [simp]:
  "la_verify (login_auth_of K a) = verify K a" "la_totpState (login_auth_of K a) = totpState a"
  "la_mustChangePassword (login_auth_of K a) = mustChangePassword a"
  by (simp_all add: login_auth_of_def)

text \<open>A login that is entitled to a session.\<close>

definition good_login :: "crypto \<Rightarrow> webui_auth \<Rightarrow> json \<Rightarrow> int \<Rightarrow> bool" where
  "good_login K a b now \<longleftrightarrow> is_object b \<and> verify K a (body_text b ''password'') \<and>
     (case totpState a of None \<Rightarrow> True
      | Some st \<Rightarrow> \<exists>st'. passes K (body_text b ''password'') now (body_totp b) (body_recovery b) st st')"

section \<open>Logging in\<close>

lemma persist_frame:
  assumes "persistTotp now ok t (w_auth w, w_file w) = (r, a, f)"
  shows "devMode a = devMode (w_auth w)" "auth_state a \<noteq> auth_state (w_auth w) \<Longrightarrow> r = Inr ()"
  using assms by (cases rule: persistTotp_cases; simp)+

text \<open>The branches of the login route.\<close>

lemma login_finish_cases:
  assumes "login_finish K e ip now body w = (out, w')"
  obtains (refused) s m where "out = Reply s (Failure m)" "s = 400" "w' = w"
  | (asks) "out = Reply 200 AskTotp" "w' = w"
  | (wrong) m where "out = Reply 401 (Failure m)"
      "w' = w\<lparr>loginAttempts := (loginAttempts w)(ip \<mapsto> count_failure now (loginAttempts w ip))\<rparr>"
  | (unsaved) "out = Reply 500 (Failure LoginFailed)" "w' = w\<lparr>loginAttempts := (loginAttempts w)(ip := None)\<rparr>"
  | (entered) b must where "body = Some b" "good_login K (w_auth w) b now" "must = mustChangePassword (w_auth w)"
      "out = Reply 200 (LoggedIn (to_hex (fe_token e)) must)"
      "totpState (w_auth w) = None"
      "w' = w\<lparr>loginAttempts := (loginAttempts w)(ip := None),
        sessionTokens := (sessionTokens w)(to_hex (fe_token e) \<mapsto> \<lparr>expiresAt = now + TOKEN_TTL_MS, si_mustChange = must\<rparr>)\<rparr>"
  | (entered2) b must st st' a f where "body = Some b" "good_login K (w_auth w) b now" "must = mustChangePassword (w_auth w)"
      "out = Reply 200 (LoggedIn (to_hex (fe_token e)) must)"
      "totpState (w_auth w) = Some st" "passes K (body_text b ''password'') now (body_totp b) (body_recovery b) st st'"
      "persistTotp (fe_iso e) (fe_written e) (Some st') (w_auth w, w_file w) = (Inr (), a, f)"
      "w' = w\<lparr>loginAttempts := (loginAttempts w)(ip := None), w_auth := a, w_file := f,
        sessionTokens := (sessionTokens w)(to_hex (fe_token e) \<mapsto> \<lparr>expiresAt = now + TOKEN_TTL_MS, si_mustChange = must\<rparr>)\<rparr>"
proof (cases body)
  case None
  with assms refused show thesis by (auto simp: login_finish_def)
next
  case (Some b)
  show thesis
  proof (cases "completeWebuiLogin K (login_auth_of K (w_auth w)) b now")
    case (LoginOk must r)
    then have ok: "is_object b" "verify K (w_auth w) (body_text b ''password'')" "must = mustChangePassword (w_auth w)"
        "login.factor_ok K K (w_auth w) b now r"
      by (auto simp: login.login_ok_iff)
    show thesis
    proof (cases r)
      case None
      with ok have "totpState (w_auth w) = None" by (simp add: login.factor_ok_def split: option.splits)
      with ok None LoginOk Some assms show thesis
        by (intro entered [of b must]) (auto simp: good_login_def login_finish_def open_session_def Let_def)
    next
      case (Some st')
      with ok obtain st where st: "totpState (w_auth w) = Some st"
          "passes K (body_text b ''password'') now (body_totp b) (body_recovery b) st st'"
        by (auto simp: login.factor_ok_def split: option.splits)
      obtain res a f where p: "persistTotp (fe_iso e) (fe_written e) (Some st') (w_auth w, w_file w) = (res, a, f)"
        by (cases "persistTotp (fe_iso e) (fe_written e) (Some st') (w_auth w, w_file w)")
      show thesis
      proof (cases res)
        case (Inl x)
        with p have "a = w_auth w" "f = w_file w" by (auto elim: persistTotp_cases)
        with Inl p LoginOk Some \<open>body = Some b\<close> assms show thesis
          by (intro unsaved) (auto simp: login_finish_def Let_def)
      next
        case (Inr u)
        with p LoginOk Some \<open>body = Some b\<close> assms ok st show thesis
          by (intro entered2 [of b must st st' a f]) (auto simp: good_login_def login_finish_def open_session_def Let_def)
      qed
    qed
  qed (use assms Some refused asks wrong in \<open>auto simp: login_finish_def\<close>)
qed

section \<open>Sessions\<close>

fun logged_in :: "web_outcome \<Rightarrow> bool" where
  "logged_in (Reply _ (LoggedIn _ _)) = True"
| "logged_in _ = False"

lemma invalidate_sub: "invalidateOtherSessions m t \<subseteq>\<^sub>m m"
  by (auto simp: map_le_def invalidateOtherSessions_def dom_def)

lemma delete_sub: "m(t := None) \<subseteq>\<^sub>m m"
  by (auto simp: map_le_def)

lemmas route_defs = check_strength_finish_def change_password_finish_def totp_begin_finish_def totp_confirm_finish_def
  totp_disable_finish_def totp_recovery_finish_def

lemma route_finish_sessions:
  "\<not> logged_in (fst (route_finish K e r token st body w)) \<and>
   sessionTokens (snd (route_finish K e r token st body w)) \<subseteq>\<^sub>m sessionTokens w"
  by (cases r) (simp_all add: route_finish_def route_defs Let_def invalidate_sub
      split: option.split json.split sum.split prod.split decision.split)

lemma route_start_sessions:
  assumes "route_start r token w = (out, st, w')"
  shows "\<not> logged_in out" "sessionTokens w' \<subseteq>\<^sub>m sessionTokens w" "jobs w' = jobs w" "w_auth w' = w_auth w" "w_file w' = w_file w"
    "loginAttempts w' = loginAttempts w" "totpEnrollments w' = totpEnrollments w" "st = None \<or> st = totpState (w_auth w)"
  using assms by (cases r; auto simp: start_defs delete_sub split: if_splits option.splits)+

text \<open>A session is new only through a login that was entitled to it.\<close>

lemma serve_session:
  assumes "sessionTokens (snd (serve K ev w)) token = Some info"
  shows "sessionTokens w token = Some info \<or>
    (\<exists>i e b ip t. ev = BodyOf i e (Some b) \<and> jobs w i = Some (LoginJob ip t) \<and> good_login K (w_auth w) b t \<and>
       info = \<lparr>expiresAt = t + TOKEN_TTL_MS, si_mustChange = mustChangePassword (w_auth w)\<rparr> \<and>
       fst (serve K ev w) = Reply 200 (LoggedIn token (si_mustChange info)))"
proof (cases ev)
  case (LoginArrives i ip now)
  with assms show ?thesis by (simp add: serve_def split: option.splits)
next
  case (RouteArrives i r tok now)
  obtain out st w' where st: "route_start r tok w = (out, st, w')" by (cases "route_start r tok w")
  from route_start_sessions(2) [OF st] have "sessionTokens w' t = Some x \<Longrightarrow> sessionTokens w t = Some x" for t x
    by (auto simp: map_le_def dom_def)
  with assms RouteArrives st show ?thesis
    by (auto simp: serve_def split: gate_result.splits web_outcome.splits)
next
  case (BodyOf i e body)
  show ?thesis
  proof (cases "jobs w i")
    case (Some j)
    show ?thesis
    proof (cases j)
      case (LoginJob ip t)
      let ?w = "w\<lparr>jobs := (jobs w)(i := None)\<rparr>"
      obtain out w' where fin: "login_finish K e ip t body ?w = (out, w')" by (cases "login_finish K e ip t body ?w")
      have serve: "serve K ev w = (out, w')"
        using BodyOf Some LoginJob fin by (simp add: serve_def)
      from fin show ?thesis
        by (cases rule: login_finish_cases)
          (use assms serve BodyOf Some LoginJob in \<open>auto simp: fun_upd_apply split: if_splits\<close>)
    next
      case (RouteJob r tok st)
      with route_finish_sessions [of K e r tok st body "w\<lparr>jobs := (jobs w)(i := None)\<rparr>"] assms BodyOf Some
      show ?thesis by (auto simp: serve_def map_le_def dom_def)
    qed
  qed (use assms BodyOf in \<open>simp add: serve_def\<close>)
next
  case (Janitor now)
  with assms show ?thesis by (auto simp: serve_def purgeExpiredTokens_def split: option.splits if_splits)
qed

lemma run_session:
  "sessionTokens (run K evs w) token = Some info \<Longrightarrow> sessionTokens w token = Some info \<or>
    (\<exists>v i e b ip t. (v, BodyOf i e (Some b), Reply 200 (LoggedIn token (si_mustChange info))) \<in> set (web_trace K evs w) \<and>
       jobs v i = Some (LoginJob ip t) \<and> good_login K (w_auth v) b t \<and>
       info = \<lparr>expiresAt = t + TOKEN_TTL_MS, si_mustChange = mustChangePassword (w_auth v)\<rparr>)"
proof (induction evs arbitrary: w)
  case (Cons ev evs)
  let ?w = "snd (serve K ev w)"
  from Cons.prems have "sessionTokens (run K evs ?w) token = Some info" by simp
  from Cons.IH [OF this] show ?case
  proof (elim disjE)
    assume "sessionTokens ?w token = Some info"
    from serve_session [OF this] show ?case by force
  qed force
qed simp

lemma gate_admits:
  assumes "api_gate w path token now = Admitted"
  obtains info where "sessionTokens w token = Some info" "now \<le> expiresAt info"
    "consentGatePending w \<Longrightarrow> path \<in> set CONSENT_ALLOWLIST" "si_mustChange info \<Longrightarrow> path \<in> set MUST_CHANGE_ALLOWLIST"
  using assms by (auto simp: api_gate_def split: if_splits option.splits)

section \<open>Recovery codes\<close>

definition stored_hashes :: "webui_auth \<Rightarrow> jstr list" where
  "stored_hashes a = (case totpState a of None \<Rightarrow> [] | Some st \<Rightarrow> recoveryCodeHashes st)"

fun gives_codes :: "web_outcome \<Rightarrow> bool" where
  "gives_codes (Reply _ (RecoveryCodes _)) = True"
| "gives_codes _ = False"

lemma stored_hashes_simps [simp]:
  "stored_hashes (a\<lparr>auth_state := st\<lparr>updatedAt := now, auth_totp := t\<rparr>\<rparr>) = (case t of None \<Rightarrow> [] | Some u \<Rightarrow> recoveryCodeHashes u)"
  "stored_hashes (a\<lparr>initialPlain := p\<rparr>) = stored_hashes a"
  by (simp_all add: stored_hashes_def totpState_def)

lemma setPassword_hashes:
  assumes "setPassword K salt wr now ok new cur (a, f) = (r, a', f')"
  shows "stored_hashes a' = stored_hashes a"
  using assms
  by (cases rule: setPassword_cases)
    (auto simp: stored_hashes_def totpState_def rewrapTotpSecret_def Let_def split: option.splits)

lemma persist_hashes:
  assumes "persistTotp now ok t (a, f) = (r, a', f')" "set (case t of None \<Rightarrow> [] | Some u \<Rightarrow> recoveryCodeHashes u) \<subseteq> set (stored_hashes a)"
  shows "set (stored_hashes a') \<subseteq> set (stored_hashes a)"
  using assms(1) by (cases rule: persistTotp_cases) (use assms(2) in auto)

text \<open>The branches of the routes that can change the credentials.\<close>

lemma change_password_cases:
  assumes "change_password_finish K e body w = (out, w')"
  obtains (same) s m where "out = Reply s (Failure m)" "w' = w"
  | (changed) b a f where "body = Some b" "verify K (w_auth w) (body_text b ''oldPassword'')" "isStrongPassword (body_text b ''newPassword'')"
      "out = Reply 200 RequireRelogin" "w' = w\<lparr>w_auth := a, w_file := f, sessionTokens := Map.empty\<rparr>"
      "setPassword K (fe_salt e) (fe_wrap e) (fe_iso e) (fe_written e) (body_text b ''newPassword'')
         (Some (body_text b ''oldPassword'')) (w_auth w, w_file w) = (Inr (), a, f)"
proof (cases "\<exists>b. body = Some b \<and> b \<noteq> JNull \<and> verify K (w_auth w) (body_text b ''oldPassword'') \<and>
    isStrongPassword (body_text b ''newPassword'') \<and> body_text b ''oldPassword'' \<noteq> body_text b ''newPassword''")
  case False
  with assms have "(\<exists>s m. out = Reply s (Failure m)) \<and> w' = w"
    by (auto simp: change_password_finish_def Let_def split: option.splits if_splits)
  with same show thesis by blast
next
  case True
  then obtain b where b: "body = Some b" "b \<noteq> JNull" "verify K (w_auth w) (body_text b ''oldPassword'')"
    "isStrongPassword (body_text b ''newPassword'')" "body_text b ''oldPassword'' \<noteq> body_text b ''newPassword''" by blast
  obtain res a f where p: "setPassword K (fe_salt e) (fe_wrap e) (fe_iso e) (fe_written e) (body_text b ''newPassword'')
      (Some (body_text b ''oldPassword'')) (w_auth w, w_file w) = (res, a, f)" by (rule prod_cases3)
  show thesis
  proof (cases res)
    case (Inl x)
    with p have "w\<lparr>w_auth := a, w_file := f\<rparr> = w" by (auto elim: setPassword_cases)
    with assms b p Inl show thesis by (intro same [of 400 ChangeFailed]) (auto simp: change_password_finish_def Let_def)
  next
    case (Inr u)
    with assms b p show thesis by (intro changed [of b f a]) (simp_all add: change_password_finish_def Let_def)
  qed
qed

lemma persist_failed: "persistTotp now ok t (w_auth w, w_file w) = (Inl x, a, f) \<Longrightarrow> w\<lparr>w_auth := a, w_file := f\<rparr> = w"
  by (auto elim: persistTotp_cases)

lemma totp_confirm_cases:
  assumes "totp_confirm_finish K e token body w = (out, w')"
  obtains (same) "\<not> gives_codes out" "\<not> logged_in out" "w_auth w' = w_auth w" "w_file w' = w_file w" "jobs w' = jobs w"
      "totpEnrollments w' \<subseteq>\<^sub>m totpEnrollments w" "loginAttempts w' = loginAttempts w"
  | (enabled) b pending state codes a f where "body = Some b" "totpEnrollments w token = Some pending"
      "verify K (w_auth w) (body_text b ''password'')"
      "confirmTotpEnrollment K (fe_wrap e) (fe_rnd e) (body_text b ''password'') (te_secret pending) (body_text b ''code'')
         (enrolled_label pending) (fe_now e) = Some (Inr (state, codes))"
      "persistTotp (fe_iso e) (fe_written e) (Some state) (w_auth w, w_file w) = (Inr (), a, f)"
      "out = Reply 200 (RecoveryCodes codes)"
      "w' = w\<lparr>w_auth := a, w_file := f, totpEnrollments := (totpEnrollments w)(token := None),
              sessionTokens := invalidateOtherSessions (sessionTokens w) token\<rparr>"
proof (cases "\<exists>b pending state codes. body = Some b \<and> b \<noteq> JNull \<and> verify K (w_auth w) (body_text b ''password'') \<and>
    totpEnrollments w token = Some pending \<and> \<not> te_expiresAt pending \<le> fe_now e \<and>
    confirmTotpEnrollment K (fe_wrap e) (fe_rnd e) (body_text b ''password'') (te_secret pending) (body_text b ''code'')
      (enrolled_label pending) (fe_now e) = Some (Inr (state, codes))")
  case False
  with assms have "\<not> gives_codes out \<and> \<not> logged_in out \<and> w_auth w' = w_auth w \<and> w_file w' = w_file w \<and> jobs w' = jobs w \<and>
      totpEnrollments w' \<subseteq>\<^sub>m totpEnrollments w \<and> loginAttempts w' = loginAttempts w"
    by (auto simp: totp_confirm_finish_def Let_def delete_sub split: option.splits if_splits sum.splits)
  with same show thesis by blast
next
  case True
  then obtain b pending state codes where b: "body = Some b" "b \<noteq> JNull" "verify K (w_auth w) (body_text b ''password'')"
    "totpEnrollments w token = Some pending" "\<not> te_expiresAt pending \<le> fe_now e"
    "confirmTotpEnrollment K (fe_wrap e) (fe_rnd e) (body_text b ''password'') (te_secret pending) (body_text b ''code'')
      (enrolled_label pending) (fe_now e) = Some (Inr (state, codes))" by blast
  obtain res a f where p: "persistTotp (fe_iso e) (fe_written e) (Some state) (w_auth w, w_file w) = (res, a, f)"
    by (rule prod_cases3)
  show thesis
  proof (cases res)
    case (Inl x)
    with p have "a = w_auth w" "f = w_file w" by (auto elim: persistTotp_cases)
    with assms b p Inl show thesis by (intro same) (auto simp: totp_confirm_finish_def Let_def)
  next
    case (Inr u)
    with assms b p show thesis by (intro enabled [of b pending state codes a f]) (simp_all add: totp_confirm_finish_def Let_def)
  qed
qed

lemma totp_disable_cases:
  assumes "totp_disable_finish K e token body w = (out, w')"
  obtains (same) s m where "out = Reply s (Failure m)" "w' = w"
  | (disabled) b r a f where "body = Some b" "verify K (w_auth w) (body_text b ''password'')"
      "decideSecondFactorLogin K True (totpState (w_auth w)) (body_text b ''password'') (body_text_option b ''totp'')
         (body_text_option b ''recoveryCode'') (fe_now e) = FactorOk r"
      "persistTotp (fe_iso e) (fe_written e) None (w_auth w, w_file w) = (Inr (), a, f)"
      "out = Reply 200 TotpDisabled"
      "w' = w\<lparr>w_auth := a, w_file := f, totpEnrollments := (totpEnrollments w)(token := None),
              sessionTokens := invalidateOtherSessions (sessionTokens w) token\<rparr>"
proof (cases "\<exists>b r. body = Some b \<and> b \<noteq> JNull \<and> verify K (w_auth w) (body_text b ''password'') \<and>
    decideSecondFactorLogin K True (totpState (w_auth w)) (body_text b ''password'') (body_text_option b ''totp'')
      (body_text_option b ''recoveryCode'') (fe_now e) = FactorOk r")
  case False
  with assms have "(\<exists>s m. out = Reply s (Failure m)) \<and> w' = w"
    by (auto simp: totp_disable_finish_def Let_def split: option.splits if_splits decision.splits)
  with same show thesis by blast
next
  case True
  then obtain b r where b: "body = Some b" "b \<noteq> JNull" "verify K (w_auth w) (body_text b ''password'')"
    "decideSecondFactorLogin K True (totpState (w_auth w)) (body_text b ''password'') (body_text_option b ''totp'')
      (body_text_option b ''recoveryCode'') (fe_now e) = FactorOk r" by blast
  obtain res a f where p: "persistTotp (fe_iso e) (fe_written e) None (w_auth w, w_file w) = (res, a, f)"
    by (rule prod_cases3)
  show thesis
  proof (cases res)
    case (Inl x)
    with assms b p persist_failed show thesis by (intro same) (auto simp: totp_disable_finish_def Let_def)
  next
    case (Inr u)
    with assms b p show thesis by (intro disabled [of b r a f]) (simp_all add: totp_disable_finish_def Let_def)
  qed
qed

lemma totp_recovery_cases:
  assumes "totp_recovery_finish K e state body w = (out, w')"
  obtains (same) "\<not> gives_codes out" "\<not> logged_in out" "w' = w"
  | (renewed) b state' codes a f where "body = Some b" "verify K (w_auth w) (body_text b ''password'')"
      "regenerateRecoveryCodes K (fe_rnd e) (body_text b ''password'') state (body_text b ''totp'') (fe_now e) = Some (Inr (state', codes))"
      "persistTotp (fe_iso e) (fe_written e) (Some state') (w_auth w, w_file w) = (Inr (), a, f)"
      "out = Reply 200 (RecoveryCodes codes)" "w' = w\<lparr>w_auth := a, w_file := f\<rparr>"
proof (cases "\<exists>b state' codes. body = Some b \<and> b \<noteq> JNull \<and> verify K (w_auth w) (body_text b ''password'') \<and>
    regenerateRecoveryCodes K (fe_rnd e) (body_text b ''password'') state (body_text b ''totp'') (fe_now e) = Some (Inr (state', codes))")
  case False
  with assms have "\<not> gives_codes out \<and> \<not> logged_in out \<and> w' = w"
    by (auto simp: totp_recovery_finish_def Let_def split: option.splits if_splits sum.splits)
  with same show thesis by blast
next
  case True
  then obtain b state' codes where b: "body = Some b" "b \<noteq> JNull" "verify K (w_auth w) (body_text b ''password'')"
    "regenerateRecoveryCodes K (fe_rnd e) (body_text b ''password'') state (body_text b ''totp'') (fe_now e) = Some (Inr (state', codes))"
    by blast
  obtain res a f where p: "persistTotp (fe_iso e) (fe_written e) (Some state') (w_auth w, w_file w) = (res, a, f)"
    by (rule prod_cases3)
  show thesis
  proof (cases res)
    case (Inl x)
    with assms b p persist_failed show thesis by (intro same) (auto simp: totp_recovery_finish_def Let_def)
  next
    case (Inr u)
    with assms b p show thesis by (intro renewed [of b state' codes a f]) (simp_all add: totp_recovery_finish_def Let_def)
  qed
qed

lemma totp_begin_frame:
  "w_auth (snd (totp_begin_finish K e token body w)) = w_auth w" "w_file (snd (totp_begin_finish K e token body w)) = w_file w"
  "jobs (snd (totp_begin_finish K e token body w)) = jobs w" "loginAttempts (snd (totp_begin_finish K e token body w)) = loginAttempts w"
  by (simp_all add: totp_begin_finish_def Let_def split: sum.split)

lemma route_finish_hashes:
  assumes "route_finish K e r token st body w = (out, w')" "\<not> gives_codes out"
  shows "set (stored_hashes (w_auth w')) \<subseteq> set (stored_hashes (w_auth w))"
proof (cases r)
  case ChangePassword
  with assms have "change_password_finish K e body w = (out, w')" by (simp add: route_finish_def)
  then show ?thesis by (cases rule: change_password_cases) (auto simp: setPassword_hashes)
next
  case TotpBegin
  with assms totp_begin_frame(1) [of K e token body w] show ?thesis by (simp add: route_finish_def)
next
  case TotpConfirm
  with assms have "totp_confirm_finish K e token body w = (out, w')" by (simp add: route_finish_def)
  then show ?thesis by (cases rule: totp_confirm_cases) (use assms(2) in auto)
next
  case TotpDisable
  with assms have "totp_disable_finish K e token body w = (out, w')" by (simp add: route_finish_def)
  then show ?thesis by (cases rule: totp_disable_cases) (auto dest!: persist_hashes)
next
  case TotpRecoveryCodes
  show ?thesis
  proof (cases st)
    case (Some s)
    with assms TotpRecoveryCodes have "totp_recovery_finish K e s body w = (out, w')" by (simp add: route_finish_def)
    then show ?thesis by (cases rule: totp_recovery_cases) (use assms(2) in auto)
  qed (use assms TotpRecoveryCodes in \<open>simp add: route_finish_def\<close>)
qed (use assms in \<open>simp_all add: route_finish_def\<close>)

lemma login_hashes:
  assumes "login_finish K e ip now body w = (out, w')"
  shows "set (stored_hashes (w_auth w')) \<subseteq> set (stored_hashes (w_auth w))"
  using assms
proof (cases rule: login_finish_cases)
  case (entered2 b must st st' a f)
  from entered2(5) passes_frame(3) [OF entered2(6)]
  have "set (case Some st' of None \<Rightarrow> [] | Some u \<Rightarrow> recoveryCodeHashes u) \<subseteq> set (stored_hashes (w_auth w))"
    by (simp add: stored_hashes_def)
  with persist_hashes [OF entered2(7)] entered2(8) show ?thesis by simp
qed auto

text \<open>Only an answer with new recovery codes adds to the stored ones.\<close>

lemma serve_hashes:
  assumes "\<not> gives_codes (fst (serve K ev w))"
  shows "set (stored_hashes (w_auth (snd (serve K ev w)))) \<subseteq> set (stored_hashes (w_auth w))"
proof (cases ev)
  case (LoginArrives i ip now)
  then show ?thesis by (simp add: serve_def split: option.split)
next
  case (RouteArrives i r tok now)
  obtain out st w' where st: "route_start r tok w = (out, st, w')" by (cases "route_start r tok w")
  with RouteArrives route_start_sessions(4) [OF st] show ?thesis
    by (simp add: serve_def split: gate_result.split web_outcome.split)
next
  case (BodyOf i e body)
  let ?w = "w\<lparr>jobs := (jobs w)(i := None)\<rparr>"
  show ?thesis
  proof (cases "jobs w i")
    case (Some j)
    show ?thesis
    proof (cases j)
      case (LoginJob ip t)
      with BodyOf Some login_hashes [of K e ip t body ?w] show ?thesis
        by (cases "login_finish K e ip t body ?w") (simp add: serve_def)
    next
      case (RouteJob r tok st)
      then have serve: "serve K ev w = route_finish K e r tok st body ?w"
        using BodyOf Some by (simp add: serve_def)
      with assms route_finish_hashes [of K e r tok st body ?w] show ?thesis
        by (cases "route_finish K e r tok st body ?w") simp
    qed
  qed (use BodyOf in \<open>simp add: serve_def\<close>)
next
  case (Janitor now)
  then show ?thesis by (simp add: serve_def purgeExpiredTokens_def)
qed

lemma run_hashes:
  "list_all (\<lambda>(v, ev, out). \<not> gives_codes out) (web_trace K evs w) \<Longrightarrow>
     set (stored_hashes (w_auth (run K evs w))) \<subseteq> set (stored_hashes (w_auth w))"
proof (induction evs arbitrary: w)
  case (Cons ev evs)
  then show ?case using serve_hashes [of K ev w] by fastforce
qed simp

lemma body_recovery_nonempty: "body_recovery b = Some c \<Longrightarrow> c \<noteq> []"
  by (auto simp: body_recovery_def non_blank_def split: if_splits)

text \<open>An entitled login with a recovery code: the code is one of those stored, and afterwards it is not.\<close>

lemma good_login_recovery:
  assumes "good_login K a b now" "totpEnabled a" "body_recovery b = Some c"
  shows "consumeRecoveryCode K c (stored_hashes a) \<noteq> None"
  using assms body_recovery_nonempty [OF assms(3)]
  by (auto simp: good_login_def totpEnabled_def totpState_def stored_hashes_def passes.simps)

lemma consume_subset:
  "consumeRecoveryCode K c hs = None \<Longrightarrow> set hs' \<subseteq> set hs \<Longrightarrow> consumeRecoveryCode K c hs' = None"
  unfolding consume_None by auto

lemma serve_login:
  assumes "fst (serve K (BodyOf i e (Some b)) w) = Reply 200 (LoggedIn token must)"
  obtains ip t where "jobs w i = Some (LoginJob ip t)" "good_login K (w_auth w) b t"
    "login_finish K e ip t (Some b) (w\<lparr>jobs := (jobs w)(i := None)\<rparr>) = serve K (BodyOf i e (Some b)) w"
proof -
  let ?w = "w\<lparr>jobs := (jobs w)(i := None)\<rparr>"
  obtain ip t where j: "jobs w i = Some (LoginJob ip t)"
    using assms route_finish_sessions [of K e _ _ _ "Some b" ?w]
    by (cases "jobs w i"; cases "the (jobs w i)") (auto simp: serve_def, metis logged_in.simps(1))
  then have serve: "login_finish K e ip t (Some b) ?w = serve K (BodyOf i e (Some b)) w"
    by (simp add: serve_def)
  obtain w' where fin: "login_finish K e ip t (Some b) ?w = (Reply 200 (LoggedIn token must), w')"
    using assms serve by (cases "serve K (BodyOf i e (Some b)) w") simp
  then have "good_login K (w_auth w) b t" by (cases rule: login_finish_cases) auto
  with j serve that show thesis by blast
qed

lemma login_spends:
  assumes "fst (serve K (BodyOf i e (Some b)) w) = Reply 200 (LoggedIn token must)"
    and "totpEnabled (w_auth w)" "distinct_hashes (stored_hashes (w_auth w))" "body_recovery b = Some c"
  shows "consumeRecoveryCode K c (stored_hashes (w_auth (snd (serve K (BodyOf i e (Some b)) w)))) = None"
proof -
  obtain ip t where j: "login_finish K e ip t (Some b) (w\<lparr>jobs := (jobs w)(i := None)\<rparr>) = serve K (BodyOf i e (Some b)) w"
    using assms(1) by (rule serve_login)
  then have "login_finish K e ip t (Some b) (w\<lparr>jobs := (jobs w)(i := None)\<rparr>) =
      (Reply 200 (LoggedIn token must), snd (serve K (BodyOf i e (Some b)) w))"
    using assms(1) by (metis prod.collapse)
  then show ?thesis
  proof (cases rule: login_finish_cases)
    case (entered2 b' must' st st' a f)
    from entered2(1,6) assms(4) body_recovery_nonempty [OF assms(4)] obtain hs
      where "consumeRecoveryCode K c (recoveryCodeHashes st) = Some hs" "st' = st\<lparr>recoveryCodeHashes := hs\<rparr>"
      by (auto simp: passes.simps)
    moreover from entered2(7) have "stored_hashes a = recoveryCodeHashes st'"
      by (auto elim!: persistTotp_cases)
    ultimately show ?thesis
      using entered2(5,8) assms(3) consume_distinct(2) by (simp add: stored_hashes_def)
  qed (use assms(2) in \<open>auto simp: totpEnabled_def totpState_def\<close>)
qed

end
