(* ===== verification/Webui_Safety.thy ===== *)
theory Webui_Safety
  imports Webui_Login
begin

text \<open>
  What the login of the web interface guarantees, over any order in which requests arrive and their bodies
  come in: sessions, recovery codes, the limit on guesses, and that the state in memory survives a restart.
\<close>

section \<open>What a step leaves alone\<close>

lemma route_finish_frame:
  "jobs (snd (route_finish K e r token st body w)) = jobs w"
  "loginAttempts (snd (route_finish K e r token st body w)) = loginAttempts w"
  by (cases r; simp add: route_finish_def route_defs Let_def split: option.split sum.split prod.split decision.split)+

lemma login_finish_jobs:
  assumes "login_finish K e ip now body w = (out, w')"
  shows "jobs w' = jobs w"
  using assms by (cases rule: login_finish_cases) auto

text \<open>The ways a step can go.\<close>

lemma serve_cases:
  assumes "serve K ev w = (out, w')"
  obtains (throttled) i ip now t where "ev = LoginArrives i ip now" "login_throttled w ip now = Some t"
      "out = Reply 429 (Failure (TooManyAttempts t))" "w' = w"
  | (login_waits) i ip now where "ev = LoginArrives i ip now" "login_throttled w ip now = None" "out = Waits"
      "w' = w\<lparr>jobs := (jobs w)(i \<mapsto> LoginJob ip now)\<rparr>"
  | (login_ends) i e body ip now where "ev = BodyOf i e body" "jobs w i = Some (LoginJob ip now)"
      "login_finish K e ip now body (w\<lparr>jobs := (jobs w)(i := None)\<rparr>) = (out, w')"
  | (route_waits) i r token now st w1 where "ev = RouteArrives i r token now" "route_start r token w = (Waits, st, w1)"
      "out = Waits" "w' = w1\<lparr>jobs := (jobs w1)(i \<mapsto> RouteJob r token st)\<rparr>"
  | (route_replies) i r token now st where "ev = RouteArrives i r token now" "route_start r token w = (out, st, w')"
  | (route_ends) i e body r token st where "ev = BodyOf i e body" "jobs w i = Some (RouteJob r token st)"
      "route_finish K e r token st body (w\<lparr>jobs := (jobs w)(i := None)\<rparr>) = (out, w')"
  | (purged) now where "ev = Janitor now" "out = Waits" "w' = purgeExpiredTokens now w"
  | (idle) "w' = w" "\<not> gives_codes out" "\<not> logged_in out" "\<forall>i ip now. ev \<noteq> LoginArrives i ip now"
      "\<forall>i e body j. ev = BodyOf i e body \<longrightarrow> jobs w i \<noteq> Some j"
proof (cases ev)
  case (LoginArrives i ip now)
  show thesis
  proof (cases "login_throttled w ip now")
    case None
    with LoginArrives assms show thesis by (intro login_waits [of i ip now]) (simp_all add: serve_def)
  next
    case (Some t)
    with LoginArrives assms show thesis by (intro throttled [of i ip now t]) (simp_all add: serve_def)
  qed
next
  case (RouteArrives i r token now)
  obtain o1 st w1 where st: "route_start r token w = (o1, st, w1)" by (rule prod_cases3)
  show thesis
  proof (cases "api_gate w (route_path r) token now")
    case Admitted
    show thesis
    proof (cases "o1 = Waits")
      case True
      with Admitted RouteArrives st assms show thesis by (intro route_waits [of i r token now st w1]) (simp_all add: serve_def)
    next
      case False
      then have "serve K ev w = (o1, w1)" using Admitted RouteArrives st by (cases o1) (simp_all add: serve_def)
      with assms RouteArrives st show thesis by (intro route_replies [of i r token now st]) simp_all
    qed
  next
    case (Denied s m)
    with RouteArrives assms show thesis by (intro idle) (auto simp: serve_def)
  next
    case Open
    with RouteArrives assms show thesis by (intro idle) (auto simp: serve_def)
  qed
next
  case (BodyOf i e body)
  show thesis
  proof (cases "jobs w i")
    case (Some j)
    show thesis
    proof (cases j)
      case (LoginJob ip now)
      with BodyOf assms Some show thesis by (intro login_ends [of i e body ip now]) (simp_all add: serve_def)
    next
      case (RouteJob r token st)
      with BodyOf assms Some show thesis by (intro route_ends [of i e body r token st]) (simp_all add: serve_def)
    qed
  next
    case None
    with BodyOf assms show thesis by (intro idle) (auto simp: serve_def)
  qed
next
  case (Janitor now)
  with assms show thesis by (intro purged [of now]) (simp_all add: serve_def)
qed

section \<open>Guesses\<close>

text \<open>Requests from an address that wait for their body, and its attempts counted.\<close>

fun login_of :: "jstr \<Rightarrow> job option \<Rightarrow> bool" where
  "login_of ip (Some (LoginJob a t)) \<longleftrightarrow> a = ip"
| "login_of ip _ \<longleftrightarrow> False"

definition logins_waiting :: "jstr \<Rightarrow> web \<Rightarrow> nat" where
  "logins_waiting ip w = card {i \<in> dom (jobs w). login_of ip (jobs w i)}"

definition attempts :: "jstr \<Rightarrow> web \<Rightarrow> nat" where
  "attempts ip w = (case loginAttempts w ip of None \<Rightarrow> 0 | Some a \<Rightarrow> at_count a)"

text \<open>A wrong password or code from the address, and a login that clears its attempts.\<close>

fun wrong_guess :: "jstr \<Rightarrow> web \<times> event \<times> web_outcome \<Rightarrow> bool" where
  "wrong_guess ip (v, BodyOf i e body, Reply s m) \<longleftrightarrow> login_of ip (jobs v i) \<and> s = 401"
| "wrong_guess ip _ \<longleftrightarrow> False"

fun right_guess :: "jstr \<Rightarrow> web \<times> event \<times> web_outcome \<Rightarrow> bool" where
  "right_guess ip (v, BodyOf i e body, Reply s m) \<longleftrightarrow> login_of ip (jobs v i) \<and> (s = 500 \<or> logged_in (Reply s m))"
| "right_guess ip _ \<longleftrightarrow> False"

fun in_window :: "int \<Rightarrow> event \<Rightarrow> bool" where
  "in_window t0 (LoginArrives i ip now) \<longleftrightarrow> t0 \<le> now \<and> now < t0 + LOGIN_LOCKOUT_MS"
| "in_window t0 (Janitor now) \<longleftrightarrow> now < t0 + LOGIN_LOCKOUT_MS"
| "in_window t0 _ \<longleftrightarrow> True"

definition limited :: "jstr \<Rightarrow> int \<Rightarrow> nat \<Rightarrow> web \<Rightarrow> bool" where
  "limited ip t0 p w \<longleftrightarrow> finite (dom (jobs w)) \<and> attempts ip w + logins_waiting ip w < LOGIN_MAX_ATTEMPTS + p \<and>
     (\<forall>a. loginAttempts w ip = Some a \<longrightarrow> 0 < at_count a \<and> t0 + LOGIN_LOCKOUT_MS \<le> resetAt a) \<and>
     (\<forall>i t. jobs w i = Some (LoginJob ip t) \<longrightarrow> t0 \<le> t)"

lemma waiting_delete:
  assumes "finite (dom (jobs w))"
  shows "logins_waiting ip (w\<lparr>jobs := (jobs w)(i := None)\<rparr>) = logins_waiting ip w - (if login_of ip (jobs w i) then 1 else 0)"
proof -
  have "{k \<in> dom ((jobs w)(i := None)). login_of ip (((jobs w)(i := None)) k)} = {k \<in> dom (jobs w). login_of ip (jobs w k)} - {i}"
    by auto
  moreover have "i \<in> {k \<in> dom (jobs w). login_of ip (jobs w k)} \<longleftrightarrow> login_of ip (jobs w i)"
    by (cases "jobs w i") auto
  ultimately show ?thesis
    using assms by (simp add: logins_waiting_def card_Diff_singleton_if)
qed

lemma waiting_pos:
  assumes "finite (dom (jobs w))" "login_of ip (jobs w i)"
  shows "0 < logins_waiting ip w"
  using assms by (cases "jobs w i") (auto simp: logins_waiting_def card_gt_0_iff)

lemma waiting_cong: "jobs w = jobs v \<Longrightarrow> logins_waiting ip w = logins_waiting ip v"
  by (simp add: logins_waiting_def)

lemma attempts_cong: "loginAttempts w = loginAttempts v \<Longrightarrow> attempts ip w = attempts ip v"
  by (simp add: attempts_def)

lemma count_failure_simps [simp]:
  "at_count (count_failure now a) = Suc (case a of None \<Rightarrow> 0 | Some x \<Rightarrow> at_count x)"
  "resetAt (count_failure now a) = (case a of None \<Rightarrow> now + LOGIN_LOCKOUT_MS
     | Some x \<Rightarrow> if at_count x = 0 then now + LOGIN_LOCKOUT_MS else resetAt x)"
  by (auto simp: count_failure_def Let_def split: option.split)

text \<open>A step that adds no waiting login of the address and keeps its attempts keeps the limit.\<close>

lemma login_of_iff: "login_of ip j \<longleftrightarrow> (\<exists>t. j = Some (LoginJob ip t))"
  by (cases "(ip, j)" rule: login_of.cases) auto

lemma limited_mono:
  assumes "limited ip t0 p w" "finite (dom (jobs w'))" "loginAttempts w' ip = loginAttempts w ip"
    and "\<And>i t. jobs w' i = Some (LoginJob ip t) \<Longrightarrow> jobs w i = Some (LoginJob ip t)"
  shows "limited ip t0 p w'"
proof -
  have "logins_waiting ip w' \<le> logins_waiting ip w"
    unfolding logins_waiting_def using assms(1,4) by (intro card_mono) (auto simp: limited_def login_of_iff)
  moreover have "\<forall>i t. jobs w' i = Some (LoginJob ip t) \<longrightarrow> t0 \<le> t"
    using assms(1,4) unfolding limited_def by blast
  ultimately show ?thesis using assms(1-3) by (simp add: limited_def attempts_def)
qed

definition guess_step :: "jstr \<Rightarrow> int \<Rightarrow> nat \<Rightarrow> web \<Rightarrow> event \<Rightarrow> web_outcome \<Rightarrow> web \<Rightarrow> bool" where
  "guess_step ip t0 p w ev out w' \<longleftrightarrow> limited ip t0 p w' \<and>
     attempts ip w' = attempts ip w + (if wrong_guess ip (w, ev, out) then 1 else 0)"

lemma guess_step_other:
  assumes "limited ip t0 p w" "finite (dom (jobs w'))" "loginAttempts w' ip = loginAttempts w ip" "\<not> wrong_guess ip (w, ev, out)"
    and "\<And>i t. jobs w' i = Some (LoginJob ip t) \<Longrightarrow> jobs w i = Some (LoginJob ip t)"
  shows "guess_step ip t0 p w ev out w'"
  using assms limited_mono [OF assms(1-3)] by (simp add: guess_step_def attempts_def)

lemma limited_finite: "limited ip t0 p w \<Longrightarrow> finite (dom (jobs w))"
  by (simp add: limited_def)

lemma login_ends_step:
  assumes lim: "limited ip t0 p w" and job: "jobs w i = Some (LoginJob ip2 now)"
    and fin: "login_finish K e ip2 now body (w\<lparr>jobs := (jobs w)(i := None)\<rparr>) = (out, w')"
    and no: "\<not> right_guess ip (w, BodyOf i e body, out)"
  shows "guess_step ip t0 p w (BodyOf i e body) out w'"
proof -
  let ?w = "w\<lparr>jobs := (jobs w)(i := None)\<rparr>"
  have jobs: "jobs w' = (jobs w)(i := None)" using login_finish_jobs [OF fin] by simp
  have other: "guess_step ip t0 p w (BodyOf i e body) out w'"
    if "loginAttempts w' ip = loginAttempts w ip" "\<not> wrong_guess ip (w, BodyOf i e body, out)"
    using that by (intro guess_step_other [OF lim]) (auto simp: jobs limited_finite [OF lim] split: if_splits)
  show ?thesis
  proof (cases "ip2 = ip")
    case False
    then have "\<not> wrong_guess ip (w, BodyOf i e body, out)" using job by (cases out) auto
    moreover from fin False have "loginAttempts w' ip = loginAttempts w ip"
      by (cases rule: login_finish_cases) auto
    ultimately show ?thesis by (rule other [rotated])
  next
    case True
    from fin show ?thesis
    proof (cases rule: login_finish_cases)
      case (wrong m)
      have "0 < logins_waiting ip w" "logins_waiting ip w' = logins_waiting ip w - 1"
        using lim job True waiting_pos [of w ip i] waiting_delete [of w ip i] waiting_cong [of w' ?w] jobs
        by (auto simp: limited_finite)
      moreover have "t0 \<le> now" using lim job True by (auto simp: limited_def)
      ultimately show ?thesis
        using lim wrong True job by (auto simp: guess_step_def limited_def attempts_def jobs split: option.splits if_splits)
    next
      case unsaved
      with no True job show ?thesis by simp
    next
      case (entered b must)
      with no True job show ?thesis by simp
    next
      case (entered2 b must st st' a f)
      with no True job show ?thesis by simp
    qed (use other in auto)
  qed
qed

lemma serve_limited:
  assumes "limited ip t0 p w" "serve K ev w = (out, w')" "in_window t0 ev" "logins_waiting ip w' \<le> p"
    and "\<not> right_guess ip (w, ev, out)"
  shows "guess_step ip t0 p w ev out w'"
  using assms(2)
proof (cases rule: serve_cases)
  case (login_waits i ip2 now)
  show ?thesis
  proof (cases "ip2 = ip")
    case True
    have "attempts ip w < LOGIN_MAX_ATTEMPTS"
      using login_waits(1,2) True assms(1,3)
      by (auto simp: attempts_def login_throttled_def limited_def LOGIN_MAX_ATTEMPTS_def split: option.splits if_splits)
    then have "attempts ip w' + logins_waiting ip w' < LOGIN_MAX_ATTEMPTS + p"
      using assms(4) login_waits(4) by (simp add: attempts_def)
    then show ?thesis
      using assms(1,3) login_waits by (auto simp: guess_step_def limited_def attempts_def)
  next
    case False
    with login_waits assms(1) show ?thesis
      by (intro guess_step_other) (auto simp: limited_finite split: if_splits)
  qed
next
  case (login_ends i e body ip2 now)
  with login_ends_step assms(1,5) show ?thesis by blast
next
  case (route_waits i r token now st w1)
  with assms(1) route_start_sessions(3,6) [OF route_waits(2)] show ?thesis
    by (intro guess_step_other) (auto simp: limited_finite split: if_splits)
next
  case (route_replies i r token now st)
  with assms(1) route_start_sessions(3,6) [OF route_replies(2)] show ?thesis
    by (intro guess_step_other) (auto simp: limited_finite)
next
  case (route_ends i e body r token st)
  from route_ends(3) route_finish_frame [of K e r token st body "w\<lparr>jobs := (jobs w)(i := None)\<rparr>"]
  have "jobs w' = (jobs w)(i := None)" "loginAttempts w' = loginAttempts w" by simp_all
  moreover have "\<not> wrong_guess ip (w, ev, out)" using route_ends(1,2) by (cases out) auto
  ultimately show ?thesis
    using assms(1) by (intro guess_step_other) (auto simp: limited_finite split: if_splits)
next
  case (purged now)
  with assms(1,3) show ?thesis
    by (intro guess_step_other) (auto simp: limited_finite limited_def purgeExpiredTokens_def split: option.splits)
next
  case (throttled i ip2 now t)
  with assms(1) show ?thesis by (intro guess_step_other) (auto simp: limited_finite)
next
  case idle
  then have "\<not> wrong_guess ip (w, ev, out)" by (cases "(ip, w, ev, out)" rule: wrong_guess.cases) (auto simp: login_of_iff)
  with idle assms(1) show ?thesis by (intro guess_step_other) (auto simp: limited_finite)
qed

lemma run_limited:
  assumes "limited ip t0 p w" "list_all (in_window t0) evs" "\<And>k. logins_waiting ip (run K (take k evs) w) \<le> p"
    and "list_all (\<lambda>x. \<not> right_guess ip x) (web_trace K evs w)"
  shows "limited ip t0 p (run K evs w) \<and>
    attempts ip (run K evs w) = attempts ip w + length (filter (wrong_guess ip) (web_trace K evs w))"
  using assms
proof (induction evs arbitrary: w)
  case (Cons ev evs)
  obtain out w' where ev: "serve K ev w = (out, w')" by (cases "serve K ev w")
  have "logins_waiting ip (run K (take k evs) w') \<le> p" for k using Cons.prems(3) [of "Suc k"] ev by simp
  moreover from this [of 0] Cons.prems ev serve_limited [OF Cons.prems(1) ev] have "guess_step ip t0 p w ev out w'" by simp
  ultimately show ?case
    using Cons.IH [of w'] Cons.prems ev by (simp add: guess_step_def)
qed simp

section \<open>Restarts\<close>

definition web_ok :: "crypto \<Rightarrow> web \<Rightarrow> bool" where
  "web_ok K w \<longleftrightarrow> auth_ok K (auth_state (w_auth w)) \<and> durable K (w_auth w, w_file w) \<and>
     (\<forall>t en. totpEnrollments w t = Some en \<longrightarrow> te_secret en \<noteq> [] \<and> length (enrolled_label en) \<le> 128) \<and>
     (\<forall>i ip t. jobs w i = Some (LoginJob ip t) \<longrightarrow> 30000 \<le> t) \<and>
     (\<forall>i r token st. jobs w i = Some (RouteJob r token (Some st)) \<longrightarrow> totp_ok st)"

text \<open>
  What the platform gives a request: valid dates, random bytes of the length asked for, a clock after the
  first thirty seconds of 1970, a new secret that is not empty.  And the names a request for a new secret may carry: together
  at most 125 characters.
\<close>

definition label_fits :: "finish_env \<Rightarrow> body \<Rightarrow> bool" where
  "label_fits e body \<longleftrightarrow> (let b = (case body of Some (JObj ms) \<Rightarrow> JObj ms | _ \<Rightarrow> JObj []) in
     length (sanitizeTotpLabelPart (member_of b (js ''issuer'')) DEFAULT_TOTP_ISSUER) +
     length (sanitizeTotpLabelPart (member_of b (js ''accountName'')) (defaultTotpAccountName (fe_host e))) \<le> 125)"

fun event_ok :: "crypto \<Rightarrow> event \<Rightarrow> bool" where
  "event_ok K (LoginArrives i ip now) \<longleftrightarrow> 30000 \<le> now"
| "event_ok K (BodyOf i e body) \<longleftrightarrow> date_ok K (fe_iso e) \<and> length (fe_salt e) = 16 \<and>
     length (fst (fe_wrap e)) = WRAP_SALT_BYTES \<and> length (snd (fe_wrap e)) = WRAP_IV_BYTES \<and>
     30000 \<le> fe_now e \<and> fe_secret e \<noteq> [] \<and> label_fits e body"
| "event_ok K _ \<longleftrightarrow> True"

lemma web_okI_auth:
  assumes "web_ok K w" "auth_ok K (auth_state a)" "durable K (a, f)" "w_auth w' = a" "w_file w' = f" "jobs w' = jobs w"
    and "totpEnrollments w' \<subseteq>\<^sub>m totpEnrollments w"
  shows "web_ok K w'"
proof -
  have "totpEnrollments w t = Some en" if "totpEnrollments w' t = Some en" for t en
    using assms(7) that by (auto simp: map_le_def dom_def)
  with assms show ?thesis by (fastforce simp: web_ok_def)
qed

lemma web_ok_delete: "web_ok K w \<Longrightarrow> web_ok K (w\<lparr>jobs := (jobs w)(i := None)\<rparr>)"
  by (auto simp: web_ok_def split: if_splits)

lemma web_ok_totp: "web_ok K w \<Longrightarrow> totpState (w_auth w) = Some st \<Longrightarrow> totp_ok st"
  by (auto simp: web_ok_def auth_ok_def totpState_def)

lemma web_ok_persist:
  assumes "web_ok K w" "persistTotp now ok t (w_auth w, w_file w) = (r, a, f)" "date_ok K now" "pred_option totp_ok t"
    and "w_auth w' = a" "w_file w' = f" "jobs w' = jobs w" "totpEnrollments w' \<subseteq>\<^sub>m totpEnrollments w"
  shows "web_ok K w'"
proof -
  have "auth_ok K (auth_state (w_auth w))" "durable K (w_auth w, w_file w)" using assms(1) by (simp_all add: web_ok_def)
  from persist_durable [OF assms(2) this(2,1) assms(3,4)] show ?thesis
    using web_okI_auth [OF assms(1) _ _ assms(5-8)] by simp
qed

lemma regenerate_ok:
  assumes "regenerateRecoveryCodes K rnd password st code now = Some (Inr (st', codes))" "totp_ok st" "crypto_laws K" "30000 \<le> now"
  shows "totp_ok st'"
proof -
  obtain s where s: "verifySecondFactor K password st now (Some code) None = Some s" "generateRecoveryCodes rnd = Some codes"
      "st' = s\<lparr>recoveryCodeHashes := map (hashRecoveryCode K) codes\<rparr>"
    using assms(1) by (auto simp: regenerateRecoveryCodes_def split: option.splits)
  from s(1) have "totp_ok s" using passes_ok assms(2-4) by (auto simp: verifySecondFactor_passes)
  then show ?thesis
    using s(3) hash_lower_hex [OF assms(3)] generated_codes(1) [OF s(2)]
    by (simp add: totp_ok_wrapped list_all_iff) (simp add: wrapped_ok_def)
qed

lemma login_finish_ok:
  assumes "login_finish K e ip now body w = (out, w')" "web_ok K w" "crypto_laws K" "date_ok K (fe_iso e)" "30000 \<le> now"
  shows "web_ok K w'"
  using assms(1)
proof (cases rule: login_finish_cases)
  case (entered2 b must st st' a f)
  have "totp_ok st'" using passes_ok [OF entered2(6) _ assms(3,5)] web_ok_totp [OF assms(2) entered2(5)] by simp
  then show ?thesis
    using entered2(8) by (intro web_ok_persist [OF assms(2) entered2(7) assms(4)]) simp_all
qed (use assms(2) in \<open>auto simp: web_ok_def\<close>)

lemma begin_ok:
  assumes "web_ok K w" "event_ok K (BodyOf i e body)"
  shows "web_ok K (snd (totp_begin_finish K e token body w))"
proof -
  let ?b = "case body of Some (JObj ms) \<Rightarrow> JObj ms | _ \<Rightarrow> JObj []"
  let ?issuer = "sanitizeTotpLabelPart (member_of ?b (js ''issuer'')) DEFAULT_TOTP_ISSUER"
  let ?account = "sanitizeTotpLabelPart (member_of ?b (js ''accountName'')) (defaultTotpAccountName (fe_host e))"
  have "length ?issuer + length ?account \<le> 125" using assms(2) by (simp add: label_fits_def Let_def)
  moreover have "en_secret en \<noteq> []" if "beginTotpEnrollment K (fe_secret e) x y (case totpEnrollments w token of
      Some x \<Rightarrow> if te_expiresAt x > fe_now e then Some (te_secret x) else None | None \<Rightarrow> None) = Inr en" for x y en
    using that assms by (auto simp: beginTotpEnrollment_def Let_def web_ok_def split: if_splits option.splits)
  ultimately show ?thesis
    using assms(1)
    by (auto simp: totp_begin_finish_def Let_def web_ok_def enrolled_label_def js_def split: sum.splits if_splits)
qed

lemma route_finish_ok:
  assumes "route_finish K e r token st body w = (out, w')" "web_ok K w" "crypto_laws K" "event_ok K (BodyOf i e body)"
    and "pred_option totp_ok st"
  shows "web_ok K w'"
proof (cases r)
  case ChangePassword
  with assms(1) have "change_password_finish K e body w = (out, w')" by (simp add: route_finish_def)
  then show ?thesis
  proof (cases rule: change_password_cases)
    case (changed b a f)
    have "auth_ok K (auth_state a)" "durable K (a, f)"
      using setPassword_durable [of K "fe_salt e" "fst (fe_wrap e)" "snd (fe_wrap e)"] changed(6) assms(2-4)
      by (auto simp: web_ok_def)
    then show ?thesis using changed(5) by (intro web_okI_auth [OF assms(2)]) simp_all
  qed (use assms(2) in simp)
next
  case TotpBegin
  with assms begin_ok [OF assms(2,4), of token] show ?thesis by (simp add: route_finish_def)
next
  case TotpConfirm
  with assms(1) have "totp_confirm_finish K e token body w = (out, w')" by (simp add: route_finish_def)
  then show ?thesis
  proof (cases rule: totp_confirm_cases)
    case same
    with assms(2) show ?thesis by (intro web_okI_auth [OF assms(2) _ _ same(3,4,5,6)]) (auto simp: web_ok_def)
  next
    case (enabled b pending state codes a f)
    have "totp_ok state"
      using confirm_ok [of K "fst (fe_wrap e)" "snd (fe_wrap e)"] enabled(2,4) assms(2-4)
      by (auto simp: web_ok_def enrolled_label_def js_def)
    then show ?thesis
      using enabled(7) assms(4) by (intro web_ok_persist [OF assms(2) enabled(5)]) (simp_all add: delete_sub)
  qed
next
  case TotpDisable
  with assms(1) have "totp_disable_finish K e token body w = (out, w')" by (simp add: route_finish_def)
  then show ?thesis
  proof (cases rule: totp_disable_cases)
    case (disabled b r a f)
    then show ?thesis using assms(4) by (intro web_ok_persist [OF assms(2) disabled(4)]) (simp_all add: delete_sub)
  qed (use assms(2) in simp)
next
  case TotpRecoveryCodes
  show ?thesis
  proof (cases st)
    case (Some s)
    with assms(1) TotpRecoveryCodes have "totp_recovery_finish K e s body w = (out, w')" by (simp add: route_finish_def)
    then show ?thesis
    proof (cases rule: totp_recovery_cases)
      case (renewed b state' codes a f)
      have "totp_ok state'" using regenerate_ok [OF renewed(3) _ assms(3)] Some assms(4,5) by simp
      then show ?thesis
        using renewed(6) assms(4) by (intro web_ok_persist [OF assms(2) renewed(4)]) simp_all
    qed (use assms(2) in simp)
  qed (use assms(1,2) TotpRecoveryCodes in \<open>simp add: route_finish_def\<close>)
qed (use assms(1,2) in \<open>simp_all add: route_finish_def\<close>)

lemma serve_ok:
  assumes "web_ok K w" "event_ok K ev" "crypto_laws K"
  shows "web_ok K (snd (serve K ev w))"
proof -
  obtain out w' where ev: "serve K ev w = (out, w')" by (cases "serve K ev w")
  then have "web_ok K w'"
  proof (cases rule: serve_cases)
    case (login_waits i ip now)
    with assms(1,2) show ?thesis by (auto simp: web_ok_def)
  next
    case (login_ends i e body ip now)
    with assms show ?thesis
      by (intro login_finish_ok [OF login_ends(3) web_ok_delete]) (auto simp: web_ok_def)
  next
    case (route_waits i r token now st w1)
    have "totp_ok s" if "st = Some s" for s
      using that route_start_sessions(8) [OF route_waits(2)] web_ok_totp [OF assms(1)] by auto
    with route_waits(4) route_start_sessions [OF route_waits(2)] assms(1) show ?thesis
      by (auto simp: web_ok_def)
  next
    case (route_replies i r token now st)
    with route_start_sessions [OF route_replies(2)] assms(1) show ?thesis by (simp add: web_ok_def)
  next
    case (route_ends i e body r token st)
    with assms show ?thesis
      by (intro route_finish_ok [OF route_ends(3) web_ok_delete, where i = i]) (auto simp: web_ok_def pred_option_def)
  next
    case (purged now)
    with assms(1) show ?thesis by (auto simp: web_ok_def purgeExpiredTokens_def split: option.splits if_splits)
  qed (use assms(1) in simp_all)
  with ev show ?thesis by simp
qed

lemma run_ok:
  "web_ok K w \<Longrightarrow> list_all (event_ok K) evs \<Longrightarrow> crypto_laws K \<Longrightarrow> web_ok K (run K evs w)"
  by (induction evs arbitrary: w) (simp_all add: serve_ok)

section \<open>Findings\<close>

text \<open>
  Only the last code is refused a second time: once the code of another step has been used, an earlier one
  that is still in the window is accepted again.
\<close>

lemma earlier_code_accepted_again:
  assumes "verifyTotpCode K secret code atMs None = Some step" "lastUsed \<noteq> step"
  shows "verifyTotpCode K secret code atMs (Some lastUsed) = Some step"
  using assms by (auto simp: verifyTotpCode_def Let_def split: if_splits option.splits)

text \<open>
  The limit is checked before the body is awaited, so requests that wait together are all let through: any
  number of guesses at the same moment.
\<close>

lemma arrivals_wait:
  "login_throttled w ip t = None \<Longrightarrow> \<exists>j. run K (map (\<lambda>i. LoginArrives i ip t) is) w = w\<lparr>jobs := j\<rparr> \<and>
     (\<forall>i\<in>set is. j i = Some (LoginJob ip t))"
proof (induction "is" arbitrary: w rule: rev_induct)
  case (snoc i js)
  have run: "run K (xs @ ys) v = run K ys (run K xs v)" for xs ys v by (induction xs arbitrary: v) simp_all
  from snoc obtain j where "run K (map (\<lambda>i. LoginArrives i ip t) js) w = w\<lparr>jobs := j\<rparr>" "\<forall>i\<in>set js. j i = Some (LoginJob ip t)"
    by blast
  moreover have "login_throttled (w\<lparr>jobs := j\<rparr>) ip t = None" using snoc.prems by (simp add: login_throttled_def)
  ultimately show ?case by (intro exI [of _ "j(i \<mapsto> LoginJob ip t)"]) (simp add: run serve_def fun_upd_def)
next
  case Nil
  show ?case by (intro exI [of _ "jobs w"]) simp
qed

lemma bodies_wrong:
  assumes "distinct is" "\<forall>i\<in>set is. jobs w i = Some (LoginJob ip t)"
    and "completeWebuiLogin K (login_auth_of K (w_auth w)) b t = BadPassword"
  shows "length (filter (wrong_guess ip) (web_trace K (map (\<lambda>i. BodyOf i e (Some b)) is) w)) = length is"
  using assms
proof (induction "is" arbitrary: w)
  case (Cons i js)
  let ?w = "snd (serve K (BodyOf i e (Some b)) w)"
  have s: "serve K (BodyOf i e (Some b)) w = (Reply 401 (Failure WrongPassword), w\<lparr>jobs := (jobs w)(i := None),
      loginAttempts := (loginAttempts w)(ip \<mapsto> count_failure t (loginAttempts w ip))\<rparr>)"
    using Cons.prems by (simp add: serve_def login_finish_def)
  have "length (filter (wrong_guess ip) (web_trace K (map (\<lambda>i. BodyOf i e (Some b)) js) ?w)) = length js"
    using Cons.prems by (intro Cons.IH) (auto simp: s)
  then show ?case using Cons.prems by (simp add: s)
qed simp

lemma parallel_guesses_unlimited:
  assumes "login_throttled w ip t = None" "completeWebuiLogin K (login_auth_of K (w_auth w)) b t = BadPassword"
  shows "length (filter (wrong_guess ip) (web_trace K (map (\<lambda>i. BodyOf i e (Some b)) [0..<n])
    (run K (map (\<lambda>i. LoginArrives i ip t) [0..<n]) w))) = n"
proof -
  from arrivals_wait [OF assms(1), of K "[0..<n]"] obtain j
    where "run K (map (\<lambda>i. LoginArrives i ip t) [0..<n]) w = w\<lparr>jobs := j\<rparr>" "\<forall>i\<in>set [0..<n]. j i = Some (LoginJob ip t)"
    by blast
  with bodies_wrong [of "[0..<n]" "w\<lparr>jobs := j\<rparr>" ip t K b e] assms(2) show ?thesis by simp
qed

text \<open>What a start makes of stored credentials: a password that had to be changed is replaced by a new initial one.\<close>

definition restarted ::
    "crypto \<Rightarrow> start_env \<Rightarrow> auth_state \<Rightarrow> config_file \<Rightarrow> (auth_error + webui_auth) \<times> config_file" where
  "restarted K env st f =
     (if mustChange st then
        (case se_rotate env of (pwd, salt, now) \<Rightarrow>
           let initial = generateInitialState K (to_hex pwd) salt now in
           (Inr \<lparr>auth_state = initial, initialPlain = Some (to_hex pwd), devMode = False\<rparr>, Holds (auth_json initial)))
      else (Inr \<lparr>auth_state = st, initialPlain = None, devMode = False\<rparr>, f))"

lemma load_restarted:
  assumes "parseLiveAuthState K j = Some st" "\<not> se_dev env" "se_write1 env"
  shows "WebuiAuth_load K env (Holds j) = restarted K env st (Holds j)"
  using assms by (auto simp: WebuiAuth_load_def restarted_def atomicWrite_def Let_def split: prod.splits)

text \<open>
  A restored file lasts until the running server writes its own credentials again, for instance at the next
  login with a second factor.
\<close>

lemma restored_credentials_lost:
  assumes "persistTotp now True t (w_auth w, w_file (restored_credentials K value w)) = (Inr (), a, f)"
  shows "f = Holds (auth_json (auth_state a))" "passwordHash (auth_state a) = passwordHash (auth_state (w_auth w))"
  using assms by (cases rule: persistTotp_cases; simp)+

text \<open>
  One request after the other, each with a wrong password, at times when the entry of the address has run out.
\<close>

definition guess_events :: "jstr \<Rightarrow> (nat \<Rightarrow> int) \<Rightarrow> finish_env \<Rightarrow> body \<Rightarrow> nat \<Rightarrow> event list" where
  "guess_events ip ts e body n = concat (map (\<lambda>i. [LoginArrives i ip (ts i), BodyOf i e body]) [0..<n])"

lemma expired_guess:
  assumes "loginAttempts w ip = Some a" "0 < at_count a" "resetAt a \<le> t" "is_object b" "\<not> verify K (w_auth w) (body_text b ''password'')"
    and "w1 = snd (serve K (LoginArrives i ip t) w)"
  shows "fst (serve K (LoginArrives i ip t) w) = Waits" "jobs w1 i = Some (LoginJob ip t)"
    "fst (serve K (BodyOf i e (Some b)) w1) = Reply 401 (Failure WrongPassword)"
    "loginAttempts (snd (serve K (BodyOf i e (Some b)) w1)) ip = Some (a\<lparr>at_count := at_count a + 1\<rparr>)"
    "w_auth (snd (serve K (BodyOf i e (Some b)) w1)) = w_auth w"
proof -
  have "login_throttled w ip t = None" using assms(1,3) by (simp add: login_throttled_def)
  then have w1: "w1 = w\<lparr>jobs := (jobs w)(i \<mapsto> LoginJob ip t)\<rparr>" and "fst (serve K (LoginArrives i ip t) w) = Waits"
    by (simp_all add: assms(6) serve_def)
  then show "fst (serve K (LoginArrives i ip t) w) = Waits" "jobs w1 i = Some (LoginJob ip t)" by simp_all
  have "completeWebuiLogin K (login_auth_of K (w_auth w)) b t = BadPassword"
    using assms(4,5) by (simp add: completeWebuiLogin_def login_auth_of_def body_text_def readString_def Let_def)
  then have "serve K (BodyOf i e (Some b)) w1 = (Reply 401 (Failure WrongPassword),
      w\<lparr>jobs := (jobs w)(i := None), loginAttempts := (loginAttempts w)(ip \<mapsto> count_failure t (loginAttempts w ip))\<rparr>)"
    by (simp add: serve_def w1 login_finish_def)
  with assms(1,2) show "fst (serve K (BodyOf i e (Some b)) w1) = Reply 401 (Failure WrongPassword)"
    "loginAttempts (snd (serve K (BodyOf i e (Some b)) w1)) ip = Some (a\<lparr>at_count := at_count a + 1\<rparr>)"
    "w_auth (snd (serve K (BodyOf i e (Some b)) w1)) = w_auth w"
    by (simp_all add: count_failure_def Let_def)
qed

section \<open>Properties\<close>

text \<open>C5: In any run from a state without sessions, whatever the order of requests and bodies, a protected path is
  admitted with a token only when an earlier login of the run issued that token: at that login the
  password was right, and when the second factor was on, a current one-time code other than the last or a stored recovery
  code was given; the login's request arrived at most 24 hours before.  A session that must change its password reaches only the paths meant for that.\<close>

theorem session_needs_login:
  assumes "sessionTokens w0 = Map.empty" "api_gate (run K evs w0) path token now = Admitted"
  shows "\<exists>v i e b ip t must. (v, BodyOf i e (Some b), Reply 200 (LoggedIn token must)) \<in> set (web_trace K evs w0) \<and>
    jobs v i = Some (LoginJob ip t) \<and> good_login K (w_auth v) b t \<and> now \<le> t + TOKEN_TTL_MS \<and>
    must = mustChangePassword (w_auth v) \<and> (must \<longrightarrow> path \<in> set MUST_CHANGE_ALLOWLIST)"
proof -
  from assms(2) obtain info where info: "sessionTokens (run K evs w0) token = Some info" "now \<le> expiresAt info"
      "si_mustChange info \<Longrightarrow> path \<in> set MUST_CHANGE_ALLOWLIST" by (rule gate_admits) blast
  from run_session [OF info(1)] assms(1) obtain v i e b ip t
    where "(v, BodyOf i e (Some b), Reply 200 (LoggedIn token (si_mustChange info))) \<in> set (web_trace K evs w0)"
      "jobs v i = Some (LoginJob ip t)" "good_login K (w_auth v) b t"
      "info = \<lparr>expiresAt = t + TOKEN_TTL_MS, si_mustChange = mustChangePassword (w_auth v)\<rparr>" by auto
  with info(2,3) show ?thesis by (intro exI [of _ v] exI [of _ i] exI [of _ e] exI [of _ b] exI [of _ ip] exI [of _ t]) auto
qed

text \<open>C6: A recovery code opens one session: after a login with it, and any further requests that
  hand out no new codes, no login with the same code (however it is spaced or dashed) succeeds while the second factor is on.\<close>

theorem recovery_code_once:
  assumes "fst (serve K (BodyOf i e (Some b)) w) = Reply 200 (LoggedIn token must)"
    and "totpEnabled (w_auth w)" "distinct_hashes (stored_hashes (w_auth w))" "body_recovery b = Some c"
    and "w1 = snd (serve K (BodyOf i e (Some b)) w)" "list_all (\<lambda>(v, ev, out). \<not> gives_codes out) (web_trace K evs w1)"
    and "totpEnabled (w_auth (run K evs w1))" "body_recovery b2 = Some c2" "normalizeRecoveryCode K c2 = normalizeRecoveryCode K c"
  shows "fst (serve K (BodyOf j e2 (Some b2)) (run K evs w1)) \<noteq> Reply 200 (LoggedIn token2 must2)"
proof
  assume "fst (serve K (BodyOf j e2 (Some b2)) (run K evs w1)) = Reply 200 (LoggedIn token2 must2)"
  then obtain t where "good_login K (w_auth (run K evs w1)) b2 t" by (rule serve_login)
  from good_login_recovery [OF this assms(7,8)]
  have "consumeRecoveryCode K c2 (stored_hashes (w_auth (run K evs w1))) \<noteq> None" .
  moreover have "consumeRecoveryCode K c (stored_hashes (w_auth (run K evs w1))) = None"
    using consume_subset [OF login_spends [OF assms(1-4)]] run_hashes [OF assms(6)] assms(5) by simp
  ultimately show False
    using assms(9) by (simp add: consume_None hashRecoveryCode_def)
qed

text \<open>C24: An address that has no entry in the table of attempts and no request waiting, and none of whose logins succeeds:
  within one lock-out period its wrong passwords and codes are at most four more than the requests it
  has waiting for their bodies at a time, five when it sends one request after the other.\<close>

theorem login_guesses_bounded:
  assumes "loginAttempts w ip = None" "jobs w = Map.empty" "1 \<le> p" "list_all (in_window t0) evs"
    and "list_all (\<lambda>k. logins_waiting ip (run K (take k evs) w) \<le> p) [0..<Suc (length evs)]" "list_all (\<lambda>x. \<not> right_guess ip x) (web_trace K evs w)"
  shows "length (filter (wrong_guess ip) (web_trace K evs w)) \<le> LOGIN_MAX_ATTEMPTS - 1 + p"
proof -
  have "limited ip t0 p w" "attempts ip w = 0"
    using assms(1-3) by (simp_all add: limited_def attempts_def logins_waiting_def LOGIN_MAX_ATTEMPTS_def)
  moreover have "logins_waiting ip (run K (take k evs) w) \<le> p" for k
    using assms(5) by (cases "k \<le> length evs") (auto simp: list_all_iff)
  ultimately show ?thesis
    using run_limited [OF _ assms(4) _ assms(6)] by (fastforce simp: limited_def LOGIN_MAX_ATTEMPTS_def)
qed

text \<open>C17: An entry that has run out does not limit an address.  After the reset time of its entry, and until the janitor removes it, an
  address can send any number of wrong passwords, one request after the other: each is checked and answered with 401, none with 429, since
  the old entry neither stops a request nor starts a new period.\<close>

theorem expired_attempts_unlimited:
  assumes "loginAttempts w ip = Some a" "LOGIN_MAX_ATTEMPTS \<le> at_count a" "\<And>i. resetAt a \<le> ts i"
    and "is_object b" "\<not> verify K (w_auth w) (body_text b ''password'')"
  shows "length (filter (wrong_guess ip) (web_trace K (guess_events ip ts e (Some b) n) w)) = n \<and>
    list_all (\<lambda>(v, ev, out). out = Waits \<or> out = Reply 401 (Failure WrongPassword)) (web_trace K (guess_events ip ts e (Some b) n) w)"
proof -
  have tr: "web_trace K (xs @ ys) v = web_trace K xs v @ web_trace K ys (run K xs v)" and
    rn: "run K (xs @ ys) v = run K ys (run K xs v)" for xs ys v
    by (induction xs arbitrary: v) simp_all
  let ?w = "\<lambda>n. run K (guess_events ip ts e (Some b) n) w"
  have st: "loginAttempts (?w n) ip = Some (a\<lparr>at_count := at_count a + n\<rparr>) \<and> w_auth (?w n) = w_auth w" for n
  proof (induction n)
    case (Suc n)
    with expired_guess [of "?w n" ip "a\<lparr>at_count := at_count a + n\<rparr>" "ts n" b K, OF _ _ _ _ _ refl] assms show ?case
      by (simp add: guess_events_def rn LOGIN_MAX_ATTEMPTS_def)
  qed (simp add: guess_events_def assms(1))
  show ?thesis
  proof (induction n)
    case (Suc n)
    have "guess_events ip ts e (Some b) (Suc n) = guess_events ip ts e (Some b) n @ [LoginArrives n ip (ts n), BodyOf n e (Some b)]"
      by (simp add: guess_events_def)
    with Suc st [of n] expired_guess [of "?w n" ip "a\<lparr>at_count := at_count a + n\<rparr>" "ts n" b K, OF _ _ _ _ _ refl] assms show ?case
      by (simp add: tr LOGIN_MAX_ATTEMPTS_def)
  qed (simp add: guess_events_def)
qed

text \<open>C8: Restarts.  Whatever login, session, password and second-factor requests are served outside dev mode, in whatever order and with
  whatever writes failing, the next start reads the credentials in memory from the file: the same password, the same second factor,
  the same recovery codes; only a password that still had to be changed is replaced by a new initial one.  If a backup with
  credentials is restored after these requests, the next start reads those of the backup.  The names of an enrolment must not have more than
  125 characters together, and the start can write the file.\<close>

theorem restart_keeps_credentials:
  assumes "web_ok K w" "list_all (event_ok K) evs" "crypto_laws K" "w' = run K evs w"
    and "\<not> devMode (w_auth w')" "\<not> se_dev env" "se_write1 env"
  shows "WebuiAuth_load K env (w_file w') = restarted K env (auth_state (w_auth w')) (w_file w') \<and>
    (\<forall>value st. prepareWebuiAuthStateForRestore K value = Inr st \<longrightarrow>
       WebuiAuth_load K env (w_file (restored_credentials K value w')) = restarted K env st (Holds (auth_json st)))"
proof -
  have "durable K (w_auth w', w_file w')" using run_ok [OF assms(1-3)] assms(4) by (simp add: web_ok_def)
  then obtain j where "w_file w' = Holds j" "parseLiveAuthState K j = Some (auth_state (w_auth w'))"
    using assms(5) by (auto simp: durable_def)
  then have "WebuiAuth_load K env (w_file w') = restarted K env (auth_state (w_auth w')) (w_file w')"
    using load_restarted [OF _ assms(6,7)] by simp
  moreover have "WebuiAuth_load K env (w_file (restored_credentials K v w')) = restarted K env st (Holds (auth_json st))"
    if "prepareWebuiAuthStateForRestore K v = Inr st" for v st
    using load_restarted [OF parse_live_auth_json [OF prepare_auth_ok [OF that]] assms(6,7)] that
    by (simp add: restored_credentials_def)
  ultimately show ?thesis by blast
qed

text \<open>C26: A change of the password that is answered with success needed the old password; the new one is accepted from then
  on, in the file too, need not be changed, and every session is gone.  Without a second factor there is none afterwards; with one, its
  secret (if the old password opens it) and its recovery codes are kept, under the new password.\<close>

theorem change_password_done:
  assumes "jobs w i = Some (RouteJob ChangePassword token st)" "serve K (BodyOf i e (Some b)) w = (Reply 200 RequireRelogin, w')"
    and "crypto_laws K" "length (fst (fe_wrap e)) = WRAP_SALT_BYTES" "length (snd (fe_wrap e)) = WRAP_IV_BYTES"
  shows "verify K (w_auth w) (body_text b ''oldPassword'') \<and> verify K (w_auth w') (body_text b ''newPassword'') \<and>
    \<not> mustChangePassword (w_auth w') \<and> sessionTokens w' = Map.empty \<and> w_file w' = Holds (auth_json (auth_state (w_auth w'))) \<and>
    (case totpState (w_auth w) of
       None \<Rightarrow> totpState (w_auth w') = None
     | Some t \<Rightarrow> \<forall>secret. unwrapTotpSecret K (body_text b ''oldPassword'') t = Some secret \<and> well_formed secret \<longrightarrow>
         (\<exists>t'. totpState (w_auth w') = Some t' \<and> unwrapTotpSecret K (body_text b ''newPassword'') t' = Some secret \<and>
            recoveryCodeHashes t' = recoveryCodeHashes t \<and> lastUsedStep t' = lastUsedStep t))"
proof -
  let ?old = "body_text b ''oldPassword''" and ?new = "body_text b ''newPassword''"
  from assms(1,2) have "change_password_finish K e (Some b) (w\<lparr>jobs := (jobs w)(i := None)\<rparr>) = (Reply 200 RequireRelogin, w')"
    by (simp add: serve_def route_finish_def)
  then show ?thesis
  proof (cases rule: change_password_cases)
    case (changed b' a f)
    then have w': "w_auth w' = a" "w_file w' = f" "sessionTokens w' = Map.empty" by simp_all
    obtain salt ivb where wr: "fe_wrap e = (salt, ivb)" by (cases "fe_wrap e")
    have kept: "recoveryCodeHashes t' = recoveryCodeHashes t \<and> lastUsedStep t' = lastUsedStep t \<and> unwrapTotpSecret K ?new t' = Some secret"
      if "rewrapTotpSecret K (salt, ivb) ?old ?new t = Inr t'" "unwrapTotpSecret K ?old t = Some secret" "well_formed secret" for t t' secret
      using that rewrap_keeps_secret [OF crypto_lawsD(1) [OF assms(3)], of salt ivb ?old t secret ?new] assms(4,5) wr by fastforce
    from changed(6) show ?thesis
    proof (cases rule: setPassword_cases)
      case (changed u)
      with kept wr w' \<open>Some b = Some b'\<close> \<open>verify K (w_auth (w\<lparr>jobs := _\<rparr>)) _\<close> show ?thesis
        by (auto simp: verify_iff strong_nonempty mustChangePassword_def totpState_def split: option.splits)
    qed simp
  qed simp
qed

text \<open>C28: The loop that makes recovery codes ends as soon as the random bytes have given eight different codes, and gives eight
  different codes of the form \<open>XXXX-XXXX\<close> over its alphabet, which normalising takes only the dash from.\<close>

theorem recovery_codes_generated:
  assumes "RECOVERY_CODE_COUNT \<le> card (recovery_code rnd ` {..<N})"
  shows "\<exists>codes. generateRecoveryCodes rnd = Some codes \<and> length codes = RECOVERY_CODE_COUNT \<and> distinct codes \<and>
    list_all (\<lambda>c. length c = 9 \<and> c ! 4 = 45 \<and> normalizeRecoveryCode K c = take 4 c @ drop 5 c \<and>
      set (take 4 c @ drop 5 c) \<subseteq> set RECOVERY_ALPHABET) codes"
proof -
  from assms generate_returns_iff obtain codes where codes: "generateRecoveryCodes rnd = Some codes" by blast
  let ?good = "\<lambda>c. length c = 9 \<and> c ! 4 = 45 \<and> normalizeRecoveryCode K c = take 4 c @ drop 5 c \<and> set (take 4 c @ drop 5 c) \<subseteq> set RECOVERY_ALPHABET"
  have "?good (recovery_code rnd n)" for n
    using chunk_chars unfolding normalize_code by (auto simp: recovery_code_def js_def nth_append)
  then have "list_all ?good codes"
    using generated_codes(3) [OF codes] unfolding list_all_iff by blast
  with codes generated_codes(1,2) [OF codes] show ?thesis by blast
qed

text \<open>C25: A start whose last write succeeds always gives credentials: well formed, the same as the next start would read, and
  when the password must be changed, a password in clear that is accepted.\<close>

theorem start_gives_credentials:
  assumes "crypto_laws K" "start_ok K env" "se_write2 env"
  shows "\<exists>a f'. WebuiAuth_load K env f = (Inr a, f') \<and> auth_ok K (auth_state a) \<and> durable K (a, f') \<and>
    (mustChangePassword a \<longrightarrow> (\<exists>p. initialPlain a = Some p \<and> verify K a p))"
proof -
  from load_returns [OF assms(3)] obtain a f' where load: "WebuiAuth_load K env f = (Inr a, f')" by blast
  with load_promise [OF load assms(2,1)] show ?thesis by (auto simp: start_promise_def)
qed

text \<open>C27: The label of an enrolment is made of two names of up to 64 characters each, so it may have 131, while a stored label may
  have 128.  A second factor that is confirmed with a longer label is on and its codes are handed out; after the next start it is off,
  and the password alone is enough.\<close>

theorem long_label_lost:
  assumes "totp_confirm_finish K e token body w = (Reply 200 (RecoveryCodes codes), w')" "totpEnrollments w token = Some pending"
    and "128 < length (enrolled_label pending)" "credential_ok K (auth_state (w_auth w))" "date_ok K (fe_iso e)"
    and "\<not> mustChangePassword (w_auth w)" "\<not> se_dev env"
  shows "totpEnabled (w_auth w') \<and> (\<exists>a. WebuiAuth_load K env (w_file w') = (Inr a, w_file w') \<and> \<not> totpEnabled a)"
proof -
  from assms(1) obtain b state a f where c: "confirmTotpEnrollment K (fe_wrap e) (fe_rnd e) (body_text b ''password'') (te_secret pending)
        (body_text b ''code'') (enrolled_label pending) (fe_now e) = Some (Inr (state, codes))"
      "persistTotp (fe_iso e) (fe_written e) (Some state) (w_auth w, w_file w) = (Inr (), a, f)" "w_auth w' = a" "w_file w' = f"
    using assms(2) by (cases rule: totp_confirm_cases) auto
  have label: "label state = enrolled_label pending" using c(1) by (auto elim!: confirm_Inr)
  from c(2) have a: "auth_state a = (auth_state (w_auth w))\<lparr>updatedAt := fe_iso e, auth_totp := Some state\<rparr>" "f = Holds (auth_json (auth_state a))"
    by (auto elim!: persistTotp_cases)
  then have on: "totpEnabled (w_auth w')" using c(3) by (simp add: totpEnabled_def)
  have "restored_totp (auth_totp (auth_state a)) = None"
    using parse_lenient_long_label [of state] label assms(3) a by (simp add: restored_totp_def)
  moreover have "credential_ok K (auth_state a)" using assms(4,5) a by (simp add: credential_ok_def)
  ultimately have "parseLiveAuthState K (auth_json (auth_state a)) = Some ((auth_state a)\<lparr>auth_totp := None\<rparr>)"
    using parse_live_json by simp
  then show ?thesis
    using on c(4) a assms(6,7) by (auto simp: WebuiAuth_load_def mustChangePassword_def totpEnabled_def)
qed

section \<open>An example\<close>

definition toy_crypto :: crypto where
  "toy_crypto = \<lparr>scrypt = (\<lambda>p salt n. take n (map byte_of p @ replicate n 0)),
     gcm_encrypt = (\<lambda>key ivb t. (t, replicate 16 0)),
     gcm_decrypt = (\<lambda>key ivb tag ct. if tag = replicate 16 0 then Some ct else None),
     sha256 = (\<lambda>bs. take 32 (bs @ replicate 32 0)), secret_ok = (\<lambda>s. True),
     otp_validate = (\<lambda>s token t n. if token = js ''123456'' then Some 0 else None), otp_counter = (\<lambda>t. t div 30000),
     otp_url = (\<lambda>i a s. s), upper = (\<lambda>s. s), date_ok = (\<lambda>s. True), lossy_text = (\<lambda>bs. map unat bs)\<rparr>"

lemma toy_crypto_laws: "crypto_laws toy_crypto"
  by (auto simp: crypto_laws_def gcm_inverse_def toy_crypto_def split: if_splits)

definition toy_totp :: totp_state where
  "toy_totp = \<lparr>wrapSalt = to_hex (replicate 16 1), iv = to_hex (replicate 12 2), ciphertext = to_hex (buffer_from_utf8 (js ''KEY'')),
     authTag = to_hex (replicate 16 0), recoveryCodeHashes = map (hashRecoveryCode toy_crypto) [js ''ABCD-EFGH'', js ''2345-6789''],
     lastUsedStep = 1, label = js ''SnowLuma (admin)''\<rparr>"

definition toy_auth :: "totp_state option \<Rightarrow> webui_auth" where
  "toy_auth t = \<lparr>auth_state = (password_state toy_crypto (js ''Correct-horse1'') (replicate 16 1) (js ''2026'') False)\<lparr>auth_totp := t\<rparr>,
     initialPlain = None, devMode = False\<rparr>"

definition toy_web :: "totp_state option \<Rightarrow> (nat \<rightharpoonup> job) \<Rightarrow> web" where
  "toy_web t j = \<lparr>w_auth = toy_auth t, w_file = Holds (auth_json (auth_state (toy_auth t))), sessionTokens = Map.empty,
     loginAttempts = Map.empty, totpEnrollments = Map.empty, consentGatePending = False, jobs = j\<rparr>"

definition toy_env :: finish_env where
  "toy_env = \<lparr>fe_now = 100000, fe_iso = js ''2026'', fe_written = True, fe_salt = replicate 16 3,
     fe_wrap = (replicate 16 4, replicate 12 5), fe_rnd = (\<lambda>n. [byte_of n, 0, 0, 0]), fe_secret = js ''KEY'',
     fe_token = [18, 52], fe_host = js ''host''\<rparr>"

definition toy_body :: "(string \<times> string) list \<Rightarrow> json" where
  "toy_body kvs = JObj (map (\<lambda>(k, v). (js k, JStr (js v))) kvs)"

text \<open>A login with a password and a recovery code.\<close>

definition toy_login :: json where
  "toy_login = toy_body [(''password'', ''Correct-horse1''), (''recoveryCode'', ''abcd efgh'')]"

lemma toy_fields:
  "is_object toy_login" "body_text toy_login ''password'' = js ''Correct-horse1''" "body_totp toy_login = None"
  "body_recovery toy_login = Some (js ''abcd efgh'')"
  by (simp_all add: toy_login_def toy_body_def body_text_def body_totp_def body_recovery_def non_blank_def str_trim_def)
    (simp_all add: js_def js_white_def)

lemma toy_verify: "verify toy_crypto (toy_auth t) (js ''Correct-horse1'')"
  by (simp add: verify_iff toy_auth_def password_state_def js_def)

lemma toy_normal: "normalizeRecoveryCode toy_crypto (js ''abcd efgh'') = js ''ABCDEFGH''"
  "normalizeRecoveryCode toy_crypto (js ''ABCD-EFGH'') = js ''ABCDEFGH''"
  "normalizeRecoveryCode toy_crypto (js ''2345-6789'') = js ''23456789''"
  by (simp_all add: normalizeRecoveryCode_def str_upper_def js_def js_white_def)

lemma toy_hash: "hashRecoveryCode toy_crypto (js ''abcd efgh'') = hashRecoveryCode toy_crypto (js ''ABCD-EFGH'')"
  by (simp add: hashRecoveryCode_def toy_normal)

lemma toy_consume:
  "consumeRecoveryCode toy_crypto (js ''abcd efgh'') (recoveryCodeHashes toy_totp) = Some [hashRecoveryCode toy_crypto (js ''2345-6789'')]"
proof -
  have "length (sha256 toy_crypto bs) = 32" for bs using crypto_lawsD(2) [OF toy_crypto_laws] .
  then have "hashesEqual (hashRecoveryCode toy_crypto c) (hashRecoveryCode toy_crypto c)" for c
    by (auto simp: hashRecoveryCode_def simp flip: length_0_conv)
  then show ?thesis
    by (simp add: consumeRecoveryCode_def toy_totp_def toy_hash)
qed

lemma toy_passes: "passes toy_crypto p now None (Some (js ''abcd efgh'')) toy_totp
    (toy_totp\<lparr>recoveryCodeHashes := [hashRecoveryCode toy_crypto (js ''2345-6789'')]\<rparr>)"
  by (rule passes_recovery [OF refl _ toy_consume]) (simp add: js_def)

lemma toy_complete:
  "completeWebuiLogin toy_crypto (login_auth_of toy_crypto (toy_auth (Some toy_totp))) toy_login now =
     LoginOk False (Some (toy_totp\<lparr>recoveryCodeHashes := [hashRecoveryCode toy_crypto (js ''2345-6789'')]\<rparr>))"
proof -
  have "totpState (toy_auth (Some toy_totp)) = Some toy_totp" "\<not> mustChangePassword (toy_auth (Some toy_totp))"
    by (simp_all add: toy_auth_def mustChangePassword_def totpState_def)
  with toy_verify [of "Some toy_totp"] toy_passes show ?thesis
    unfolding login.login_ok_iff login.factor_ok_def by (simp add: toy_fields)
qed

lemma toy_token: "to_hex (fe_token toy_env) = js ''1234''"
  by (simp add: toy_env_def hex_char_def js_def)

definition toy_left :: totp_state where
  "toy_left = toy_totp\<lparr>recoveryCodeHashes := [hashRecoveryCode toy_crypto (js ''2345-6789'')]\<rparr>"

lemma toy_devMode [simp]: "devMode (toy_auth t) = False" "fe_written toy_env" "fe_iso toy_env = js ''2026''"
  by (simp_all add: toy_auth_def toy_env_def)

lemma toy_serve:
  assumes "j i = Some (LoginJob ip now)"
  shows "serve toy_crypto (BodyOf i toy_env (Some toy_login)) (toy_web (Some toy_totp) j) = (Reply 200 (LoggedIn (js ''1234'') False),
    (toy_web (Some toy_left) (j(i := None)))\<lparr>sessionTokens := [js ''1234'' \<mapsto> \<lparr>expiresAt = now + TOKEN_TTL_MS, si_mustChange = False\<rparr>]\<rparr>)"
  using assms
  by (simp add: serve_def toy_web_def login_finish_def toy_complete persistTotp_def Let_def atomicWrite_def open_session_def toy_token
      toy_left_def) (simp add: toy_auth_def password_state_def fun_upd_def)

lemma toy_arrives:
  "serve toy_crypto (LoginArrives i ip now) (toy_web t j) = (Waits, toy_web t (j(i \<mapsto> LoginJob ip now)))"
  by (simp add: serve_def login_throttled_def toy_web_def)

theorem session_needs_login_witness:
  "\<exists>v i e b ip t must. (v, BodyOf i e (Some b), Reply 200 (LoggedIn (js ''1234'') must)) \<in> set (web_trace toy_crypto
      [LoginArrives 7 (js ''::1'') 100000, BodyOf 7 toy_env (Some toy_login)] (toy_web (Some toy_totp) Map.empty)) \<and>
    jobs v i = Some (LoginJob ip t) \<and> good_login toy_crypto (w_auth v) b t \<and> 200000 \<le> t + TOKEN_TTL_MS \<and> \<not> must"
proof -
  let ?w = "run toy_crypto [LoginArrives 7 (js ''::1'') 100000, BodyOf 7 toy_env (Some toy_login)] (toy_web (Some toy_totp) Map.empty)"
  have gate: "api_gate ?w (js ''/api/config'') (js ''1234'') 200000 = Admitted"
    by (simp add: toy_arrives toy_serve [where ip = "js ''::1''"] api_gate_def TOKEN_TTL_MS_def) (simp add: js_def toy_web_def)
  have "sessionTokens (toy_web (Some toy_totp) Map.empty) = Map.empty" by (simp add: toy_web_def)
  moreover have "js ''/api/config'' \<notin> set MUST_CHANGE_ALLOWLIST" by (simp add: MUST_CHANGE_ALLOWLIST_def)
  ultimately show ?thesis
    using session_needs_login [OF _ gate] by blast
qed

theorem recovery_code_once_witness:
  "fst (serve toy_crypto (BodyOf 8 toy_env (Some toy_login)) (run toy_crypto [Janitor 100002]
     (snd (serve toy_crypto (BodyOf 7 toy_env (Some toy_login))
       (toy_web (Some toy_totp) [7 \<mapsto> LoginJob (js ''::1'') 100000, 8 \<mapsto> LoginJob (js ''::2'') 100001]))))) \<noteq>
   Reply 200 (LoggedIn (js ''1234'') False)"
proof -
  let ?w = "toy_web (Some toy_totp) [7 \<mapsto> LoginJob (js ''::1'') 100000, 8 \<mapsto> LoginJob (js ''::2'') 100001]"
  let ?s = "serve toy_crypto (BodyOf 7 toy_env (Some toy_login)) ?w"
  have s: "fst ?s = Reply 200 (LoggedIn (js ''1234'') False)" "w_auth (snd ?s) = toy_auth (Some toy_left)"
    by (simp_all add: toy_serve [where ip = "js ''::1''"] toy_web_def [of "Some toy_left"])
  have on: "totpEnabled (toy_auth (Some t))" "stored_hashes (toy_auth (Some t)) = recoveryCodeHashes t" for t
    by (simp_all add: totpEnabled_def toy_auth_def stored_hashes_def totpState_def)
  have "distinct_hashes (recoveryCodeHashes toy_totp)"
    by (simp add: distinct_hashes_def toy_totp_def hashRecoveryCode_def toy_normal) (simp add: toy_crypto_def js_def buffer_from_utf8_def utf8_encode_cp_def byte_of_def)
  moreover have "w_auth ?w = toy_auth (Some toy_totp)" by (simp add: toy_web_def)
  moreover have "list_all (\<lambda>(v, ev, out). \<not> gives_codes out) (web_trace toy_crypto [Janitor 100002] (snd ?s))"
      "w_auth (run toy_crypto [Janitor 100002] (snd ?s)) = toy_auth (Some toy_left)"
    by (simp_all add: serve_def [of _ "Janitor _"] purgeExpiredTokens_def s)
  ultimately show ?thesis
    by (intro recovery_code_once [OF s(1) _ _ toy_fields(4) refl _ _ toy_fields(4) refl]) (simp_all add: on)
qed

theorem login_guesses_bounded_witness:
  "length (filter (wrong_guess (js ''::1'')) (web_trace toy_crypto [LoginArrives 7 (js ''::1'') 100000, BodyOf 7 toy_env (Some (JObj []))]
     (toy_web None Map.empty))) \<le> LOGIN_MAX_ATTEMPTS - 1 + 1"
proof (rule login_guesses_bounded [where ?t0.0 = 100000])
  let ?w = "toy_web None [7 \<mapsto> LoginJob (js ''::1'') 100000]"
  have "completeWebuiLogin toy_crypto (login_auth_of toy_crypto (toy_auth None)) (JObj []) 100000 = BadPassword"
    by (simp add: completeWebuiLogin_def readString_def verify_iff)
  then have b: "serve toy_crypto (BodyOf 7 toy_env (Some (JObj []))) ?w =
      (Reply 401 (Failure WrongPassword), (toy_web None Map.empty)\<lparr>loginAttempts := [js ''::1'' \<mapsto> count_failure 100000 None]\<rparr>)"
    by (simp add: serve_def login_finish_def toy_web_def)
  show "loginAttempts (toy_web None Map.empty) (js ''::1'') = None" "jobs (toy_web None Map.empty) = Map.empty"
    by (simp_all add: toy_web_def)
  show "list_all (in_window 100000) [LoginArrives 7 (js ''::1'') 100000, BodyOf 7 toy_env (Some (JObj []))]"
    by (simp add: LOGIN_LOCKOUT_MS_def)
  show "list_all (\<lambda>x. \<not> right_guess (js ''::1'') x) (web_trace toy_crypto
      [LoginArrives 7 (js ''::1'') 100000, BodyOf 7 toy_env (Some (JObj []))] (toy_web None Map.empty))"
    by (simp add: toy_arrives b)
  have "logins_waiting ip ?w \<le> 1" "logins_waiting ip (toy_web t Map.empty) = 0" "logins_waiting ip (w\<lparr>loginAttempts := x\<rparr>) = logins_waiting ip w" for ip t w x
  proof -
    have "{i. i = 7 \<and> login_of ip (if i = 7 then Some (LoginJob (js ''::1'') 100000) else None)} \<subseteq> {7 :: nat}" by auto
    from card_mono [OF _ this] show "logins_waiting ip ?w \<le> 1" by (simp add: logins_waiting_def toy_web_def)
  qed (simp_all add: logins_waiting_def toy_web_def)
  then show "list_all (\<lambda>k. logins_waiting (js ''::1'') (run toy_crypto (take k [LoginArrives 7 (js ''::1'') 100000, BodyOf 7 toy_env (Some (JObj []))])
      (toy_web None Map.empty)) \<le> 1) [0..<Suc (length [LoginArrives 7 (js ''::1'') 100000, BodyOf 7 toy_env (Some (JObj []))])]"
    by (simp add: toy_arrives b)
qed simp

theorem expired_attempts_unlimited_witness:
  "length (filter (wrong_guess (js ''::1'')) (web_trace toy_crypto (guess_events (js ''::1'') (\<lambda>i. 200000 + int i) toy_env (Some (JObj [])) 1000)
     ((toy_web None Map.empty)\<lparr>loginAttempts := [js ''::1'' \<mapsto> \<lparr>at_count = 5, resetAt = 160000\<rparr>]\<rparr>))) = 1000"
proof -
  let ?w = "(toy_web None Map.empty)\<lparr>loginAttempts := [js ''::1'' \<mapsto> \<lparr>at_count = 5, resetAt = 160000\<rparr>]\<rparr>"
  have "\<not> verify toy_crypto (w_auth ?w) (body_text (JObj []) ''password'')"
    by (simp add: toy_web_def verify_iff body_text_def readString_def)
  from expired_attempts_unlimited [of ?w "js ''::1''" _ "\<lambda>i. 200000 + int i" "JObj []" toy_crypto toy_env 1000, OF _ _ _ _ this]
  show ?thesis by (simp add: LOGIN_MAX_ATTEMPTS_def)
qed

lemma toy_totp_ok: "totp_ok toy_totp"
  using hash_lower_hex [OF toy_crypto_laws]
  by (simp add: toy_totp_def totp_ok_def RECOVERY_CODE_COUNT_def) (simp add: js_def encode_nonempty buffer_from_utf8_def utf8_encode_cp_def)

lemma toy_web_ok: "web_ok toy_crypto (toy_web (Some toy_totp) Map.empty)"
proof -
  have "auth_ok toy_crypto (password_state toy_crypto (js ''Correct-horse1'') (replicate 16 1) (js ''2026'') False)"
    by (rule rotated_state_ok [OF toy_crypto_laws]) (simp_all add: toy_crypto_def)
  then have "auth_ok toy_crypto (auth_state (toy_auth (Some toy_totp)))"
    using toy_totp_ok by (simp add: auth_ok_def credential_ok_def toy_auth_def)
  with durable_written [OF this] show ?thesis by (simp add: web_ok_def toy_web_def)
qed

definition toy_start :: start_env where
  "toy_start = \<lparr>se_dev = False, se_bootstrap = None, se_rotate = (replicate 8 1, replicate 16 2, js ''2026''),
     se_first = (replicate 8 3, replicate 16 4, js ''2026''), se_renamed = True, se_write1 = True, se_write2 = True\<rparr>"

theorem restart_keeps_credentials_witness:
  "WebuiAuth_load toy_crypto toy_start (w_file (run toy_crypto [LoginArrives 7 (js ''::1'') 100000, BodyOf 7 toy_env (Some toy_login)]
     (toy_web (Some toy_totp) Map.empty))) =
   (Inr \<lparr>auth_state = auth_state (toy_auth (Some toy_left)), initialPlain = None, devMode = False\<rparr>,
    Holds (auth_json (auth_state (toy_auth (Some toy_left)))))"
proof -
  let ?evs = "[LoginArrives 7 (js ''::1'') 100000, BodyOf 7 toy_env (Some toy_login)]"
  let ?w = "run toy_crypto ?evs (toy_web (Some toy_totp) Map.empty)"
  have w: "w_auth ?w = toy_auth (Some toy_left)" "w_file ?w = Holds (auth_json (auth_state (toy_auth (Some toy_left))))"
    by (simp_all add: toy_arrives toy_serve [where ip = "js ''::1''"]) (simp_all add: toy_web_def)
  have "list_all (event_ok toy_crypto) ?evs"
    by (simp add: toy_env_def toy_crypto_def wrap_sizes label_fits_def toy_login_def toy_body_def sanitizeTotpLabelPart_def
        defaultTotpAccountName_def DEFAULT_TOTP_ISSUER_def Let_def) (simp add: js_def str_trim_def js_white_def)
  from restart_keeps_credentials [OF toy_web_ok this toy_crypto_laws refl, of toy_start] w show ?thesis
    by (simp add: toy_start_def restarted_def) (simp add: toy_auth_def password_state_def)
qed

theorem start_gives_credentials_witness:
  "\<exists>a f'. WebuiAuth_load toy_crypto toy_start Unparsable = (Inr a, f') \<and> auth_ok toy_crypto (auth_state a) \<and> durable toy_crypto (a, f') \<and>
     initialPlain a = Some (to_hex (replicate 8 3)) \<and> verify toy_crypto a (to_hex (replicate 8 3))"
proof -
  have "start_ok toy_crypto toy_start" "se_write2 toy_start" by (simp_all add: start_ok_def toy_start_def toy_crypto_def)
  from start_gives_credentials [OF toy_crypto_laws this, of Unparsable] obtain a f' where a:
      "WebuiAuth_load toy_crypto toy_start Unparsable = (Inr a, f')" "auth_ok toy_crypto (auth_state a)" "durable toy_crypto (a, f')"
      "mustChangePassword a \<longrightarrow> (\<exists>p. initialPlain a = Some p \<and> verify toy_crypto a p)" by blast
  from a(1) have "mustChangePassword a" "initialPlain a = Some (to_hex (replicate 8 3))"
    by (auto simp: WebuiAuth_load_def load_fresh_def toy_start_def envBootstrapPassword_def atomicWrite_def Let_def
        mustChangePassword_def generateInitialState_def)
  with a show ?thesis by auto
qed

lemma toy_rnd: "RECOVERY_CODE_COUNT \<le> card (recovery_code (\<lambda>n. [byte_of n, 0, 0, 0]) ` {..<8})"
proof -
  let ?rnd = "\<lambda>n. [byte_of n, 0, 0, 0 :: byte]"
  have "distinct (map (recovery_code ?rnd) [0..<8])"
    by (simp add: upt_rec recovery_code_def randomRecoveryChunk_def RECOVERY_ALPHABET_def js_def)
  then have "card (set (map (recovery_code ?rnd) [0..<8])) = 8" by (simp only: distinct_card length_map length_upt)
  then show ?thesis by (simp add: RECOVERY_CODE_COUNT_def atLeast0LessThan)
qed

theorem recovery_codes_generated_witness:
  "\<exists>codes. generateRecoveryCodes (\<lambda>n. [byte_of n, 0, 0, 0]) = Some codes \<and> length codes = RECOVERY_CODE_COUNT \<and> distinct codes \<and>
    list_all (\<lambda>c. length c = 9 \<and> c ! 4 = 45 \<and> normalizeRecoveryCode toy_crypto c = take 4 c @ drop 5 c \<and>
      set (take 4 c @ drop 5 c) \<subseteq> set RECOVERY_ALPHABET) codes"
  by (rule recovery_codes_generated [of _ 8]) (rule toy_rnd)

text \<open>A change of password.\<close>

definition toy_change :: json where
  "toy_change = toy_body [(''oldPassword'', ''Correct-horse1''), (''newPassword'', ''Another-Horse2!'')]"

lemma toy_change_fields:
  "body_text toy_change ''oldPassword'' = js ''Correct-horse1''" "body_text toy_change ''newPassword'' = js ''Another-Horse2!''"
  by (simp_all add: toy_change_def toy_body_def body_text_def)

lemma toy_strong: "isStrongPassword (js ''Another-Horse2!'')"
  by (simp add: isStrongPassword_def PASSWORD_RULES_def js_def special_char_def js_white_def)

lemma toy_unwrap: "unwrapTotpSecret toy_crypto p toy_totp = Some (js ''KEY'')"
proof -
  have "well_formed (js ''KEY'')" by (simp add: js_def)
  then show ?thesis
    using utf8_text_encode [of "js ''KEY''" toy_crypto]
    by (simp add: unwrapTotpSecret_def toy_totp_def wrap_sizes Let_def) (simp add: toy_crypto_def)
qed

theorem change_password_done_witness:
  "\<exists>w'. serve toy_crypto (BodyOf 3 toy_env (Some toy_change)) (toy_web (Some toy_totp) [3 \<mapsto> RouteJob ChangePassword (js ''1234'') None]) =
      (Reply 200 RequireRelogin, w') \<and> verify toy_crypto (w_auth w') (js ''Another-Horse2!'') \<and> sessionTokens w' = Map.empty \<and>
      (\<exists>t'. totpState (w_auth w') = Some t' \<and> unwrapTotpSecret toy_crypto (js ''Another-Horse2!'') t' = Some (js ''KEY''))"
proof -
  let ?w = "toy_web (Some toy_totp) [3 \<mapsto> RouteJob ChangePassword (js ''1234'') None]"
  have totp: "totpState (w_auth ?w) = Some toy_totp" by (simp add: toy_web_def toy_auth_def totpState_def)
  have "auth_totp (auth_state (toy_auth t)) = t" for t by (simp add: toy_auth_def)
  moreover obtain t' where "rewrapTotpSecret toy_crypto (fe_wrap toy_env) (js ''Correct-horse1'') (js ''Another-Horse2!'') toy_totp = Inr t'"
    using toy_unwrap by (simp add: rewrapTotpSecret_def Let_def)
  moreover have "js ''Correct-horse1'' \<noteq> []" by (simp add: js_def)
  ultimately obtain a f where set: "setPassword toy_crypto (fe_salt toy_env) (fe_wrap toy_env) (js ''2026'') True (js ''Another-Horse2!'')
      (Some (js ''Correct-horse1'')) (toy_auth (Some toy_totp), Holds (auth_json (auth_state (toy_auth (Some toy_totp))))) = (Inr (), a, f)"
    using toy_strong by (simp add: setPassword_def atomicWrite_def Let_def)
  have "toy_change \<noteq> JNull" by (simp add: toy_change_def toy_body_def)
  then obtain w' where serve: "serve toy_crypto (BodyOf 3 toy_env (Some toy_change)) ?w = (Reply 200 RequireRelogin, w')"
    using toy_verify [of "Some toy_totp"] toy_strong set
    by (simp add: serve_def route_finish_def change_password_finish_def Let_def toy_change_fields toy_web_def)
  have "well_formed (js ''KEY'')" by (simp add: js_def)
  moreover have "jobs ?w 3 = Some (RouteJob ChangePassword (js ''1234'') None)" by (simp add: toy_web_def)
  ultimately show ?thesis
    using change_password_done [OF _ serve toy_crypto_laws, of "js ''1234''" None] totp toy_unwrap serve
    by (simp add: toy_change_fields toy_env_def wrap_sizes) blast
qed

text \<open>An enrolment with two names of 64 characters.\<close>

definition toy_pending :: totp_enrolling where
  "toy_pending = \<lparr>te_secret = js ''KEY'', te_issuer = replicate 64 65, te_accountName = replicate 64 66, te_expiresAt = 200000\<rparr>"

definition toy_code :: json where
  "toy_code = toy_body [(''password'', ''Correct-horse1''), (''code'', ''123456'')]"

theorem long_label_lost_witness:
  "\<exists>codes w'. totp_confirm_finish toy_crypto toy_env (js ''1234'') (Some toy_code)
      ((toy_web None Map.empty)\<lparr>totpEnrollments := [js ''1234'' \<mapsto> toy_pending]\<rparr>) = (Reply 200 (RecoveryCodes codes), w') \<and>
    totpEnabled (w_auth w') \<and> (\<exists>a. WebuiAuth_load toy_crypto toy_start (w_file w') = (Inr a, w_file w') \<and> \<not> totpEnabled a)"
proof -
  let ?w = "(toy_web None Map.empty)\<lparr>totpEnrollments := [js ''1234'' \<mapsto> toy_pending]\<rparr>"
  have body: "toy_code \<noteq> JNull" "body_text toy_code ''password'' = js ''Correct-horse1''" "body_text toy_code ''code'' = js ''123456''"
    by (simp_all add: toy_code_def toy_body_def body_text_def)
  have "verifyTotpCode toy_crypto (js ''KEY'') (js ''123456'') 100000 None = Some 3"
    by (simp add: verifyTotpCode_def toy_crypto_def js_def js_white_def is_digit_def)
  moreover obtain codes where "generateRecoveryCodes (\<lambda>n. [byte_of n, 0, 0, 0]) = Some codes"
    using toy_rnd generate_returns_iff by blast
  ultimately obtain state where "confirmTotpEnrollment toy_crypto (fe_wrap toy_env) (fe_rnd toy_env) (js ''Correct-horse1'') (js ''KEY'')
      (js ''123456'') (enrolled_label toy_pending) 100000 = Some (Inr (state, codes))"
    by (simp add: confirmTotpEnrollment_def toy_env_def Let_def)
  moreover have "\<not> devMode (w_auth ?w)" "fe_now toy_env = 100000" by (simp_all add: toy_web_def toy_env_def)
  ultimately obtain w' where w': "totp_confirm_finish toy_crypto toy_env (js ''1234'') (Some toy_code) ?w = (Reply 200 (RecoveryCodes codes), w')"
    using body toy_verify [of None]
    by (simp add: totp_confirm_finish_def Let_def toy_pending_def persistTotp_def atomicWrite_def toy_web_def)
  have "auth_ok toy_crypto (password_state toy_crypto (js ''Correct-horse1'') (replicate 16 1) (js ''2026'') False)"
    by (rule rotated_state_ok [OF toy_crypto_laws]) (simp_all add: toy_crypto_def)
  then have "credential_ok toy_crypto (auth_state (w_auth ?w))" "\<not> mustChangePassword (w_auth ?w)"
    by (simp_all add: auth_ok_def credential_ok_def toy_web_def toy_auth_def mustChangePassword_def)
  moreover have "totpEnrollments ?w (js ''1234'') = Some toy_pending" "128 < length (enrolled_label toy_pending)"
      "date_ok toy_crypto (fe_iso toy_env)" "\<not> se_dev toy_start"
    by (simp_all add: toy_pending_def enrolled_label_def js_def toy_crypto_def toy_start_def)
  ultimately show ?thesis
    using long_label_lost [OF w'] w' by blast
qed

end
