(* ===== verification/Spec2Isabelle.thy ===== *)
theory Spec2Isabelle
  imports Ws_Upgrade Sdk_Messages Log_Sanitize Single_Flight Event_Stores Invite_Tracker Sha1_Stream Client_Ip History_Gate Task_Recovery Webui_Safety
begin

text \<open>
  SnowLuma connects a QQ client to bots: a hook in the client process hands packets to the
  \<^emph>\<open>protocol\<close> packages, which turn them into events; the \<^emph>\<open>onebot\<close> packages translate events and
  requests to the OneBot format and serve them over HTTP and over the project's own \<^emph>\<open>websocket\<close>
  package; the \<^emph>\<open>sdk\<close> is the library of the bots on the other side; \<^emph>\<open>core\<close> starts everything and
  serves a web interface; \<^emph>\<open>common\<close> holds what all of them share.  This development models the
  parts of these packages that carry logic of their own.  All paths below are under src/packages.

  \<^bold>\<open>Conventions.\<close>  A JavaScript string is the list of its UTF-16 units (\<open>jstr\<close>), a header or an address
  a \<open>string\<close>, a buffer a list of 8-bit words, a number that the code truncates to 32 bits a 32-bit
  word and any other number an integer or a natural number.  An object is a record; a method is a
  function from the object to the object, with \<open>Inl\<close>, \<open>Some error\<close> or \<open>None\<close> for what it throws.
  What an object does to its socket and listeners is a trace in program order.  Callbacks,
  promises and timers are events: a run is a sequence of events in any order the runtime admits,
  given by a step function over a list or by an inductive predicate.  There is no fuel: loops by
  index are recursions with a measure, and the one loop that chance could keep going, the drawing of recovery codes, is
  a partial function whose value \<open>None\<close> is not returning.

  \<^bold>\<open>Shared, SL_Prelude.\<close>  Types, the string methods of the runtime, list lemmas, and the interfaces of
  the components as locales: \<open>stream_consumer\<close> (a consumer that cannot see how its input is cut),
  \<open>safe_machine\<close> (an event machine with an invariant and a guarantee on each new output) and
  \<open>simulation\<close> (an implementation that answers like a specification).  Each is interpreted on the
  definitions of the model: the UTF-8 validator, the connection, the server, the session store, the
  duplicate filter.  Webui_Login adds \<open>webui_login_auth\<close>, the interface the login code has of the credentials, and Cq_Codec \<open>escape_codec\<close> and \<open>param_codec\<close>, interpreted on the three escapes of
  the server and the SDK.

  \<^bold>\<open>websocket.\<close>
  \<^item> Ws_Utf8: the class \<open>Utf8Validator\<close> of websocket/src/websocket.ts and the codecs of the runtime.  The exact
    language of the validator; round trip of encoder and decoder.
  \<^item> Ws_Frames: close codes, close payloads, \<open>truncateCloseReason\<close>, \<open>scanOversizedFrame\<close>.
  \<^item> Ws_Extensions: extensions.ts, header syntax, permessage-deflate, subprotocols.
  \<^item> Ws_Connection: the class \<open>WebSocket\<close>, field by field and method by method.
  \<^item> Ws_Safety: the connection under any sequence of socket events and calls.  Size of messages, UTF-8 in
    text messages, what can still be sent after the close handshake began, one close event.
  \<^item> Ws_Session: the connection against an abstract reassembler and against a peer.  Refinement, the code and
    reason of every protocol error, round trip of a message between two connections, the close handshake, the diagnostic bytes.
  \<^item> Ws_Handshake: server.ts and client.ts.
  \<^item> Ws_Upgrade: the requests a server accepts, the responses a client accepts, agreement of both ends,
    the life of a client object with the events it passes on and what becomes of sends made too early, the client set of a server.

  The native addon (frame parser, frame builder, \<open>computeAcceptKey\<close>), zlib, the URL parser and the
  source of random bytes are parameters (\<open>native\<close>, \<open>addon\<close>).  Where a theorem needs something of them it is a
  hypothesis, and the witness of the theorem discharges it for a concrete parser and builder: control frames are
  built without a mask or with one of four bytes (\<open>builds_control\<close>), the parser reads back what the builder
  wrote (\<open>carries\<close>), inflating undoes deflating (\<open>zlib_ok\<close>).

  \<^bold>\<open>Messages.\<close>
  \<^item> Cq_Codec: the bracketed text form of messages, onebot/src/helper/cq.ts, onebot/src/message-parser.ts,
    sdk/src/messages/cq.ts and cq-format.ts.  Each escape can be undone, each parameter list is read back,
    a received message is scanned back from its printed form.
  \<^item> Sdk_Messages: segments, chains, quotes and CQ strings, sdk/src/messages.  Round trip of CQ strings, one
    reply per chain, quoting.  Notations of numbers other than decimal digits are a parameter.

  \<^bold>\<open>Stores and filters.\<close>
  \<^item> Single_Flight: common/src/single-flight-cache.ts under any interleaving of calls, loads and timer.
  \<^item> Event_Stores: onebot/src/temp-session-store.ts and protocol/src/msg-push/sysmsg-dedup.ts as refinements of
    specifications without expiry entries and without a ring.
  \<^item> Invite_Tracker: protocol/src/group-invite-tracker.ts, bounds and pairing.
  \<^item> History_Gate: core/src/bridge/apis/history-request-gate.ts, order, spacing and abortion.

  \<^bold>\<open>Tasks of the tool server.\<close>  mcp/src/tasks.ts keeps long-running calls in a directory.
  \<^item> Json_Values: JSON values.
  \<^item> Task_Store: records and their files, the state of \<open>PersistentTasks\<close>, the callbacks of its serial queue, the
    phases of an execution.  A write may fail before or after the rename.
  \<^item> Task_Runtime: every run keeps the invariant that memory, disk, active tasks and pending requests agree.
  \<^item> Task_Recovery: \<open>open\<close> with leases and scope.  Final outcomes, recovery after a crash, the bound on active
    tasks, closing, answers to input requests.
  The schemas of the protocol library and \<open>Date.parse\<close> are parameters; that a validated value is accepted again
  unchanged is a hypothesis (\<open>schema_laws\<close>).  Executions throw protocol errors with safe integers as codes (\<open>safe_thrown\<close>);
  a restart needs that no process has the number of the dead one (\<open>can_restart\<close>).

  \<^bold>\<open>Login of the web interface.\<close>  core/src/webui serves configuration to a browser behind a password and a second factor.
  \<^item> Webui_Totp: totp.ts.  One-time and recovery codes, the secret wrapped with the password, the validation of a stored
    state.  When the loop for recovery codes ends; which inputs pass (\<open>passes\<close>); which states are read back.
  \<^item> Webui_Auth: auth.ts.  Password rules, the file config/webui.json, \<open>WebuiAuth\<close>.  A start always gives usable
    credentials; what is in memory is what the next start reads.
  \<^item> Webui_Login: webui-login.ts, the session token of request-security.ts, and of server.ts the gate, the login route
    the routes for the password and the second factor, and what restoring a backup does to the file.  A request is one step up to the point where it waits for its body, and a
    second step after it; requests wait in \<open>jobs\<close>, and events come in any order.
  \<^item> Webui_Safety: sessions only through a login, recovery codes only once, the limit on guesses, restarts, the change of
    a password; and the defects found: a label that is too long turns the second factor off at the next start, requests that wait
    together are not limited, nor is an address whose entry has run out, an earlier one-time code can be used again, restored
    credentials are overwritten by the running server.
  The functions of \<open>node:crypto\<close> and of \<open>otpauth\<close> are parameters (\<open>crypto\<close>) with their documented laws as a hypothesis
  (\<open>crypto_laws\<close>); random bytes, clock, host name and the success of each write are inputs of the steps.

  \<^bold>\<open>Functions.\<close>
  \<^item> Log_Sanitize: common/src/log-sanitize.ts against a unit-by-unit reference.
  \<^item> Sha1_Stream: protocol/src/highway/sha1-stream.ts against the block-wise hash of the whole message.
  \<^item> Client_Ip: core/src/webui/client-ip.ts, who can choose the address a request is attributed to.

  \<^bold>\<open>Not modelled.\<close>  Code that only moves data between services that are not part of the repository: the
  requests and answers of the remote service (protocol/src/services, protocol/src/web), the OneBot
  actions that forward to them, the databases, the process hook and native libraries, the HTTP routes
  other than those of the login, start-up, user interface; generated code (the catalogue of mcp) and type declarations
  (proto-defs); the protobuf compiler (proton), which works on TypeScript syntax trees at build time.
\<close>

end
